(* ===== verification/Nibble.thy ===== *)
theory Nibble
  imports Prelude
begin

text \<open>
  Keys of the vector commitment tree as nibble paths: \<^verbatim>\<open>quil-tries/src/nibble.rs\<close>. A nibble
  is six bits; a key of \<open>n\<close> bytes has \<open>(8 * n + 5) div 6\<close> of them, the last one padded with
  zero bits. The main fact is that the path determines the key.
\<close>

section \<open>Nibble extraction\<close>

definition BRANCH_NODES :: nat where "BRANCH_NODES = 64"
definition BRANCH_BITS :: nat where "BRANCH_BITS = 6"
definition BRANCH_MASK :: nat where "BRANCH_MASK = 63"

definition get_next_nibble :: "bytes \<Rightarrow> nat \<Rightarrow> int" where
  "get_next_nibble key pos =
    (let start_byte = pos div 8 in
     if start_byte \<ge> length key then - 1
     else
       let start_bit = pos mod 8;
           bits_from_current_byte = 8 - start_bit;
           result = unat (key ! start_byte) AND (push_bit bits_from_current_byte 1 - 1)
       in if bits_from_current_byte \<ge> BRANCH_BITS
          then int (drop_bit (bits_from_current_byte - BRANCH_BITS) result AND BRANCH_MASK)
          else
            let result = push_bit (BRANCH_BITS - bits_from_current_byte) result;
                result =
                  (if start_byte + 1 < length key
                   then let remaining_bits = BRANCH_BITS - bits_from_current_byte;
                            next_byte = unat (key ! (start_byte + 1))
                        in result OR drop_bit (8 - remaining_bits) next_byte
                   else result)
            in int (result AND BRANCH_MASK))"

text \<open>The loop of \<open>get_full_path\<close> from a given depth; it stops at the end of the key.\<close>

function get_full_path_from :: "bytes \<Rightarrow> nat \<Rightarrow> int list" where
  "get_full_path_from key depth =
    (let n = get_next_nibble key depth in
     if n = - 1 then [] else n # get_full_path_from key (depth + BRANCH_BITS))"
  by pat_completeness auto
termination
proof (relation "measure (\<lambda>(key, depth). 8 * length key - depth)", simp)
  fix key :: bytes and depth :: nat and n :: int
  assume "n = get_next_nibble key depth" and "n \<noteq> - 1"
  then have "depth div 8 < length key"
    by (auto simp: get_next_nibble_def Let_def split: if_splits)
  then have "depth < 8 * length key" by simp
  then show "((key, depth + BRANCH_BITS), (key, depth)) \<in> measure (\<lambda>(key, depth). 8 * length key - depth)"
    by (simp add: BRANCH_BITS_def)
qed

definition get_full_path :: "bytes \<Rightarrow> int list" where
  "get_full_path key = get_full_path_from key 0"

function get_nibbles_until_diverge :: "bytes \<Rightarrow> bytes \<Rightarrow> nat \<Rightarrow> int list \<times> nat" where
  "get_nibbles_until_diverge key1 key2 depth =
    (let n1 = get_next_nibble key1 depth; n2 = get_next_nibble key2 depth in
     if n1 \<noteq> n2 \<or> n1 = - 1 then ([], depth)
     else case get_nibbles_until_diverge key1 key2 (depth + BRANCH_BITS) of
            (nibbles, d) \<Rightarrow> (n1 # nibbles, d))"
  by pat_completeness auto
termination
proof (relation "measure (\<lambda>(key1, key2, depth). 8 * length key1 - depth)", simp)
  fix key1 key2 :: bytes and depth :: nat and n1 n2 :: int
  assume "n1 = get_next_nibble key1 depth" and "\<not> (n1 \<noteq> n2 \<or> n1 = - 1)"
  then have "depth div 8 < length key1"
    by (auto simp: get_next_nibble_def Let_def split: if_splits)
  then have "depth < 8 * length key1" by simp
  then show "((key1, key2, depth + BRANCH_BITS), (key1, key2, depth))
      \<in> measure (\<lambda>(key1, key2, depth). 8 * length key1 - depth)"
    by (simp add: BRANCH_BITS_def)
qed

declare get_full_path_from.simps [simp del] get_nibbles_until_diverge.simps [simp del]

lemmas branch_consts = BRANCH_NODES_def BRANCH_BITS_def BRANCH_MASK_def

section \<open>Range of a nibble\<close>

lemma less_div_iff_mult_less_eq: "0 < c \<Longrightarrow> a < b div c \<longleftrightarrow> (a + 1) * c \<le> b" for a b c :: nat
  using less_eq_div_iff_mult_less_eq [of c "Suc a" b] by (simp add: Suc_le_eq)

lemma and_mask6: "(x :: nat) AND 63 = x mod 64"
  using take_bit_eq_mask [of 6 x] by (simp add: take_bit_eq_mod mask_eq_exp_minus_1)

lemma int_mod64_range: "0 \<le> int n mod 64 \<and> - 1 \<le> int n mod 64 \<and> int n mod 64 \<noteq> - 1 \<and> int n mod 64 < 64"
  by (smt (verit) pos_mod_bound pos_mod_sign)

text \<open>Inside the key the nibble is the low six bits of some number.\<close>

lemma get_next_nibble_cases:
  obtains (ended) "length key \<le> pos div 8" "get_next_nibble key pos = - 1"
  | (inside) n where "pos div 8 < length key" "get_next_nibble key pos = int n mod 64"
proof (cases "length key \<le> pos div 8")
  case True
  then show thesis by (intro ended) (simp_all add: get_next_nibble_def)
next
  case False
  have "\<exists>n. get_next_nibble key pos = int (n AND 63)"
    using False unfolding get_next_nibble_def Let_def branch_consts
    by (cases "6 \<le> 8 - pos mod 8"; cases "pos div 8 + 1 < length key"; simp only: if_True if_False; blast)
  with False show thesis by (auto simp: and_mask6 zmod_int intro: inside)
qed

lemma get_next_nibble_end: "get_next_nibble key pos = - 1 \<longleftrightarrow> length key \<le> pos div 8"
  using int_mod64_range by (cases key pos rule: get_next_nibble_cases) auto

lemma get_next_nibble_range: "get_next_nibble key pos < 64 \<and> - 1 \<le> get_next_nibble key pos"
  using int_mod64_range by (cases key pos rule: get_next_nibble_cases) auto

lemma get_next_nibble_nonneg: "0 \<le> get_next_nibble key pos \<longleftrightarrow> pos div 8 < length key"
  using get_next_nibble_end [of key pos] get_next_nibble_range [of key pos] by auto

section \<open>The path as a list\<close>

definition path_len :: "bytes \<Rightarrow> nat" where
  "path_len key = (8 * length key + 5) div 6"

lemma path_len_iff: "i < path_len key \<longleftrightarrow> 6 * i div 8 < length key"
  unfolding path_len_def by (simp add: div_less_iff_less_mult less_div_iff_mult_less_eq) linarith

lemma get_full_path_from_map:
  "get_full_path_from key (6 * i) = map (\<lambda>j. get_next_nibble key (6 * j)) [i..<path_len key]"
proof (induction "path_len key - i" arbitrary: i)
  case 0
  then have "\<not> i < path_len key" by simp
  then have "get_next_nibble key (6 * i) = - 1"
    by (simp add: get_next_nibble_end path_len_iff)
  with \<open>\<not> i < path_len key\<close> show ?case
    by (simp add: get_full_path_from.simps [of key "6 * i"])
next
  case (Suc n)
  then have lt: "i < path_len key" by simp
  then have ne: "get_next_nibble key (6 * i) \<noteq> - 1"
    by (simp add: get_next_nibble_end path_len_iff)
  have "n = path_len key - Suc i" using Suc.hyps(2) by simp
  then have "get_full_path_from key (6 * Suc i)
      = map (\<lambda>j. get_next_nibble key (6 * j)) [Suc i..<path_len key]"
    by (rule Suc.hyps(1))
  then have IH: "get_full_path_from key (6 + 6 * i)
      = map (\<lambda>j. get_next_nibble key (6 * j)) [Suc i..<path_len key]"
    by simp
  show ?case
    using lt ne IH
    by (simp add: get_full_path_from.simps [of key "6 * i"] BRANCH_BITS_def add.commute upt_conv_Cons)
qed

lemma get_full_path_map:
  "get_full_path key = map (\<lambda>j. get_next_nibble key (6 * j)) [0..<path_len key]"
  using get_full_path_from_map [of key 0] by (simp add: get_full_path_def)

lemma length_get_full_path [simp]: "length (get_full_path key) = path_len key"
  by (simp add: get_full_path_map)

lemma get_next_nibble_nth:
  "get_next_nibble key (6 * i) = (if i < path_len key then get_full_path key ! i else - 1)"
  by (auto simp: get_full_path_map get_next_nibble_end path_len_iff)

lemma get_full_path_nth_range: "i < path_len key \<Longrightarrow> 0 \<le> get_full_path key ! i \<and> get_full_path key ! i < 64"
  using get_next_nibble_range [of key "6 * i"] get_next_nibble_nonneg [of key "6 * i"]
  by (simp add: get_full_path_map path_len_iff)

section \<open>The path determines the key\<close>

text \<open>Bit \<open>p\<close> of a key, most significant first, as the nibbles see it.\<close>

definition key_bit :: "bytes \<Rightarrow> nat \<Rightarrow> bool" where
  "key_bit key p \<longleftrightarrow> p div 8 < length key \<and> bit (key ! (p div 8)) (7 - p mod 8)"

lemma push_bit_1_minus_1: "push_bit n 1 - 1 = (mask n :: nat)"
  by (simp add: mask_eq_exp_minus_1)

lemma bit_unat_byte: "bit (unat (w :: byte)) n \<longleftrightarrow> bit w n"
  by (simp add: bit_unsigned_iff)

lemma bit_byte_le: "bit (w :: byte) n \<Longrightarrow> n < 8"
  using bit_imp_le_length [of w n] by simp

lemma mask_63: "(63 :: nat) = mask 6"
  by (simp add: mask_eq_exp_minus_1)

lemma get_next_nibble_bit:
  assumes pos: "pos div 8 < length key" and b: "b < 6"
  shows "bit (nat (get_next_nibble key pos)) (5 - b) \<longleftrightarrow> key_bit key (pos + b)"
proof -
  define q s where "q = pos div 8" and "s = pos mod 8"
  have ps: "pos = 8 * q + s" and s: "s < 8" by (simp_all add: q_def s_def)
  have q: "q < length key" using pos by (simp add: q_def)
  show ?thesis
  proof (cases "s \<le> 2")
    case True
    then have le6: "6 \<le> 8 - s" by simp
    have "get_next_nibble key pos = int (drop_bit (2 - s) (unat (key ! q) AND mask (8 - s)) AND mask 6)"
      using pos True le6 unfolding get_next_nibble_def Let_def branch_consts push_bit_1_minus_1
      by (simp add: mask_63 flip: q_def s_def)
    moreover have "(pos + b) div 8 = q" "(pos + b) mod 8 = s + b"
    proof -
      from True b have "s + b < 8" by simp
      then show "(pos + b) div 8 = q" "(pos + b) mod 8 = s + b" using ps by (simp_all add: add.assoc)
    qed
    ultimately show ?thesis
      using q True b by (auto simp: key_bit_def bit_simps bit_unat_byte)
  next
    case False
    let ?K = "push_bit (s - 2) (unat (key ! q) AND mask (8 - s))"
    let ?L = "if q + 1 < length key then drop_bit (10 - s) (unat (key ! (q + 1))) else 0"
    from False have n6: "\<not> 6 \<le> 8 - s" by simp
    have nib: "get_next_nibble key pos = int ((?K OR ?L) AND mask 6)"
      using pos False n6 s unfolding get_next_nibble_def Let_def branch_consts push_bit_1_minus_1
      by (simp add: mask_63 flip: q_def s_def)
    have *: "bit (nat (get_next_nibble key pos)) (5 - b) \<longleftrightarrow> bit ?K (5 - b) \<or> bit ?L (5 - b)"
    proof -
      have "5 - b < 6" by simp
      with nib show ?thesis by (simp only: nat_int bit_and_iff bit_or_iff bit_mask_iff possible_bit_nat simp_thms)
    qed
    show ?thesis
    proof (cases "s + b < 8")
      case True
      then have "(pos + b) div 8 = q" "(pos + b) mod 8 = s + b" using ps by (simp_all add: add.assoc)
      moreover have "\<not> bit ?L (5 - b)"
        using True b by (auto simp: bit_simps bit_unat_byte dest: bit_byte_le)
      moreover have "bit ?K (5 - b) \<longleftrightarrow> bit (key ! q) (7 - (s + b))"
      proof -
        have "5 - b - (s - 2) = 7 - (s + b)" "s - 2 \<le> 5 - b" "7 - (s + b) < 8 - s"
          using True False b by linarith+
        then show ?thesis by (simp only: bit_push_bit_iff bit_and_iff bit_mask_iff bit_unat_byte possible_bit_nat simp_thms)
      qed
      ultimately show ?thesis using * q by (simp only: key_bit_def simp_thms)
    next
      case c: False
      then obtain r where r: "s + b = 8 + r" "r < 8" using s b that [of "s + b - 8"] by simp
      then have "(pos + b) div 8 = q + 1" "(pos + b) mod 8 = r"
        using ps by (simp_all add: add.assoc)
      moreover have "\<not> bit ?K (5 - b)"
        using r False b by (simp only: bit_push_bit_iff) simp
      moreover have "bit ?L (5 - b) \<longleftrightarrow> q + 1 < length key \<and> bit (key ! (q + 1)) (7 - r)"
      proof -
        have "10 - s + (5 - b) = 7 - r" using r s b by linarith
        then show ?thesis by (simp add: bit_drop_bit_eq bit_unat_byte)
      qed
      ultimately show ?thesis using * by (simp only: key_bit_def simp_thms)
    qed
  qed
qed

lemma key_bit_of_path:
  assumes p: "p < 8 * length key"
  shows "key_bit key p \<longleftrightarrow> bit (nat (get_full_path key ! (p div 6))) (5 - p mod 6)"
proof -
  have "6 * (p div 6) div 8 < length key" using p by linarith
  then have "bit (nat (get_next_nibble key (6 * (p div 6)))) (5 - p mod 6)
      \<longleftrightarrow> key_bit key (6 * (p div 6) + p mod 6)"
    by (rule get_next_nibble_bit) simp
  then show ?thesis
    using \<open>6 * (p div 6) div 8 < length key\<close> by (simp add: get_next_nibble_nth path_len_iff)
qed

lemma path_len_inj: "path_len k1 = path_len k2 \<Longrightarrow> length k1 = length k2"
  unfolding path_len_def by linarith

lemma get_full_path_inj: "get_full_path k1 = get_full_path k2 \<Longrightarrow> k1 = k2"
proof -
  assume eq: "get_full_path k1 = get_full_path k2"
  then have "path_len k1 = path_len k2" by (metis length_get_full_path)
  then have len: "length k1 = length k2" by (rule path_len_inj)
  have "k1 ! i = k2 ! i" if i: "i < length k1" for i
  proof (rule bit_eqI)
    fix n :: nat
    show "bit (k1 ! i) n \<longleftrightarrow> bit (k2 ! i) n"
    proof (cases "n < 8")
      case True
      define m where "m = 7 - n"
      then have m: "m < 8" "n = 7 - m" using True by simp_all
      let ?p = "8 * i + m"
      have p: "?p < 8 * length k1" "?p < 8 * length k2" using i len m by linarith+
      have d: "?p div 8 = i" "7 - ?p mod 8 = n" using m by simp_all
      from key_bit_of_path [OF p(1)] key_bit_of_path [OF p(2)] eq
      have "key_bit k1 ?p \<longleftrightarrow> key_bit k2 ?p" by simp
      then show ?thesis using i len by (simp only: key_bit_def d simp_thms)
    next
      case False
      then show ?thesis using bit_byte_le by blast
    qed
  qed
  with len show ?thesis by (simp add: list_eq_iff_nth_eq)
qed

section \<open>Divergence of two keys\<close>

lemma get_nibbles_until_diverge_lcp:
  "get_nibbles_until_diverge k1 k2 (6 * i) =
    (let c = longest_common_prefix (drop i (get_full_path k1)) (drop i (get_full_path k2))
     in (c, 6 * (i + length c)))"
proof (induction "path_len k1 - i" arbitrary: i)
  case 0
  then have "get_next_nibble k1 (6 * i) = - 1" by (simp add: get_next_nibble_nth)
  with 0 show ?case by (simp add: get_nibbles_until_diverge.simps [of k1 k2 "6 * i"])
next
  case (Suc n)
  let ?p1 = "get_full_path k1" and ?p2 = "get_full_path k2"
  from Suc.hyps(2) have i1: "i < path_len k1" by simp
  then have d1: "drop i ?p1 = ?p1 ! i # drop (Suc i) ?p1" by (simp add: Cons_nth_drop_Suc)
  have n1: "get_next_nibble k1 (6 * i) = ?p1 ! i" "?p1 ! i \<noteq> - 1"
    using i1 get_full_path_nth_range [OF i1] by (simp_all add: get_next_nibble_nth)
  show ?case
  proof (cases "get_next_nibble k2 (6 * i) = ?p1 ! i")
    case True
    then have i2: "i < path_len k2" and eq: "?p2 ! i = ?p1 ! i"
      using n1 by (auto simp: get_next_nibble_nth split: if_splits)
    have d2: "drop i ?p2 = ?p1 ! i # drop (Suc i) ?p2" using i2 eq by (metis Cons_nth_drop_Suc length_get_full_path)
    have "n = path_len k1 - Suc i" using Suc.hyps(2) by simp
    from Suc.hyps(1) [OF this] show ?thesis
      using True n1 by (simp add: get_nibbles_until_diverge.simps [of k1 k2 "6 * i"] BRANCH_BITS_def d1 d2 Let_def add.commute)
  next
    case False
    have "longest_common_prefix (drop i ?p1) (drop i ?p2) = []"
    proof (cases "i < path_len k2")
      case True
      then have "drop i ?p2 = ?p2 ! i # drop (Suc i) ?p2" by (simp add: Cons_nth_drop_Suc)
      then show ?thesis using False True by (simp add: d1 get_next_nibble_nth)
    next
      case False
      then show ?thesis by (simp add: d1)
    qed
    then show ?thesis
      using False n1 by (simp add: get_nibbles_until_diverge.simps [of k1 k2 "6 * i"])
  qed
qed

end
