(* ===== verification/VTree.thy ===== *)
theory VTree
  imports Nibble
begin

text \<open>
  The in-memory vector commitment tree: \<^verbatim>\<open>quil-tries/src/node.rs\<close> and the lookup, insert and
  delete operations of \<^verbatim>\<open>quil-tries/src/tree.rs\<close>. SHA-512 is a parameter \<open>h\<close>.
\<close>

section \<open>Nodes\<close>

record leaf_node =
  leaf_key :: bytes
  leaf_value :: bytes
  leaf_hash_target :: bytes
  leaf_commitment :: bytes
  leaf_size :: int

text \<open>
  A branch has its compressed prefix, its 64 child slots, its commitment, the total size of
  its leaves, its counters, and the two fields of the lazy walker.
\<close>

datatype vnode =
    Leaf leaf_node
  | Branch
      (br_prefix: "int list")
      (br_children: "vnode option list")
      (br_commitment: bytes)
      (br_size: int)
      (br_leaf_count: nat)
      (br_longest_branch: nat)
      (br_full_prefix: "int list")
      (br_fully_loaded: bool)

definition compute_commitment :: "(bytes \<Rightarrow> bytes) \<Rightarrow> leaf_node \<Rightarrow> leaf_node" where
  "compute_commitment h l =
    l\<lparr>leaf_commitment := h ([0] @ leaf_key l @
        (if leaf_hash_target l \<noteq> [] then leaf_hash_target l else leaf_value l))\<rparr>"

definition new_leaf :: "(bytes \<Rightarrow> bytes) \<Rightarrow> bytes \<Rightarrow> bytes \<Rightarrow> bytes \<Rightarrow> int \<Rightarrow> leaf_node" where
  "new_leaf h key val hash_target sz =
    compute_commitment h
      \<lparr>leaf_key = key, leaf_value = val, leaf_hash_target = hash_target,
       leaf_commitment = [], leaf_size = sz\<rparr>"

definition branch_new :: "int list \<Rightarrow> vnode" where
  "branch_new p = Branch p (replicate BRANCH_NODES None) [] 0 0 0 [] True"

definition child_count :: "vnode option list \<Rightarrow> nat" where
  "child_count cs = length (filter (\<lambda>c. c \<noteq> None) cs)"

text \<open>Children are strictly smaller than their branch, for the recursions below.\<close>

lemma size_child: "Some n \<in> set cs \<Longrightarrow> size n < size_list (size_option size) cs"
  by (induction cs) auto

lemma size_slot: "i < length cs \<Longrightarrow> cs ! i = Some n \<Longrightarrow> size n < size_list (size_option size) cs"
  by (metis nth_mem size_child)

fun collect_leaves :: "vnode \<Rightarrow> leaf_node list" where
  "collect_leaves (Leaf l) = [l]"
| "collect_leaves (Branch p cs cm sz lc lb fp fl) =
    concat (map (\<lambda>c. case c of None \<Rightarrow> [] | Some n \<Rightarrow> collect_leaves n) cs)"

text \<open>The first hit of a loop that returns as soon as it finds something.\<close>

fun first_some :: "'a option list \<Rightarrow> 'a option" where
  "first_some [] = None"
| "first_some (Some a # xs) = Some a"
| "first_some (None # xs) = first_some xs"

fun find_leaf_value :: "vnode \<Rightarrow> bytes \<Rightarrow> bytes option" where
  "find_leaf_value (Leaf l) target = (if leaf_key l = target then Some (leaf_value l) else None)"
| "find_leaf_value (Branch p cs cm sz lc lb fp fl) target =
    first_some (map (\<lambda>c. case c of None \<Rightarrow> None | Some n \<Rightarrow> find_leaf_value n target) cs)"

section \<open>Lookup\<close>

text \<open>
  The loop over the compressed prefix: the depth after it when every nibble matches. It is
  shared by lookup, delete and the proof walk.
\<close>

fun skip_prefix :: "bytes \<Rightarrow> nat \<Rightarrow> int list \<Rightarrow> nat option" where
  "skip_prefix key d [] = Some d"
| "skip_prefix key d (p # ps) =
    (if get_next_nibble key d \<noteq> p then None else skip_prefix key (d + BRANCH_BITS) ps)"

text \<open>
  A child slot. The array has 64 slots and a nibble is below 64, so the guard always holds in
  the code; it makes the recursion of the model well-founded.
\<close>

definition slot :: "vnode option list \<Rightarrow> nat \<Rightarrow> vnode option" where
  "slot cs i = (if i < length cs then cs ! i else None)"

text \<open>The measure of the recursions over an optional node.\<close>

definition osize :: "vnode option \<Rightarrow> nat" where
  "osize n = (case n of None \<Rightarrow> 0 | Some n \<Rightarrow> Suc (size n))"

lemma osize_slot [simp]: "osize (slot cs i) < osize (Some (Branch p cs cm sz lc lb fp fl))"
  using size_slot [of i cs] by (auto simp: osize_def slot_def less_Suc_eq split: option.splits)

function get_recursive :: "vnode option \<Rightarrow> bytes \<Rightarrow> nat \<Rightarrow> bytes option" where
  "get_recursive None key d = None"
| "get_recursive (Some (Leaf l)) key d = (if leaf_key l = key then Some (leaf_value l) else None)"
| "get_recursive (Some (Branch p cs cm sz lc lb fp fl)) key d =
    (case skip_prefix key d p of
       None \<Rightarrow> None
     | Some d' \<Rightarrow>
         let nibble = get_next_nibble key d' in
         if nibble < 0 then None
         else get_recursive (slot cs (nat nibble)) key (d' + BRANCH_BITS))"
  by pat_completeness auto
termination
  by (relation "measure (\<lambda>(n, _, _). osize n)") simp_all

section \<open>Insertion\<close>

definition usize_max :: nat where "usize_max = 2 ^ 64 - 1"

text \<open>
  The prefix loop of insertion: the index of the first prefix nibble that differs from the
  key, that prefix nibble, and the key's nibble there (\<open>-1\<close> past its end).
\<close>

fun prefix_mismatch :: "bytes \<Rightarrow> nat \<Rightarrow> nat \<Rightarrow> int list \<Rightarrow> (nat \<times> int \<times> int) option" where
  "prefix_mismatch key d i [] = None"
| "prefix_mismatch key d i (p # ps) =
    (let n = get_next_nibble key d in
     if n \<noteq> p then Some (i, p, n) else prefix_mismatch key (d + BRANCH_BITS) (Suc i) ps)"

text \<open>The two counters a branch recomputes from its children.\<close>

fun child_leaf_count :: "vnode option \<Rightarrow> nat" where
  "child_leaf_count None = 0"
| "child_leaf_count (Some (Leaf _)) = 1"
| "child_leaf_count (Some (Branch p cs cm sz lc lb fp fl)) = lc"

fun child_longest_branch :: "vnode option \<Rightarrow> nat" where
  "child_longest_branch None = 0"
| "child_longest_branch (Some (Leaf _)) = 0"
| "child_longest_branch (Some (Branch p cs cm sz lc lb fp fl)) = lb"

definition children_leaf_count :: "vnode option list \<Rightarrow> nat" where
  "children_leaf_count cs = sum_list (map child_leaf_count cs)"

definition children_longest_branch :: "vnode option list \<Rightarrow> nat" where
  "children_longest_branch cs = 1 + foldl max 0 (map child_longest_branch cs)"

text \<open>
  \<open>children[p as usize]\<close> panics for a prefix nibble outside the 64 slots, which a tree built by
  insertion never has.
\<close>

function insert_recursive ::
  "(bytes \<Rightarrow> bytes) \<Rightarrow> vnode option \<Rightarrow> bytes \<Rightarrow> bytes \<Rightarrow> bytes \<Rightarrow> int \<Rightarrow> nat \<Rightarrow> vnode result" where
  "insert_recursive h None key val ht sz d = Inr (Leaf (new_leaf h key val ht sz))"
| "insert_recursive h (Some (Leaf existing)) key val ht sz d =
    (if leaf_key existing = key then Inr (Leaf (new_leaf h key val ht sz))
     else
       case get_nibbles_until_diverge (leaf_key existing) key d of
         (common, diverge_depth) \<Rightarrow>
           let n1 = get_next_nibble (leaf_key existing) diverge_depth;
               n2 = get_next_nibble key diverge_depth;
               cs = replicate BRANCH_NODES None;
               cs = (if 0 \<le> n1 then cs[nat n1 := Some (Leaf existing)] else cs);
               cs = (if 0 \<le> n2 then cs[nat n2 := Some (Leaf (new_leaf h key val ht sz))] else cs)
           in Inr (Branch common cs [] 0 2 0 [] True))"
| "insert_recursive h (Some (Branch p cs cm bsz lc lb fp fl)) key val ht sz d =
    (case prefix_mismatch key d 0 p of
       Some (i, pn, n) \<Rightarrow>
         if pn < 0 \<or> int BRANCH_NODES \<le> pn then Inl Panic
         else
           let old = Branch (drop (Suc i) p) cs [] bsz lc lb fp fl;
               cs' = (replicate BRANCH_NODES None)[nat pn := Some old];
               cs' = (if 0 \<le> n then cs'[nat n := Some (Leaf (new_leaf h key val ht sz))] else cs')
           in Inr (Branch (take i p) cs' [] 0 (min usize_max (lc + 1)) (min usize_max (lb + 1)) [] True)
     | None \<Rightarrow>
         let d' = d + BRANCH_BITS * length p; nibble = get_next_nibble key d' in
         if nibble < 0 then Inl InvalidArgument
         else
           rbind (insert_recursive h (slot cs (nat nibble)) key val ht sz (d' + BRANCH_BITS)) (\<lambda>child.
             let cs' = cs[nat nibble := Some child] in
             Inr (Branch p cs' [] bsz (children_leaf_count cs') (children_longest_branch cs') fp fl)))"
  by pat_completeness auto
termination
  by (relation "measure (\<lambda>(_, n, _, _, _, _, _). osize n)") simp_all

section \<open>Deletion\<close>

fun merge_branch_with_child :: "int list \<Rightarrow> nat \<Rightarrow> vnode \<Rightarrow> vnode" where
  "merge_branch_with_child parent_prefix child_index (Leaf l) = Leaf l"
| "merge_branch_with_child parent_prefix child_index (Branch p cs cm sz lc lb fp fl) =
    Branch (parent_prefix @ [int child_index] @ p) cs [] sz lc lb fp fl"

definition remaining_children :: "vnode option list \<Rightarrow> nat list" where
  "remaining_children cs = filter (\<lambda>i. cs ! i \<noteq> None) [0..<length cs]"

function delete_recursive :: "vnode option \<Rightarrow> bytes \<Rightarrow> nat \<Rightarrow> bool \<times> vnode option" where
  "delete_recursive None key d = (False, None)"
| "delete_recursive (Some (Leaf l)) key d =
    (if leaf_key l = key then (True, None) else (False, Some (Leaf l)))"
| "delete_recursive (Some (Branch p cs cm sz lc lb fp fl)) key d =
    (case skip_prefix key d p of
       None \<Rightarrow> (False, Some (Branch p cs cm sz lc lb fp fl))
     | Some d' \<Rightarrow>
         let nibble = get_next_nibble key d' in
         if nibble < 0 then (False, Some (Branch p cs cm sz lc lb fp fl))
         else
           case delete_recursive (slot cs (nat nibble)) key (d' + BRANCH_BITS) of
             (found, new_child) \<Rightarrow>
               let cs' = cs[nat nibble := new_child] in
               if \<not> found then (False, Some (Branch p cs' cm sz lc lb fp fl))
               else
                 (case remaining_children cs' of
                    [] \<Rightarrow> (True, None)
                  | [i] \<Rightarrow> (True, map_option (merge_branch_with_child p i) (cs' ! i))
                  | _ \<Rightarrow> (True, Some (Branch p cs' [] sz (children_leaf_count cs')
                              (children_longest_branch cs') fp fl))))"
  by pat_completeness auto
termination
  by (relation "measure (\<lambda>(n, _, _). osize n)") simp_all

section \<open>The tree\<close>

record tree =
  root :: "vnode option"

definition tree_new :: tree where
  "tree_new = \<lparr>root = None\<rparr>"

text \<open>
  \<open>insert\<close> moves the root out of the tree before it recurses, so an error leaves the tree
  empty: the model returns the tree after the call beside the result.
\<close>

definition tree_insert ::
  "(bytes \<Rightarrow> bytes) \<Rightarrow> tree \<Rightarrow> bytes \<Rightarrow> bytes \<Rightarrow> bytes \<Rightarrow> int \<Rightarrow> unit result \<times> tree" where
  "tree_insert h t key val ht sz =
    (case insert_recursive h (root t) key val ht sz 0 of
       Inl e \<Rightarrow> (Inl e, t\<lparr>root := None\<rparr>)
     | Inr n \<Rightarrow> (Inr (), t\<lparr>root := Some n\<rparr>))"

definition tree_get :: "tree \<Rightarrow> bytes \<Rightarrow> bytes option" where
  "tree_get t key = get_recursive (root t) key 0"

definition tree_delete :: "tree \<Rightarrow> bytes \<Rightarrow> unit result \<times> tree" where
  "tree_delete t key =
    (if key = [] then (Inl InvalidArgument, t)
     else case delete_recursive (root t) key 0 of
            (found, r) \<Rightarrow> (if found then Inr () else Inl NotFound, t\<lparr>root := r\<rparr>))"

definition tree_leaves :: "tree \<Rightarrow> (bytes \<times> bytes) list" where
  "tree_leaves t =
    (case root t of None \<Rightarrow> []
     | Some n \<Rightarrow> map (\<lambda>l. (leaf_key l, leaf_value l)) (collect_leaves n))"

end
