(* ===== verification/KvStore.thy ===== *)
theory KvStore
  imports Main
begin

text \<open>
  The interface of a keyed store: what a caller of an insert/get/delete structure relies on.
  The laws say that every operation acts on the lookup function as the corresponding map
  update, for the keys the structure accepts; the lemmas say what a caller sees after any
  sequence of operations.
\<close>

datatype ('k, 'v) op = Put 'k 'v | Del 'k

fun op_key :: "('k, 'v) op \<Rightarrow> 'k" where
  "op_key (Put k v) = k"
| "op_key (Del k) = k"

text \<open>Applying a sequence of operations, to a store and to the map it stands for.\<close>

fun run_ops :: "('k \<Rightarrow> 'v \<Rightarrow> 's \<Rightarrow> 's) \<Rightarrow> ('k \<Rightarrow> 's \<Rightarrow> 's) \<Rightarrow> ('k, 'v) op list \<Rightarrow> 's \<Rightarrow> 's" where
  "run_ops upd del [] s = s"
| "run_ops upd del (Put k v # ops) s = run_ops upd del ops (upd k v s)"
| "run_ops upd del (Del k # ops) s = run_ops upd del ops (del k s)"

definition map_ops :: "('k, 'v) op list \<Rightarrow> ('k \<Rightarrow> 'v option) \<Rightarrow> ('k \<Rightarrow> 'v option)" where
  "map_ops = run_ops (\<lambda>k v m. m(k \<mapsto> v)) (\<lambda>k m. m(k := None))"

lemma map_ops_simps [simp]:
  "map_ops [] m = m"
  "map_ops (Put k v # ops) m = map_ops ops (m(k \<mapsto> v))"
  "map_ops (Del k # ops) m = map_ops ops (m(k := None))"
  by (simp_all add: map_ops_def)

locale kv_store =
  fixes empty :: "'s"
    and contents :: "'s \<Rightarrow> 'k \<Rightarrow> 'v option"
    and update :: "'k \<Rightarrow> 'v \<Rightarrow> 's \<Rightarrow> 's"
    and remove :: "'k \<Rightarrow> 's \<Rightarrow> 's"
    and keys :: "'k set"
    and invar :: "'s \<Rightarrow> bool"
  assumes invar_empty: "invar empty"
    and contents_empty: "contents empty k = None"
    and invar_update: "invar s \<Longrightarrow> k \<in> keys \<Longrightarrow> invar (update k v s)"
    and contents_update: "invar s \<Longrightarrow> k \<in> keys \<Longrightarrow> contents (update k v s) = (contents s)(k \<mapsto> v)"
    and invar_remove: "invar s \<Longrightarrow> k \<in> keys \<Longrightarrow> invar (remove k s)"
    and contents_remove: "invar s \<Longrightarrow> k \<in> keys \<Longrightarrow> contents (remove k s) = (contents s)(k := None)"
begin

lemma run_from:
  "invar s \<Longrightarrow> op_key ` set ops \<subseteq> keys \<Longrightarrow>
    invar (run_ops update remove ops s) \<and>
    contents (run_ops update remove ops s) = map_ops ops (contents s)"
proof (induction ops arbitrary: s)
  case (Cons a ops)
  then show ?case
    by (cases a) (simp_all add: invar_update invar_remove contents_update contents_remove)
qed simp

lemma run_invar: "op_key ` set ops \<subseteq> keys \<Longrightarrow> invar (run_ops update remove ops empty)"
  using run_from [OF invar_empty] by blast

lemma run_contents:
  "op_key ` set ops \<subseteq> keys \<Longrightarrow> contents (run_ops update remove ops empty) = map_ops ops Map.empty"
  using run_from [OF invar_empty] contents_empty by (metis ext)

lemma put_get: "invar s \<Longrightarrow> k \<in> keys \<Longrightarrow> contents (update k v s) k = Some v"
  by (simp add: contents_update)

lemma put_commute:
  "invar s \<Longrightarrow> k \<in> keys \<Longrightarrow> k' \<in> keys \<Longrightarrow> k \<noteq> k' \<Longrightarrow>
    contents (update k v (update k' v' s)) = contents (update k' v' (update k v s))"
  by (simp add: contents_update invar_update fun_upd_twist)

lemma remove_put: "invar s \<Longrightarrow> k \<in> keys \<Longrightarrow> contents s k = None \<Longrightarrow>
    contents (remove k (update k v s)) = contents s"
  by (auto simp: contents_update contents_remove invar_update)

end

end
