(* ===== verification/VTreeInv.thy ===== *)
theory VTreeInv
  imports VTree KvStore
begin

text \<open>
  Correctness of the in-memory vector commitment tree of \<^verbatim>\<open>quil-tries/src/tree.rs\<close>: the
  well-formedness invariant, the set of leaves each operation leaves behind, the leaf
  counters, and the tree as an instance of the keyed store of \<open>KvStore\<close>.
\<close>

section \<open>Well-formed trees\<close>

abbreviation kpath :: "bytes \<Rightarrow> int list" where
  "kpath \<equiv> get_full_path"

definition oleaves :: "vnode option \<Rightarrow> leaf_node set" where
  "oleaves c = (case c of None \<Rightarrow> {} | Some n \<Rightarrow> set (collect_leaves n))"

text \<open>
  A node below the nibble path \<open>pre\<close>: a leaf's key continues \<open>pre\<close>; a branch has a prefix of
  nibbles, 64 slots of which two or more are taken, and well-formed children below
  \<open>pre\<close>, its prefix and the slot's nibble.
\<close>

function wf_node :: "int list \<Rightarrow> vnode \<Rightarrow> bool" where
  "wf_node pre (Leaf l) \<longleftrightarrow> prefix pre (kpath (leaf_key l))"
| "wf_node pre (Branch p cs cm sz lc lb fp fl) \<longleftrightarrow>
    list_all (\<lambda>x. 0 \<le> x \<and> x < int BRANCH_NODES) p \<and> length cs = BRANCH_NODES \<and> 2 \<le> child_count cs \<and>
    (\<forall>i \<in> {..<length cs}. case cs ! i of None \<Rightarrow> True | Some n \<Rightarrow> wf_node (pre @ p @ [int i]) n)"
  by pat_completeness auto
termination
  by (relation "measure (\<lambda>(_, n). size n)") (auto simp: less_Suc_eq intro: size_slot)

definition wf_opt :: "int list \<Rightarrow> vnode option \<Rightarrow> bool" where
  "wf_opt pre c = (case c of None \<Rightarrow> True | Some n \<Rightarrow> wf_node pre n)"

lemma oleaves_simps [simp]:
  "oleaves None = {}"
  "oleaves (Some (Leaf l)) = {l}"
  by (simp_all add: oleaves_def)

lemma set_collect_leaves: "set (collect_leaves n) = oleaves (Some n)"
  by (simp add: oleaves_def)

lemma oleaves_Branch [simp]:
  "oleaves (Some (Branch p cs cm sz lc lb fp fl)) = (\<Union>i<length cs. oleaves (cs ! i))"
  by (fastforce simp: oleaves_def in_set_conv_nth [of _ cs] split: option.splits)

lemma wf_opt_simps [simp]:
  "wf_opt pre None"
  "wf_opt pre (Some (Leaf l)) \<longleftrightarrow> prefix pre (kpath (leaf_key l))"
  "wf_opt pre (Some (Branch p cs cm sz lc lb fp fl)) \<longleftrightarrow>
    list_all (\<lambda>x. 0 \<le> x \<and> x < 64) p \<and> length cs = 64 \<and> 2 \<le> child_count cs \<and>
    (\<forall>i<64. wf_opt (pre @ p @ [int i]) (cs ! i))"
  by (auto simp: wf_opt_def BRANCH_NODES_def)

lemma vnode_opt_induct [case_names None Leaf Branch]:
  assumes "P None" "\<And>l. P (Some (Leaf l))"
    and B: "\<And>p cs cm sz lc lb fp fl. (\<And>i. i < length cs \<Longrightarrow> P (cs ! i))
      \<Longrightarrow> P (Some (Branch p cs cm sz lc lb fp fl))"
  shows "P c"
proof (induction "osize c" arbitrary: c rule: less_induct)
  case less
  show ?case
  proof (cases c)
    case (Some n)
    show ?thesis
    proof (cases n)
      case (Branch p cs cm sz lc lb fp fl)
      have "P (cs ! i)" if "i < length cs" for i
        using less [of "slot cs i"] osize_slot [of cs i] that by (simp add: Some Branch slot_def)
      then show ?thesis using B Some Branch by simp
    qed (simp add: assms Some)
  qed (simp add: assms)
qed

lemma wf_leaves_prefix: "wf_opt pre c \<Longrightarrow> l \<in> oleaves c \<Longrightarrow> prefix pre (kpath (leaf_key l))"
proof (induction c arbitrary: pre rule: vnode_opt_induct)
  case (Branch p cs cm sz lc lb fp fl)
  then obtain i where "i < length cs" "l \<in> oleaves (cs ! i)" by auto
  with Branch have "prefix (pre @ p @ [int i]) (kpath (leaf_key l))" by auto
  then show ?case by (metis append_prefixD)
qed auto

text \<open>What it means to lie below slot \<open>i\<close> of a branch with the prefix \<open>p\<close> below \<open>pre\<close>.\<close>

lemma prefix_snoc_iff:
  "prefix (xs @ [x]) ys \<longleftrightarrow> prefix xs ys \<and> length xs < length ys \<and> ys ! length xs = x"
proof
  assume "prefix xs ys \<and> length xs < length ys \<and> ys ! length xs = x"
  then show "prefix (xs @ [x]) ys" by (auto simp: prefix_def neq_Nil_conv)
qed (auto simp: prefix_def)

lemma prefix_append_drop:
  "prefix (pre @ p) ys \<longleftrightarrow> prefix pre ys \<and> prefix p (drop (length pre) ys)"
  by (auto simp: prefix_def)

lemma drop_nibble: "i < path_len key \<Longrightarrow> drop i (kpath key) = get_next_nibble key (6 * i) # drop (Suc i) (kpath key)"
  by (simp add: get_next_nibble_nth Cons_nth_drop_Suc)

lemma skip_prefix_eq:
  "list_all (\<lambda>x. 0 \<le> x \<and> x < 64) p \<Longrightarrow>
    skip_prefix key (6 * i) p =
      (if prefix p (drop i (kpath key)) then Some (6 * (i + length p)) else None)"
proof (induction p arbitrary: i)
  case (Cons x p)
  have d: "6 * i + BRANCH_BITS = 6 * Suc i" by (simp add: BRANCH_BITS_def)
  show ?case
  proof (cases "i < path_len key")
    case True
    then show ?thesis using Cons.IH [of "Suc i"] Cons.prems
      by (simp only: skip_prefix.simps d drop_nibble [OF True] list.pred_inject Cons_prefix_Cons) auto
  next
    case False
    then show ?thesis using Cons.prems by (auto simp: get_next_nibble_nth)
  qed
qed simp

lemma skip_prefix_at:
  assumes "list_all (\<lambda>x. 0 \<le> x \<and> x < 64) p" "prefix pre (kpath key)"
  shows "skip_prefix key (6 * length pre) p =
    (if prefix (pre @ p) (kpath key) then Some (6 * length (pre @ p)) else None)"
  using assms by (simp only: skip_prefix_eq prefix_append_drop length_append simp_thms)

text \<open>The descent of a key into a well-formed branch: where it goes, or why it stops.\<close>

lemma descend_cases:
  assumes "list_all (\<lambda>x. 0 \<le> x \<and> x < 64) p" "prefix pre (kpath key)"
  obtains (off) "skip_prefix key (6 * length pre) p = None" "\<not> prefix (pre @ p) (kpath key)"
  | (short) "skip_prefix key (6 * length pre) p = Some (6 * length (pre @ p))"
      "get_next_nibble key (6 * length (pre @ p)) < 0" "pre @ p = kpath key"
  | (down) i where "skip_prefix key (6 * length pre) p = Some (6 * length (pre @ p))"
      "get_next_nibble key (6 * length (pre @ p)) = int i" "i < 64"
      "prefix (pre @ p @ [int i]) (kpath key)"
proof -
  let ?n = "get_next_nibble key (6 * length (pre @ p))"
  consider "\<not> prefix (pre @ p) (kpath key)" | "pre @ p = kpath key"
    | "prefix (pre @ p) (kpath key)" "length (pre @ p) < path_len key"
  proof (cases "prefix (pre @ p) (kpath key)")
    case True
    then obtain zs where "kpath key = (pre @ p) @ zs" by (auto simp: prefix_def)
    moreover from this have "path_len key = length (pre @ p) + length zs"
      by (metis length_append length_get_full_path)
    ultimately show ?thesis using that True by (cases zs) auto
  qed (use that in blast)
  then show thesis
  proof cases
    case 1
    then show ?thesis using assms by (intro off) (auto simp only: skip_prefix_at split: if_splits)
  next
    case 2
    then have "length (pre @ p) = path_len key" by (metis length_get_full_path)
    then have "?n < 0" by (simp only: get_next_nibble_nth) simp
    moreover have "skip_prefix key (6 * length pre) p = Some (6 * length (pre @ p))"
      using skip_prefix_at [OF assms] 2 by simp
    ultimately show ?thesis using 2 by (intro short)
  next
    case 3
    then have n: "?n = kpath key ! length (pre @ p)" by (simp only: get_next_nibble_nth) simp
    then have r: "0 \<le> ?n \<and> ?n < 64" using get_full_path_nth_range [OF 3(2)] by simp
    show ?thesis
    proof (rule down [of "nat ?n"])
      show "prefix (pre @ p @ [int (nat ?n)]) (kpath key)"
        using 3 n r prefix_snoc_iff [of "pre @ p" "?n" "kpath key"] by simp
      show "skip_prefix key (6 * length pre) p = Some (6 * length (pre @ p))"
        using 3 skip_prefix_at [OF assms] by simp
    qed (use r in auto)
  qed
qed

section \<open>Lookup finds exactly the leaves\<close>

text \<open>A leaf of a well-formed branch lies in the slot its key descends to.\<close>

lemma leaf_slot_unique:
  assumes "wf_opt (q @ [int i]) c" "wf_opt (q @ [int j]) c'" "l \<in> oleaves c" "l' \<in> oleaves c'"
    "leaf_key l = leaf_key l'"
  shows "i = j"
  using wf_leaves_prefix [OF assms(1,3)] wf_leaves_prefix [OF assms(2,4)] assms(5)
  by (auto simp: prefix_snoc_iff)

lemma leaf_in_slot:
  assumes "\<forall>i<64. wf_opt (pre @ p @ [int i]) (cs ! i)" "length cs = 64" "i < 64"
    and "prefix (pre @ p @ [int i]) (kpath (leaf_key l))"
  shows "(\<exists>j<length cs. l \<in> oleaves (cs ! j)) \<longleftrightarrow> l \<in> oleaves (cs ! i)"
proof
  assume "\<exists>j<length cs. l \<in> oleaves (cs ! j)"
  then obtain j where j: "j < 64" "l \<in> oleaves (cs ! j)" using assms(2) by auto
  then have "prefix ((pre @ p) @ [int j]) (kpath (leaf_key l))"
    using assms(1) wf_leaves_prefix [of "pre @ p @ [int j]" "cs ! j" l] by simp
  with assms(4) have "i = j" using prefix_snoc_iff [of "pre @ p"] by simp
  with j show "l \<in> oleaves (cs ! i)" by simp
qed (use assms in auto)

theorem get_recursive_leaves:
  assumes "wf_opt pre c" "prefix pre (kpath key)"
  shows "get_recursive c key (6 * length pre) = Some v \<longleftrightarrow>
    (\<exists>l \<in> oleaves c. leaf_key l = key \<and> leaf_value l = v)"
  using assms
proof (induction c arbitrary: pre rule: vnode_opt_induct)
  case (Branch p cs cm sz lc lb fp fl)
  let ?B = "Branch p cs cm sz lc lb fp fl"
  from Branch.prems have p: "list_all (\<lambda>x. 0 \<le> x \<and> x < 64) p" and len: "length cs = 64"
    and wf: "\<forall>i<64. wf_opt (pre @ p @ [int i]) (cs ! i)" by auto
  have below: "\<exists>i<64. prefix (pre @ p @ [int i]) (kpath (leaf_key l))" if "l \<in> oleaves (Some ?B)" for l
    using that wf wf_leaves_prefix len by (metis UN_E lessThan_iff oleaves_Branch)
  from p Branch.prems(2) show ?case
  proof (cases rule: descend_cases)
    case off
    have "\<not> (\<exists>l \<in> oleaves (Some ?B). leaf_key l = key)"
      using below off(2) by (metis append.assoc append_prefixD)
    with off(1) show ?thesis by auto
  next
    case short
    have False if "l \<in> oleaves (Some ?B)" "leaf_key l = key" for l
      using below [OF that(1)] that(2) short(3) [symmetric] by (auto simp: prefix_def)
    with short(1,2) show ?thesis by (auto simp: Let_def)
  next
    case (down i)
    have "6 * length (pre @ p) + BRANCH_BITS = 6 * length (pre @ p @ [int i])"
      by (simp add: BRANCH_BITS_def)
    then have "get_recursive (Some ?B) key (6 * length pre) =
        get_recursive (cs ! i) key (6 * length (pre @ p @ [int i]))"
      using down(1-3) len by (simp only: get_recursive.simps slot_def Let_def option.simps) simp
    also have "\<dots> = Some v \<longleftrightarrow> (\<exists>l \<in> oleaves (cs ! i). leaf_key l = key \<and> leaf_value l = v)"
      using Branch.IH [of i "pre @ p @ [int i]"] down(3,4) len wf by simp
    also have "\<dots> \<longleftrightarrow> (\<exists>l \<in> oleaves (Some ?B). leaf_key l = key \<and> leaf_value l = v)"
      using leaf_in_slot [OF wf len down(3)] down(4) unfolding oleaves_Branch by blast
    finally show ?thesis .
  qed
qed auto

lemma wf_leaves_unique:
  assumes "wf_opt pre c" "l \<in> oleaves c" "l' \<in> oleaves c" "leaf_key l = leaf_key l'"
  shows "l = l'"
  using assms
proof (induction c arbitrary: pre rule: vnode_opt_induct)
  case (Branch p cs cm sz lc lb fp fl)
  then obtain i j where "i < 64" "l \<in> oleaves (cs ! i)" "j < 64" "l' \<in> oleaves (cs ! j)" by auto
  moreover have "i = j"
    using leaf_slot_unique [of "pre @ p" i "cs ! i" j "cs ! j" l l'] calculation Branch.prems by simp
  ultimately show ?case using Branch by auto
qed auto

section \<open>Counting leaves\<close>

definition leaf_list :: "vnode option \<Rightarrow> leaf_node list" where
  "leaf_list c = (case c of None \<Rightarrow> [] | Some n \<Rightarrow> collect_leaves n)"

lemma set_leaf_list [simp]: "set (leaf_list c) = oleaves c"
  by (simp add: leaf_list_def oleaves_def split: option.splits)

lemma leaf_list_simps [simp]:
  "leaf_list None = []" "leaf_list (Some (Leaf l)) = [l]"
  "leaf_list (Some (Branch p cs cm sz lc lb fp fl)) = concat (map leaf_list cs)"
  by (simp_all add: leaf_list_def [abs_def])

lemma finite_oleaves [simp]: "finite (oleaves c)"
  by (metis List.finite_set set_leaf_list)

lemma card_slots:
  assumes "\<forall>i<64. wf_opt (q @ [int i]) (cs ! i)" "length cs = 64"
  shows "card (\<Union>i<length cs. oleaves (cs ! i)) = (\<Sum>i<length cs. card (oleaves (cs ! i)))"
proof (rule card_UN_disjoint)
  show "\<forall>i\<in>{..<length cs}. \<forall>j\<in>{..<length cs}. i \<noteq> j \<longrightarrow> oleaves (cs ! i) \<inter> oleaves (cs ! j) = {}"
    using leaf_slot_unique [of q _ "cs ! _" _ "cs ! _"] assms by (metis disjoint_iff lessThan_iff)
qed auto

lemma card_leaves: "wf_opt pre c \<Longrightarrow> card (oleaves c) = length (leaf_list c)"
proof (induction c arbitrary: pre rule: vnode_opt_induct)
  case (Branch p cs cm sz lc lb fp fl)
  then have wf: "\<forall>i<64. wf_opt ((pre @ p) @ [int i]) (cs ! i)" and len: "length cs = 64" by simp_all
  have "card (oleaves (Some (Branch p cs cm sz lc lb fp fl))) = (\<Sum>i<length cs. card (oleaves (cs ! i)))"
    unfolding oleaves_Branch by (rule card_slots [OF wf len])
  also have "\<dots> = (\<Sum>i<length cs. length (leaf_list (cs ! i)))"
    using Branch.IH wf len by (intro sum.cong) auto
  also have "\<dots> = length (leaf_list (Some (Branch p cs cm sz lc lb fp fl)))"
    by (simp add: length_concat sum_list_sum_nth atLeast0LessThan)
  finally show ?case .
qed auto

text \<open>Every branch's counter is the number of leaves below it.\<close>

function counted :: "vnode option \<Rightarrow> bool" where
  "counted None \<longleftrightarrow> True"
| "counted (Some (Leaf l)) \<longleftrightarrow> True"
| "counted (Some (Branch p cs cm sz lc lb fp fl)) \<longleftrightarrow>
    lc = length (collect_leaves (Branch p cs cm sz lc lb fp fl)) \<and> (\<forall>i \<in> {..<length cs}. counted (slot cs i))"
  by pat_completeness auto
termination
  by (relation "measure osize") simp_all

lemma counted_branch:
  "wf_opt pre (Some (Branch p cs cm sz lc lb fp fl)) \<Longrightarrow>
    counted (Some (Branch p cs cm sz lc lb fp fl)) \<longleftrightarrow>
      lc = card (oleaves (Some (Branch p cs cm sz lc lb fp fl))) \<and> (\<forall>i<64. counted (cs ! i))"
  using card_leaves [of pre "Some (Branch p cs cm sz lc lb fp fl)"]
  by (auto simp: slot_def leaf_list_def [abs_def])

lemma children_leaf_count:
  assumes wf: "\<forall>i<64. wf_opt (q @ [int i]) (cs ! i)" and len: "length cs = 64" and cnt: "\<forall>i<64. counted (cs ! i)"
  shows "children_leaf_count cs = card (\<Union>i<length cs. oleaves (cs ! i))"
proof -
  have "child_leaf_count (cs ! i) = card (oleaves (cs ! i))" if "i < 64" for i
    using wf [rule_format, OF that] cnt [rule_format, OF that] counted_branch
    by (cases "cs ! i" rule: child_leaf_count.cases)
      (simp_all del: oleaves_Branch wf_opt_simps(3) counted.simps(3))
  then have "(\<Sum>i<length cs. card (oleaves (cs ! i))) = (\<Sum>i<length cs. child_leaf_count (cs ! i))"
    unfolding len by (intro sum.cong) simp_all
  then show ?thesis unfolding card_slots [OF wf len] children_leaf_count_def
    by (simp add: sum_list_sum_nth atLeast0LessThan)
qed

section \<open>Insertion\<close>

lemma oleaves_update:
  assumes "i < length cs"
  shows "(\<Union>j<length (cs[i := c]). oleaves (cs[i := c] ! j)) =
    oleaves c \<union> (\<Union>j \<in> {..<length cs} - {i}. oleaves (cs ! j))"
  using assms by (auto simp: nth_list_update split: if_splits)

lemma child_count_update:
  assumes "i < length cs"
  shows "child_count (cs[i := c]) =
    child_count cs - (if cs ! i = None then 0 else 1) + (if c = None then 0 else 1)"
proof -
  have cc: "child_count (take i cs @ x # drop (Suc i) cs) =
      child_count (take i cs) + child_count (drop (Suc i) cs) + (if x = None then 0 else 1)" for x
    by (simp add: child_count_def)
  have "child_count cs = child_count (take i cs @ cs ! i # drop (Suc i) cs)"
    using assms by (simp add: id_take_nth_drop [symmetric])
  then show ?thesis using assms cc by (simp add: upd_conv_take_nth_drop)
qed

text \<open>The slots of a fresh branch with two children.\<close>

lemma two_children:
  assumes "a < 64" "b < 64" "a \<noteq> b" and cs: "cs = (replicate 64 None)[a := Some x, b := Some y]"
  shows "child_count cs = 2" "length cs = 64" "(\<Union>i<64. oleaves (cs ! i)) = oleaves (Some x) \<union> oleaves (Some y)"
    "(\<forall>i<64. wf_opt (q @ [int i]) (cs ! i)) \<longleftrightarrow> wf_opt (q @ [int a]) (Some x) \<and> wf_opt (q @ [int b]) (Some y)"
    "(\<forall>i<64. counted (cs ! i)) \<longleftrightarrow> counted (Some x) \<and> counted (Some y)"
proof -
  have "child_count (replicate 64 None) = 0" by (simp add: child_count_def)
  then show "child_count cs = 2" using assms by (simp add: child_count_update)
qed (use assms in \<open>auto simp: nth_list_update split: if_splits\<close>)

text \<open>Two keys with parallel paths diverge inside both paths.\<close>

lemma lcp_diverge:
  assumes "\<not> prefix x y" "\<not> prefix y x"
  obtains a b x' y' where "x = longest_common_prefix x y @ a # x'" "y = longest_common_prefix x y @ b # y'" "a \<noteq> b"
proof -
  let ?c = "longest_common_prefix x y"
  obtain x' y' where xy: "x = ?c @ x'" "y = ?c @ y'"
    by (meson longest_common_prefix_prefix1 longest_common_prefix_prefix2 prefixE)
  from xy assms have "x' \<noteq> []" "y' \<noteq> []" by (metis append_Nil2 prefixI)+
  then obtain a u b v where uv: "x' = a # u" "y' = b # v" by (meson neq_Nil_conv)
  have "a \<noteq> b"
  proof
    assume "a = b"
    with uv xy have "prefix (?c @ [a]) x" "prefix (?c @ [a]) y" by (metis append.assoc append_Cons append_Nil prefixI)+
    then have "prefix (?c @ [a]) ?c" by (rule longest_common_prefix_max_prefix)
    then show False by (simp add: prefix_def)
  qed
  with xy uv that show thesis by metis
qed

lemma path_range: "x \<in> set (kpath key) \<Longrightarrow> 0 \<le> x \<and> x < 64"
  using get_full_path_nth_range by (metis in_set_conv_nth length_get_full_path)

lemma nibble_at:
  assumes "kpath key = q @ a # r"
  shows "get_next_nibble key (6 * length q) = a" "0 \<le> a" "a < 64"
proof -
  have "path_len key = length (q @ a # r)" using assms by (metis length_get_full_path)
  then show "get_next_nibble key (6 * length q) = a" by (simp add: get_next_nibble_nth assms)
qed (use assms path_range [of a key] in auto)

lemma diverge_cases:
  assumes "prefix pre (kpath k1)" "prefix pre (kpath k2)" "kpath k1 \<parallel> kpath k2"
  obtains c a b where
    "get_nibbles_until_diverge k1 k2 (6 * length pre) = (c, 6 * length (pre @ c))"
    "get_next_nibble k1 (6 * length (pre @ c)) = int a" "a < 64"
    "get_next_nibble k2 (6 * length (pre @ c)) = int b" "b < 64" "a \<noteq> b"
    "list_all (\<lambda>x. 0 \<le> x \<and> x < 64) c"
    "prefix (pre @ c @ [int a]) (kpath k1)" "prefix (pre @ c @ [int b]) (kpath k2)"
proof -
  from assms(1,2) obtain x y where xy: "kpath k1 = pre @ x" "kpath k2 = pre @ y" by (auto simp: prefix_def)
  let ?c = "longest_common_prefix x y"
  from assms(3) xy have "\<not> prefix x y" "\<not> prefix y x" by auto
  then obtain a b x' y' where ab: "x = ?c @ a # x'" "y = ?c @ b # y'" "a \<noteq> b" by (rule lcp_diverge)
  have k1: "kpath k1 = (pre @ ?c) @ a # x'" and k2: "kpath k2 = (pre @ ?c) @ b # y'"
    using xy ab by simp_all
  have "get_nibbles_until_diverge k1 k2 (6 * length pre) = (?c, 6 * length (pre @ ?c))"
    using get_nibbles_until_diverge_lcp [of k1 k2 "length pre"] xy by (simp add: Let_def)
  moreover have "list_all (\<lambda>x. 0 \<le> x \<and> x < 64) ?c"
    using path_range [of _ k1] k1 by (auto simp: list_all_iff)
  moreover have "prefix (pre @ ?c @ [a]) (kpath k1)" "prefix (pre @ ?c @ [b]) (kpath k2)"
    using k1 k2 by (auto simp: prefix_def)
  ultimately show thesis
    using that [of ?c "nat a" "nat b"] nibble_at [OF k1] nibble_at [OF k2] ab(3) by auto
qed

lemma prefix_mismatch_spec:
  assumes "list_all (\<lambda>x. 0 \<le> x \<and> x < 64) p"
  shows "case prefix_mismatch key (6 * j) a p of
      None \<Rightarrow> prefix p (drop j (kpath key))
    | Some (i, pn, n) \<Rightarrow> \<exists>m<length p. i = a + m \<and> pn = p ! m \<and> n = get_next_nibble key (6 * (j + m)) \<and>
        n \<noteq> pn \<and> prefix (take m p) (drop j (kpath key))"
  using assms
proof (induction p arbitrary: j a)
  case (Cons x p)
  have d: "6 * j + BRANCH_BITS = 6 * Suc j" by (simp add: BRANCH_BITS_def)
  show ?case
  proof (cases "get_next_nibble key (6 * j) = x")
    case False
    then show ?thesis by (auto simp: Let_def intro!: exI [of _ 0])
  next
    case True
    with Cons.prems have j: "j < path_len key" by (auto simp: get_next_nibble_nth split: if_splits)
    have step: "prefix_mismatch key (6 * j) a (x # p) = prefix_mismatch key (6 * Suc j) (Suc a) p"
      using True by (simp only: prefix_mismatch.simps d Let_def) simp
    have IH: "case prefix_mismatch key (6 * Suc j) (Suc a) p of
        None \<Rightarrow> prefix p (drop (Suc j) (kpath key))
      | Some (i, pn, n) \<Rightarrow> \<exists>m<length p. i = Suc a + m \<and> pn = p ! m \<and>
          n = get_next_nibble key (6 * (Suc j + m)) \<and> n \<noteq> pn \<and> prefix (take m p) (drop (Suc j) (kpath key))"
      using Cons by (intro Cons.IH) simp
    show ?thesis
    proof (cases "prefix_mismatch key (6 * Suc j) (Suc a) p")
      case None
      with IH have "prefix p (drop (Suc j) (kpath key))" by simp
      then show ?thesis unfolding step None drop_nibble [OF j] True by simp
    next
      case (Some r)
      obtain i pn n where r: "r = (i, pn, n)" by (cases r)
      with IH Some obtain m where m: "m < length p" "i = Suc a + m" "pn = p ! m"
        "n = get_next_nibble key (6 * (Suc j + m))" "n \<noteq> pn" "prefix (take m p) (drop (Suc j) (kpath key))"
        by auto
      moreover have "prefix (take (Suc m) (x # p)) (drop j (kpath key))"
        unfolding drop_nibble [OF j] True using m(6) by simp
      moreover have "j + Suc m = Suc j + m" by simp
      ultimately show ?thesis unfolding step Some r option.case prod.case
        by (intro exI [of _ "Suc m"]) (simp only: length_Cons nth_Cons_Suc Suc_less_eq add_Suc_right add_Suc simp_thms not_False_eq_True)
    qed
  qed
qed simp

lemma mismatch_cases:
  assumes "list_all (\<lambda>x. 0 \<le> x \<and> x < 64) p" "prefix pre (kpath key)"
  obtains (matches) "prefix_mismatch key (6 * length pre) 0 p = None" "prefix (pre @ p) (kpath key)"
  | (differs) i where "prefix_mismatch key (6 * length pre) 0 p =
        Some (i, p ! i, get_next_nibble key (6 * length (pre @ take i p)))"
      "i < length p" "get_next_nibble key (6 * length (pre @ take i p)) \<noteq> p ! i"
      "prefix (pre @ take i p) (kpath key)"
proof (cases "prefix_mismatch key (6 * length pre) 0 p")
  case None
  then show thesis using prefix_mismatch_spec [OF assms(1), where key = key and j = "length pre" and a = 0] assms(2)
    by (intro matches) (auto simp: prefix_append_drop)
next
  case (Some r)
  obtain i pn n where r: "r = (i, pn, n)" by (cases r)
  have i: "i < length p" "pn = p ! i" "n = get_next_nibble key (6 * (length pre + i))" "n \<noteq> pn"
    "prefix (take i p) (drop (length pre) (kpath key))"
    using prefix_mismatch_spec [OF assms(1), where key = key and j = "length pre" and a = 0] Some r by auto
  moreover have "length (pre @ take i p) = length pre + i" using i(1) by simp
  ultimately show thesis using Some r assms(2)
    by (intro differs [of i]) (simp_all only: prefix_append_drop simp_thms not_False_eq_True)
qed

lemma child_count_pos: "0 < child_count cs \<Longrightarrow> \<exists>i<length cs. cs ! i \<noteq> None"
  unfolding child_count_def length_greater_0_conv filter_empty_conv by (metis in_set_conv_nth)

lemma wf_leaves_nonempty: "wf_opt pre c \<Longrightarrow> c \<noteq> None \<Longrightarrow> oleaves c \<noteq> {}"
proof (induction c arbitrary: pre rule: vnode_opt_induct)
  case (Branch p cs cm sz lc lb fp fl)
  then obtain i where i: "i < length cs" "cs ! i \<noteq> None" using child_count_pos [of cs] by auto
  with Branch have "oleaves (cs ! i) \<noteq> {}" by (intro Branch.IH [of i "pre @ p @ [int i]"]) auto
  with i show ?case by auto
qed auto

text \<open>
  The keys a tree can take: the new key's path may not continue a stored key's path, nor the
  other way round. Keys of one length, as the callers use, always satisfy it.
\<close>

definition compatible :: "bytes \<Rightarrow> vnode option \<Rightarrow> bool" where
  "compatible key c \<longleftrightarrow> (\<forall>l \<in> oleaves c. leaf_key l = key \<or> kpath (leaf_key l) \<parallel> kpath key)"

definition insert_spec :: "leaf_node \<Rightarrow> leaf_node set \<Rightarrow> leaf_node set" where
  "insert_spec l L = {l' \<in> L. leaf_key l' \<noteq> leaf_key l} \<union> {l}"

lemma new_leaf_sel [simp]:
  "leaf_key (new_leaf h key val ht sz) = key" "leaf_value (new_leaf h key val ht sz) = val"
  "leaf_hash_target (new_leaf h key val ht sz) = ht" "leaf_size (new_leaf h key val ht sz) = sz"
  by (simp_all add: new_leaf_def compute_commitment_def)

lemma insert_leaf_split:
  assumes "prefix pre (kpath (leaf_key e))" "prefix pre (kpath key)" "leaf_key e \<noteq> key"
    "kpath (leaf_key e) \<parallel> kpath key"
  shows "\<exists>n. insert_recursive h (Some (Leaf e)) key val ht sz (6 * length pre) = Inr n \<and>
    wf_opt pre (Some n) \<and> counted (Some n) \<and> oleaves (Some n) = {e, new_leaf h key val ht sz}"
  using assms(1,2,4)
proof (cases rule: diverge_cases)
  case (1 c a b)
  define cs where "cs = (replicate 64 None)[a := Some (Leaf e), b := Some (Leaf (new_leaf h key val ht sz))]"
  note two = two_children [OF 1(3,5,6) cs_def]
  have "insert_recursive h (Some (Leaf e)) key val ht sz (6 * length pre) = Inr (Branch c cs [] 0 2 0 [] True)"
    using 1(1,2,4) assms(3) by (simp add: Let_def BRANCH_NODES_def cs_def)
  moreover have wf: "wf_opt pre (Some (Branch c cs [] 0 2 0 [] True))"
    using two(1,2) two(4) [of "pre @ c"] 1(7-9) by simp
  moreover have L: "oleaves (Some (Branch c cs [] 0 2 0 [] True)) = {e, new_leaf h key val ht sz}"
    using two(2,3) by (simp add: insert_commute)
  moreover have "e \<noteq> new_leaf h key val ht sz" using assms(3) by auto
  then have "counted (Some (Branch c cs [] 0 2 0 [] True))"
    unfolding counted_branch [OF wf] L using two(5) by simp
  ultimately show ?thesis by blast
qed

lemma insert_branch_split:
  assumes B: "B = Branch p cs cm bsz lc lb fp fl" and wf: "wf_opt pre (Some B)"
    and key: "prefix pre (kpath key)" and comp: "compatible key (Some B)"
    and i: "prefix_mismatch key (6 * length pre) 0 p = Some (i, p ! i, get_next_nibble key (6 * length (pre @ take i p)))"
      "i < length p" "get_next_nibble key (6 * length (pre @ take i p)) \<noteq> p ! i"
      "prefix (pre @ take i p) (kpath key)"
  shows "\<exists>n. insert_recursive h (Some B) key val ht sz (6 * length pre) = Inr n \<and>
    wf_opt pre (Some n) \<and> (counted (Some B) \<and> card (oleaves (Some B)) < usize_max \<longrightarrow> counted (Some n)) \<and>
    oleaves (Some n) = insert_spec (new_leaf h key val ht sz) (oleaves (Some B))"
proof -
  let ?q = "pre @ take i p" and ?new = "new_leaf h key val ht sz"
  let ?n = "get_next_nibble key (6 * length ?q)"
  have pi: "0 \<le> p ! i" "p ! i < 64" using wf B i(2) by (auto simp: list_all_length)
  have split: "pre @ p = ?q @ p ! i # drop (Suc i) p" using i(2) by (simp add: id_take_nth_drop)
  have below: "prefix (?q @ [p ! i]) (kpath (leaf_key l))" if "l \<in> oleaves (Some B)" for l
  proof -
    from that wf B obtain j where "prefix (pre @ p @ [int j]) (kpath (leaf_key l))"
      by (auto dest: wf_leaves_prefix)
    then have "prefix (?q @ [p ! i] @ drop (Suc i) p @ [int j]) (kpath (leaf_key l))"
      using split by (metis append.assoc append_Cons append_Nil)
    then show ?thesis by (metis append.assoc append_prefixD)
  qed
  have other: "leaf_key l \<noteq> key" if "l \<in> oleaves (Some B)" for l
    using below [OF that] i(3) unfolding prefix_snoc_iff get_next_nibble_nth by auto
  obtain l where l: "l \<in> oleaves (Some B)" using wf_leaves_nonempty [OF wf] by auto
  have "?q \<noteq> kpath key"
    using below [OF l] other [OF l] comp l by (metis append_prefixD compatible_def parallelE)
  with i(4) obtain a r where a: "kpath key = ?q @ a # r" by (metis append_Nil2 neq_Nil_conv prefixE)
  note nib = nibble_at [OF a]
  let ?old = "Branch (drop (Suc i) p) cs [] bsz lc lb fp fl"
  define cs' where "cs' = (replicate 64 None)[nat (p ! i) := Some ?old, nat a := Some (Leaf ?new)]"
  let ?N = "Branch (take i p) cs' [] 0 (min usize_max (lc + 1)) (min usize_max (lb + 1)) [] True"
  have ne: "nat (p ! i) \<noteq> nat a" using i(3) nib pi by (simp add: eq_nat_nat_iff)
  have "nat (p ! i) < 64" "nat a < 64" using pi nib by auto
  note two = two_children [OF this ne cs'_def]
  have N: "insert_recursive h (Some B) key val ht sz (6 * length pre) = Inr ?N"
    using i(1) pi nib B by (simp add: Let_def BRANCH_NODES_def cs'_def)
  have wf_old: "wf_opt (?q @ [p ! i]) (Some ?old)"
    using wf B split by (auto simp: list_all_length) (metis append.assoc append_Cons append_Nil)
  have wf_N: "wf_opt pre (Some ?N)"
  proof -
    have "prefix (?q @ [a]) (kpath key)" using a by (auto simp: prefix_def)
    moreover have "list_all (\<lambda>x. 0 \<le> x \<and> x < 64) (take i p)" using wf B by (auto simp: list_all_length)
    ultimately show ?thesis using wf_old two(1,2) two(4) [of ?q] pi nib by simp
  qed
  have L: "oleaves (Some ?N) = insert ?new (oleaves (Some B))" using two(2,3) B by simp
  have cnt: "counted (Some ?N)" if "counted (Some B)" "card (oleaves (Some B)) < usize_max"
  proof -
    have lc: "lc = card (oleaves (Some B))" and cs: "\<forall>i<64. counted (cs ! i)"
      using counted_branch [of pre p cs cm bsz lc lb fp fl] wf that(1) B by blast+
    have "card (oleaves (Some ?N)) = Suc (card (oleaves (Some B)))"
      unfolding L using other [of ?new] by (intro card_insert_disjoint) auto
    moreover have "oleaves (Some ?old) = oleaves (Some B)" using B by simp
    then have "counted (Some ?old)"
      unfolding counted_branch [OF wf_old] by (intro conjI trans [OF lc] cs) (simp only:)
    moreover have "min usize_max (lc + 1) = Suc (card (oleaves (Some B)))" using lc that(2) by simp
    ultimately show ?thesis unfolding counted_branch [OF wf_N] two(5) by (simp only: counted.simps(2) simp_thms)
  qed
  show ?thesis
  proof (intro exI conjI impI)
    show "oleaves (Some ?N) = insert_spec ?new (oleaves (Some B))"
      unfolding L insert_spec_def using other by auto
  qed (use N wf_N cnt in blast)+
qed

lemma compatible_child:
  assumes "compatible key (Some (Branch p cs cm sz lc lb fp fl))" "i < length cs"
  shows "compatible key (cs ! i)"
  using assms by (auto simp: compatible_def)

lemma other_slots:
  assumes "\<forall>i<64. wf_opt (pre @ p @ [int i]) (cs ! i)" "length cs = 64"
    and "prefix (pre @ p @ [int i]) (kpath key)" "l \<in> (\<Union>j \<in> {..<length cs} - {i}. oleaves (cs ! j))"
  shows "leaf_key l \<noteq> key"
proof
  assume eq: "leaf_key l = key"
  from assms(2,4) obtain j where j: "j < 64" "j \<noteq> i" "l \<in> oleaves (cs ! j)" by auto
  then have "prefix ((pre @ p) @ [int j]) (kpath (leaf_key l))"
    using assms(1) wf_leaves_prefix [of "pre @ p @ [int j]" "cs ! j" l] by simp
  with assms(3) eq j(2) show False using prefix_snoc_iff [of "pre @ p"] by simp
qed

lemma slots_split:
  "i < length cs \<Longrightarrow>
    (\<Union>j<length cs. oleaves (cs ! j)) = oleaves (cs ! i) \<union> (\<Union>j \<in> {..<length cs} - {i}. oleaves (cs ! j))"
  by auto

lemma insert_spec_slot:
  assumes wf: "\<forall>i<64. wf_opt (pre @ p @ [int i]) (cs ! i)" and len: "length cs = 64" and i: "i < 64"
    and key: "prefix (pre @ p @ [int i]) (kpath (leaf_key l))"
    and c: "oleaves c = insert_spec l (oleaves (cs ! i))"
  shows "(\<Union>j<length (cs[i := c]). oleaves (cs[i := c] ! j)) = insert_spec l (\<Union>j<length cs. oleaves (cs ! j))"
proof -
  have i': "i < length cs" using i len by simp
  show ?thesis
    unfolding oleaves_update [OF i'] slots_split [OF i'] c insert_spec_def
    using other_slots [OF wf len key] by blast
qed

text \<open>A compatible key that reaches a branch goes on below it.\<close>

lemma compatible_continues:
  assumes wf: "wf_opt pre (Some (Branch p cs cm bsz lc lb fp fl))"
    and comp: "compatible key (Some (Branch p cs cm bsz lc lb fp fl))" and key: "prefix (pre @ p) (kpath key)"
  obtains a r where "kpath key = (pre @ p) @ a # r"
proof -
  have "pre @ p \<noteq> kpath key"
  proof
    assume eq: "pre @ p = kpath key"
    obtain l where l: "l \<in> oleaves (Some (Branch p cs cm bsz lc lb fp fl))" using wf_leaves_nonempty [OF wf] by auto
    then obtain j where "prefix (pre @ p @ [int j]) (kpath (leaf_key l))"
      using wf by (auto dest: wf_leaves_prefix)
    then have "strict_prefix (kpath key) (kpath (leaf_key l))"
      unfolding eq [symmetric] by (auto simp: prefix_def strict_prefix_def)
    moreover from l comp have "leaf_key l = key \<or> kpath (leaf_key l) \<parallel> kpath key"
      unfolding compatible_def by blast
    ultimately show False by (auto simp: strict_prefix_def)
  qed
  with key show ?thesis using that by (metis append_Nil2 neq_Nil_conv prefixE)
qed

lemma counted_update:
  assumes wf: "wf_opt pre (Some (Branch p cs cm bsz lc lb fp fl))"
    and cnt: "counted (Some (Branch p cs cm bsz lc lb fp fl))"
      "card (oleaves (Some (Branch p cs cm bsz lc lb fp fl))) < usize_max" and i: "i < 64"
    and n: "counted (cs ! i) \<and> card (oleaves (cs ! i)) < usize_max \<longrightarrow> counted (Some n)"
    and cs': "\<forall>j<64. wf_opt ((pre @ p) @ [int j]) (cs[i := Some n] ! j)" "length (cs[i := Some n]) = 64"
    and wf': "\<And>lc' lb'. wf_opt pre (Some (Branch p (cs[i := Some n]) [] bsz lc' lb' fp fl))"
  shows "counted (Some (Branch p (cs[i := Some n]) [] bsz (children_leaf_count (cs[i := Some n])) lb' fp fl))"
proof -
  have len: "length cs = 64" using cs'(2) by simp
  have "card (oleaves (cs ! i)) \<le> card (oleaves (Some (Branch p cs cm bsz lc lb fp fl)))" using i len by (intro card_mono) auto
  moreover have "\<forall>j<64. counted (cs ! j)" using counted_branch [OF wf] cnt(1) by blast
  ultimately have "\<forall>j<64. counted (cs[i := Some n] ! j)"
    using n i len cnt(2) by (auto simp: nth_list_update)
  then show ?thesis unfolding counted_branch [OF wf'] oleaves_Branch
    using children_leaf_count [OF cs'] by simp
qed

theorem insert_recursive_correct:
  assumes "wf_opt pre c" "prefix pre (kpath key)" "compatible key c"
  shows "\<exists>n. insert_recursive h c key val ht sz (6 * length pre) = Inr n \<and> wf_opt pre (Some n) \<and>
    (counted c \<and> card (oleaves c) < usize_max \<longrightarrow> counted (Some n)) \<and>
    oleaves (Some n) = insert_spec (new_leaf h key val ht sz) (oleaves c)"
  using assms
proof (induction c arbitrary: pre rule: vnode_opt_induct)
  case None
  then show ?case by (simp add: insert_spec_def)
next
  case (Leaf e)
  show ?case
  proof (cases "leaf_key e = key")
    case True
    then show ?thesis using Leaf by (auto simp: insert_spec_def)
  next
    case False
    with Leaf have "kpath (leaf_key e) \<parallel> kpath key" by (simp add: compatible_def)
    with Leaf False insert_leaf_split [of pre e key h val ht sz] show ?thesis
      by (auto simp: insert_spec_def)
  qed
next
  case (Branch p cs cm bsz lc lb fp fl)
  let ?B = "Branch p cs cm bsz lc lb fp fl" and ?new = "new_leaf h key val ht sz"
  from Branch.prems have p: "list_all (\<lambda>x. 0 \<le> x \<and> x < 64) p" and len: "length cs = 64"
    and wf: "\<forall>i<64. wf_opt (pre @ p @ [int i]) (cs ! i)" and cc: "2 \<le> child_count cs" by auto
  from p Branch.prems(2) show ?case
  proof (cases rule: mismatch_cases)
    case (differs i)
    with Branch.prems show ?thesis by (intro insert_branch_split [OF refl])
  next
    case matches
    obtain a r where a: "kpath key = (pre @ p) @ a # r"
      using compatible_continues [OF Branch.prems(1,3) matches(2)] by blast
    define i where "i = nat a"
    have nib: "get_next_nibble key (6 * length (pre @ p)) = int i" "i < 64"
      using nibble_at [OF a] by (auto simp: i_def)
    have key: "prefix (pre @ p @ [int i]) (kpath key)" using a nibble_at [OF a] by (auto simp: prefix_def i_def)
    obtain n where n: "insert_recursive h (cs ! i) key val ht sz (6 * length (pre @ p @ [int i])) = Inr n"
      "wf_opt (pre @ p @ [int i]) (Some n)" "oleaves (Some n) = insert_spec ?new (oleaves (cs ! i))"
      "counted (cs ! i) \<and> card (oleaves (cs ! i)) < usize_max \<longrightarrow> counted (Some n)"
      using Branch.IH [of i "pre @ p @ [int i]"] nib key wf len compatible_child [OF Branch.prems(3)] by auto
    define cs' where "cs' = cs[i := Some n]"
    have "6 * length pre + BRANCH_BITS * length p = 6 * length (pre @ p)"
      "6 * length (pre @ p) + BRANCH_BITS = 6 * length (pre @ p @ [int i])"
      by (simp_all add: BRANCH_BITS_def)
    then have "insert_recursive h (Some ?B) key val ht sz (6 * length pre) =
        Inr (Branch p cs' [] bsz (children_leaf_count cs') (children_longest_branch cs') fp fl)"
      using matches(1) nib len n(1)
      by (simp only: insert_recursive.simps Let_def option.case slot_def nat_int cs'_def) simp
    moreover have L: "oleaves (Some (Branch p cs' [] bsz lc' lb' fp fl)) = insert_spec ?new (oleaves (Some ?B))"
      for lc' lb' unfolding oleaves_Branch cs'_def using wf len nib(2) key n(3) by (intro insert_spec_slot) auto
    moreover have cs': "\<forall>j<64. wf_opt ((pre @ p) @ [int j]) (cs' ! j)" "length cs' = 64"
      using wf len n(2) nib(2) by (auto simp: cs'_def nth_list_update)
    moreover have wf_n: "wf_opt pre (Some (Branch p cs' [] bsz lc' lb' fp fl))" for lc' lb'
      using p cs' cc nib len by (auto simp: cs'_def child_count_update)
    moreover have "counted (Some (Branch p cs' [] bsz (children_leaf_count cs') lb' fp fl))"
      if "counted (Some ?B)" "card (oleaves (Some ?B)) < usize_max" for lb'
      using counted_update [OF Branch.prems(1) that nib(2) n(4)] cs' wf_n unfolding cs'_def by blast
    ultimately show ?thesis by metis
  qed
qed

section \<open>Deletion\<close>

definition delete_spec :: "bytes \<Rightarrow> leaf_node set \<Rightarrow> leaf_node set" where
  "delete_spec key L = {l \<in> L. leaf_key l \<noteq> key}"

lemma length_remaining_children: "length (remaining_children cs) = child_count cs"
proof -
  have "filter (\<lambda>c. c \<noteq> None) (map ((!) cs) [0..<length cs]) = map ((!) cs) (remaining_children cs)"
    by (simp add: remaining_children_def filter_map o_def)
  then show ?thesis by (simp add: child_count_def map_nth)
qed

lemma remaining_children_single:
  assumes "remaining_children cs = [i]"
  shows "i < length cs" "\<exists>n. cs ! i = Some n" "\<And>j. j < length cs \<Longrightarrow> j \<noteq> i \<Longrightarrow> cs ! j = None"
proof -
  have set: "j < length cs \<and> cs ! j \<noteq> None \<longleftrightarrow> j = i" for j
    using arg_cong [OF assms, of "\<lambda>xs. j \<in> set xs"] by (simp add: remaining_children_def)
  then show "i < length cs" "\<exists>n. cs ! i = Some n" by blast+
  show "cs ! j = None" if "j < length cs" "j \<noteq> i" for j using set that by blast
qed

lemma merge_wf:
  assumes "wf_opt (pre @ p @ [int i]) (Some n)" "list_all (\<lambda>x. 0 \<le> x \<and> x < 64) p" "i < 64"
  shows "wf_opt pre (Some (merge_branch_with_child p i n))"
  using assms by (cases n) (auto dest: append_prefixD)

lemma merge_leaves [simp]: "oleaves (Some (merge_branch_with_child p i n)) = oleaves (Some n)"
  by (cases n) auto

lemma delete_spec_slot:
  assumes wf: "\<forall>i<64. wf_opt (pre @ p @ [int i]) (cs ! i)" and len: "length cs = 64" and i: "i < 64"
    and key: "prefix (pre @ p @ [int i]) (kpath key)" and c: "oleaves c = delete_spec key (oleaves (cs ! i))"
  shows "(\<Union>j<length (cs[i := c]). oleaves (cs[i := c] ! j)) = delete_spec key (\<Union>j<length cs. oleaves (cs ! j))"
proof -
  have i': "i < length cs" using i len by simp
  show ?thesis
    unfolding oleaves_update [OF i'] slots_split [OF i'] c delete_spec_def
    using other_slots [OF wf len key] by blast
qed

text \<open>The last step of a deletion: what the branch becomes once a slot has changed.\<close>

definition collapse :: "int list \<Rightarrow> vnode option list \<Rightarrow> int \<Rightarrow> int list \<Rightarrow> bool \<Rightarrow> vnode option" where
  "collapse p cs sz fp fl =
    (case remaining_children cs of
       [] \<Rightarrow> None
     | [i] \<Rightarrow> map_option (merge_branch_with_child p i) (cs ! i)
     | _ \<Rightarrow> Some (Branch p cs [] sz (children_leaf_count cs) (children_longest_branch cs) fp fl))"

lemma collapse_correct:
  assumes "\<forall>i<64. wf_opt (pre @ p @ [int i]) (cs ! i)" "length cs = 64" "list_all (\<lambda>x. 0 \<le> x \<and> x < 64) p"
  shows "wf_opt pre (collapse p cs sz fp fl) \<and>
    ((\<forall>i<64. counted (cs ! i)) \<longrightarrow> counted (collapse p cs sz fp fl)) \<and>
    oleaves (collapse p cs sz fp fl) = (\<Union>i<length cs. oleaves (cs ! i))"
proof (cases "remaining_children cs" rule: list.exhaust)
  case Nil
  then have "child_count cs = 0" by (metis length_remaining_children list.size(3))
  then have "cs ! i = None" if "i < length cs" for i
    using that by (simp add: child_count_def filter_empty_conv)
  then show ?thesis using Nil by (auto simp: collapse_def)
next
  case (Cons i js)
  show ?thesis
  proof (cases js)
    case Nil
    note single = remaining_children_single [OF Cons [unfolded Nil]]
    then obtain n where n: "cs ! i = Some n" by auto
    have "(\<Union>j<length cs. oleaves (cs ! j)) = oleaves (cs ! i)" using single by (auto, metis empty_iff oleaves_simps(1))
    moreover have "wf_opt (pre @ p @ [int i]) (Some n)" "i < 64" using assms single n by auto
    moreover have "counted (Some n) \<longrightarrow> counted (Some (merge_branch_with_child p i n))" by (cases n) auto
    ultimately show ?thesis using n Cons Nil assms(3) merge_wf by (auto simp: collapse_def)
  next
    case (Cons j js')
    with \<open>remaining_children cs = i # js\<close> have "2 \<le> child_count cs"
      by (simp flip: length_remaining_children)
    with assms have wf: "wf_opt pre (Some (Branch p cs [] sz lc lb fp fl))" for lc lb by simp
    have "children_leaf_count cs = card (\<Union>i<length cs. oleaves (cs ! i))" if "\<forall>i<64. counted (cs ! i)"
      using children_leaf_count [of "pre @ p"] assms that by simp
    then have "(\<forall>i<64. counted (cs ! i)) \<longrightarrow> counted (Some (Branch p cs [] sz (children_leaf_count cs) lb fp fl))" for lb
      unfolding counted_branch [OF wf] oleaves_Branch by blast
    with wf Cons \<open>remaining_children cs = i # js\<close> show ?thesis by (simp add: collapse_def del: wf_opt_simps)
  qed
qed

theorem delete_recursive_correct:
  assumes "wf_opt pre c" "prefix pre (kpath key)"
  shows "case delete_recursive c key (6 * length pre) of (found, c') \<Rightarrow>
    (found \<longleftrightarrow> (\<exists>l \<in> oleaves c. leaf_key l = key)) \<and> (\<not> found \<longrightarrow> c' = c) \<and>
    wf_opt pre c' \<and> (counted c \<longrightarrow> counted c') \<and> oleaves c' = delete_spec key (oleaves c)"
  using assms
proof (induction c arbitrary: pre rule: vnode_opt_induct)
  case (Branch p cs cm sz lc lb fp fl)
  let ?B = "Branch p cs cm sz lc lb fp fl"
  from Branch.prems have p: "list_all (\<lambda>x. 0 \<le> x \<and> x < 64) p" and len: "length cs = 64"
    and wf: "\<forall>i<64. wf_opt (pre @ p @ [int i]) (cs ! i)" by auto
  have below: "\<exists>i<64. prefix (pre @ p @ [int i]) (kpath (leaf_key l))" if "l \<in> oleaves (Some ?B)" for l
    using that wf wf_leaves_prefix len by (metis UN_E lessThan_iff oleaves_Branch)
  have absent: ?case if "\<forall>l \<in> oleaves (Some ?B). leaf_key l \<noteq> key"
      "delete_recursive (Some ?B) key (6 * length pre) = (False, Some ?B)"
    using that Branch.prems(1) by (auto simp: delete_spec_def)
  from p Branch.prems(2) show ?case
  proof (cases rule: descend_cases)
    case off
    have "\<forall>l \<in> oleaves (Some ?B). leaf_key l \<noteq> key"
      using below off(2) by (metis append.assoc append_prefixD)
    with off(1) show ?thesis by (intro absent) simp_all
  next
    case short
    have "leaf_key l \<noteq> key" if "l \<in> oleaves (Some ?B)" for l
      using below [OF that] short(3) [symmetric] by (auto simp: prefix_def)
    with short(1,2) show ?thesis by (intro absent) (simp_all add: Let_def)
  next
    case (down i)
    obtain found c where del: "delete_recursive (cs ! i) key (6 * length (pre @ p @ [int i])) = (found, c)"
      by (cases "delete_recursive (cs ! i) key (6 * length (pre @ p @ [int i]))")
    with Branch.IH [of i "pre @ p @ [int i]"] down(3,4) wf len
    have c: "found \<longleftrightarrow> (\<exists>l \<in> oleaves (cs ! i). leaf_key l = key)" "\<not> found \<longrightarrow> c = cs ! i"
      "wf_opt (pre @ p @ [int i]) c" "oleaves c = delete_spec key (oleaves (cs ! i))"
      "counted (cs ! i) \<longrightarrow> counted c" by auto
    have "6 * length (pre @ p) + BRANCH_BITS = 6 * length (pre @ p @ [int i])"
      by (simp add: BRANCH_BITS_def)
    then have eq: "delete_recursive (Some ?B) key (6 * length pre) =
        (if \<not> found then (False, Some (Branch p (cs[i := c]) cm sz lc lb fp fl))
         else (True, collapse p (cs[i := c]) sz fp fl))"
      using down(1-3) len del
      by (simp only: delete_recursive.simps Let_def option.case slot_def collapse_def)
        (auto split: list.splits)
    have found: "found \<longleftrightarrow> (\<exists>l \<in> oleaves (Some ?B). leaf_key l = key)"
      using leaf_in_slot [OF wf len down(3)] down(4) c(1) unfolding oleaves_Branch by blast
    show ?thesis
    proof (cases found)
      case False
      with c have "c = cs ! i" by simp
      with False eq found show ?thesis by (intro absent) auto
    next
      case True
      have "\<forall>j<64. wf_opt (pre @ p @ [int j]) (cs[i := c] ! j)"
        using wf c(3) down(3) len by (simp add: nth_list_update)
      moreover have "counted (Some ?B) \<longrightarrow> (\<forall>j<64. counted (cs[i := c] ! j))"
        using counted_branch [OF Branch.prems(1)] c(5) down(3) len by (auto simp: nth_list_update)
      ultimately have "wf_opt pre (collapse p (cs[i := c]) sz fp fl) \<and>
          (counted (Some ?B) \<longrightarrow> counted (collapse p (cs[i := c]) sz fp fl)) \<and>
          oleaves (collapse p (cs[i := c]) sz fp fl) = delete_spec key (oleaves (Some ?B))"
        using collapse_correct [of pre p "cs[i := c]"] p len delete_spec_slot [OF wf len down(3,4) c(4)]
        unfolding oleaves_Branch by simp
      with True eq found show ?thesis by simp
    qed
  qed
qed (auto simp: delete_spec_def)

section \<open>The tree as a keyed store\<close>

definition tree_wf :: "tree \<Rightarrow> bool" where
  "tree_wf t = wf_opt [] (root t)"

definition leaf_entry :: "leaf_node \<Rightarrow> bytes \<times> bytes \<times> int" where
  "leaf_entry l = (leaf_value l, leaf_hash_target l, leaf_size l)"

text \<open>The contents of a tree: value, hash target and size of each key.\<close>

definition tree_entry :: "tree \<Rightarrow> bytes \<Rightarrow> (bytes \<times> bytes \<times> int) option" where
  "tree_entry t = map_of (map (\<lambda>l. (leaf_key l, leaf_entry l)) (leaf_list (root t)))"

lemma tree_entry_iff:
  assumes "tree_wf t"
  shows "tree_entry t key = Some e \<longleftrightarrow> (\<exists>l \<in> oleaves (root t). leaf_key l = key \<and> leaf_entry l = e)"
proof
  assume "tree_entry t key = Some e"
  from map_of_SomeD [OF this [unfolded tree_entry_def]]
  show "\<exists>l \<in> oleaves (root t). leaf_key l = key \<and> leaf_entry l = e" by auto
next
  assume "\<exists>l \<in> oleaves (root t). leaf_key l = key \<and> leaf_entry l = e"
  then obtain l where l: "l \<in> oleaves (root t)" "leaf_key l = key" "leaf_entry l = e" by auto
  then have "(key, e) \<in> set (map (\<lambda>l. (leaf_key l, leaf_entry l)) (leaf_list (root t)))"
    unfolding set_map set_leaf_list by blast
  from weak_map_of_SomeI [OF this] obtain e' where e': "tree_entry t key = Some e'"
    unfolding tree_entry_def by blast
  from map_of_SomeD [OF this [unfolded tree_entry_def]]
  obtain l' where l': "l' \<in> oleaves (root t)" "leaf_key l' = key" "leaf_entry l' = e'" by auto
  have "l = l'"
    using wf_leaves_unique [OF assms [unfolded tree_wf_def] l(1) l'(1)] l(2) l'(2) by simp
  with l l' e' show "tree_entry t key = Some e" by simp
qed

lemma entry_ext:
  assumes "tree_wf t" "\<And>key e. (\<exists>l \<in> oleaves (root t). leaf_key l = key \<and> leaf_entry l = e) \<longleftrightarrow> m key = Some e"
  shows "tree_entry t = m"
  using tree_entry_iff [OF assms(1)] assms(2) by (intro ext option_eqI) simp

lemma get_entry:
  assumes wf: "tree_wf t"
  shows "tree_get t key = map_option fst (tree_entry t key)"
proof (rule option_eqI)
  fix v
  have "tree_get t key = Some v \<longleftrightarrow> (\<exists>l \<in> oleaves (root t). leaf_key l = key \<and> leaf_value l = v)"
    using get_recursive_leaves [OF wf [unfolded tree_wf_def] Nil_prefix, of key v]
    by (simp only: tree_get_def list.size mult_0_right)
  also have "\<dots> \<longleftrightarrow> (\<exists>e. (\<exists>l \<in> oleaves (root t). leaf_key l = key \<and> leaf_entry l = e) \<and> fst e = v)"
    unfolding leaf_entry_def by auto
  also have "\<dots> \<longleftrightarrow> map_option fst (tree_entry t key) = Some v"
    unfolding tree_entry_iff [OF wf, symmetric] map_option_eq_Some by auto
  finally show "tree_get t key = Some v \<longleftrightarrow> map_option fst (tree_entry t key) = Some v" .
qed

lemma insert_tree:
  assumes wf: "tree_wf t" and comp: "compatible key (root t)"
  obtains t' where "tree_insert h t key val ht sz = (Inr (), t')" "tree_wf t'"
    "tree_entry t' = (tree_entry t)(key \<mapsto> (val, ht, sz))"
    "oleaves (root t') = insert_spec (new_leaf h key val ht sz) (oleaves (root t))"
    "counted (root t) \<and> card (oleaves (root t)) < usize_max \<longrightarrow> counted (root t')"
proof -
  from insert_recursive_correct [of "[]" "root t" key h val ht sz] wf comp
  obtain n where n: "insert_recursive h (root t) key val ht sz 0 = Inr n" "wf_opt [] (Some n)"
    "counted (root t) \<and> card (oleaves (root t)) < usize_max \<longrightarrow> counted (Some n)"
    "oleaves (Some n) = insert_spec (new_leaf h key val ht sz) (oleaves (root t))"
    by (auto simp: tree_wf_def)
  let ?t = "t\<lparr>root := Some n\<rparr>"
  have wf': "tree_wf ?t" using n(2) by (simp add: tree_wf_def)
  have "tree_entry ?t = (tree_entry t)(key \<mapsto> (val, ht, sz))"
  proof (rule entry_ext [OF wf'])
    fix k e
    show "(\<exists>l \<in> oleaves (root ?t). leaf_key l = k \<and> leaf_entry l = e) \<longleftrightarrow>
        ((tree_entry t)(key \<mapsto> (val, ht, sz))) k = Some e"
      using tree_entry_iff [OF wf, of k e] n(4) by (auto simp: insert_spec_def leaf_entry_def)
  qed
  with n wf' show thesis by (intro that [of ?t]) (simp_all add: tree_insert_def)
qed

lemma delete_tree:
  assumes wf: "tree_wf t" and key: "key \<noteq> []"
  obtains t' where "tree_delete t key = (if tree_entry t key = None then Inl NotFound else Inr (), t')" "tree_wf t'"
    "tree_entry t' = (tree_entry t)(key := None)" "tree_entry t key = None \<longrightarrow> t' = t"
    "oleaves (root t') = delete_spec key (oleaves (root t))" "counted (root t) \<longrightarrow> counted (root t')"
proof -
  obtain found c where del: "delete_recursive (root t) key 0 = (found, c)"
    by (cases "delete_recursive (root t) key 0")
  have D: "found \<longleftrightarrow> (\<exists>l \<in> oleaves (root t). leaf_key l = key)" "\<not> found \<longrightarrow> c = root t" "wf_opt [] c"
    "counted (root t) \<longrightarrow> counted c" "oleaves c = delete_spec key (oleaves (root t))"
    using delete_recursive_correct [OF wf [unfolded tree_wf_def], of key] del by simp_all
  let ?t = "t\<lparr>root := c\<rparr>"
  have wf': "tree_wf ?t" using D by (simp add: tree_wf_def)
  have L: "oleaves (root ?t) = delete_spec key (oleaves (root t))" using D by simp
  have found: "found \<longleftrightarrow> tree_entry t key \<noteq> None"
    using tree_entry_iff [OF wf, of key] D unfolding not_None_eq by metis
  have E: "tree_entry ?t = (tree_entry t)(key := None)"
  proof (rule entry_ext [OF wf'])
    fix k e
    show "(\<exists>l \<in> oleaves (root ?t). leaf_key l = k \<and> leaf_entry l = e) \<longleftrightarrow>
        ((tree_entry t)(key := None)) k = Some e"
      unfolding L delete_spec_def using tree_entry_iff [OF wf, of k e] by auto
  qed
  show thesis
  proof (rule that [of ?t])
    show "tree_delete t key = (if tree_entry t key = None then Inl NotFound else Inr (), ?t)"
      using key del found by (simp add: tree_delete_def)
    show "tree_entry t key = None \<longrightarrow> ?t = t" using D found by (cases t) auto
  qed (use wf' L E D in simp_all)
qed

lemma same_length_parallel:
  assumes "length k1 = length k2" "k1 \<noteq> k2"
  shows "kpath k1 \<parallel> kpath k2"
proof -
  have len: "length (kpath k1) = length (kpath k2)" using assms(1) by (simp add: path_len_def)
  have "kpath k1 \<noteq> kpath k2" using assms(2) get_full_path_inj by blast
  then show ?thesis using len by (metis append_eq_append_conv append_Nil2 parallelI prefixE)
qed

text \<open>Keys of one length \<open>n\<close> are accepted in any order: the callers' use of the tree.\<close>

definition keys_of_length :: "nat \<Rightarrow> bytes set" where
  "keys_of_length n = {k. length k = n \<and> k \<noteq> []}"

definition tree_ok :: "nat \<Rightarrow> tree \<Rightarrow> bool" where
  "tree_ok n t \<longleftrightarrow> tree_wf t \<and> (\<forall>l \<in> oleaves (root t). length (leaf_key l) = n)"

definition tree_put :: "(bytes \<Rightarrow> bytes) \<Rightarrow> bytes \<Rightarrow> bytes \<times> bytes \<times> int \<Rightarrow> tree \<Rightarrow> tree" where
  "tree_put h key e t = (case e of (val, ht, sz) \<Rightarrow> snd (tree_insert h t key val ht sz))"

definition tree_remove :: "bytes \<Rightarrow> tree \<Rightarrow> tree" where
  "tree_remove key t = snd (tree_delete t key)"

lemma tree_ok_compatible: "tree_ok n t \<Longrightarrow> length key = n \<Longrightarrow> compatible key (root t)"
  using same_length_parallel by (auto simp: tree_ok_def compatible_def)

lemma tree_put_ok:
  assumes "tree_ok n t" "key \<in> keys_of_length n"
  shows "tree_ok n (tree_put h key e t) \<and> tree_entry (tree_put h key e t) = (tree_entry t)(key \<mapsto> e)"
proof -
  obtain val ht sz where e: "e = (val, ht, sz)" by (cases e)
  have "compatible key (root t)" using assms by (auto simp: keys_of_length_def tree_ok_compatible)
  with assms(1) obtain t' where "tree_insert h t key val ht sz = (Inr (), t')" "tree_wf t'"
    "tree_entry t' = (tree_entry t)(key \<mapsto> (val, ht, sz))"
    "oleaves (root t') = insert_spec (new_leaf h key val ht sz) (oleaves (root t))"
    unfolding tree_ok_def by (metis insert_tree)
  with assms show ?thesis
    by (auto simp: e tree_put_def tree_ok_def insert_spec_def keys_of_length_def)
qed

lemma tree_remove_ok:
  assumes "tree_ok n t" "key \<in> keys_of_length n"
  shows "tree_ok n (tree_remove key t) \<and> tree_entry (tree_remove key t) = (tree_entry t)(key := None)"
proof -
  have "tree_wf t" "key \<noteq> []" using assms by (auto simp: tree_ok_def keys_of_length_def)
  then obtain t' r where "tree_delete t key = (r, t')" "tree_wf t'"
    "tree_entry t' = (tree_entry t)(key := None)" "oleaves (root t') = delete_spec key (oleaves (root t))"
    by (metis delete_tree)
  with assms show ?thesis by (auto simp: tree_remove_def tree_ok_def delete_spec_def)
qed

interpretation vt: kv_store tree_new tree_entry "tree_put h" tree_remove "keys_of_length n" "tree_ok n" for h n
proof unfold_locales
  show "tree_ok n tree_new" by (simp add: tree_new_def tree_ok_def tree_wf_def)
  show "tree_entry tree_new k = None" for k by (simp add: tree_new_def tree_entry_def)
qed (simp_all add: tree_put_ok tree_remove_ok)

section \<open>Keys that conflict\<close>

lemma leaves_entry: "map_of (tree_leaves t) key = map_option fst (tree_entry t key)"
proof -
  have "tree_leaves t = map (\<lambda>(k, e). (k, fst e)) (map (\<lambda>l. (leaf_key l, leaf_entry l)) (leaf_list (root t)))"
    by (simp add: tree_leaves_def leaf_list_def leaf_entry_def split: option.splits)
  then show ?thesis by (simp only: map_of_map tree_entry_def o_apply)
qed

lemma strict_prefix_cases:
  assumes "strict_prefix (kpath k1) (kpath k2)"
  obtains a r where "kpath k2 = kpath k1 @ a # r"
  using assms by (metis strict_prefixE')

text \<open>Inserting a key whose path stops inside the only stored path.\<close>

lemma insert_lost:
  assumes "strict_prefix (kpath key) (kpath (leaf_key e))"
  shows "\<exists>cs. insert_recursive h (Some (Leaf e)) key val ht sz 0 = Inr (Branch (kpath key) cs [] 0 2 0 [] True)"
proof -
  obtain a r where k2: "kpath (leaf_key e) = kpath key @ a # r" using assms by (rule strict_prefix_cases)
  have "leaf_key e \<noteq> key" using k2 by auto
  moreover have "longest_common_prefix (kpath (leaf_key e)) (kpath key) = kpath key"
    unfolding k2 by (metis longest_common_prefix_max_prefix longest_common_prefix_prefix2 prefixI prefix_order.order_antisym prefix_order.order_refl)
  then have "fst (get_nibbles_until_diverge (leaf_key e) key 0) = kpath key"
    using get_nibbles_until_diverge_lcp [of "leaf_key e" key 0] by (simp add: Let_def)
  ultimately show ?thesis
    by (cases "get_nibbles_until_diverge (leaf_key e) key 0") (simp add: Let_def)
qed

lemma get_at_end: "get_recursive (Some (Branch (kpath key) cs cm sz lc lb fp fl)) key 0 = None"
proof -
  have "list_all (\<lambda>x. 0 \<le> x \<and> x < 64) (kpath key)" by (auto simp: list_all_iff path_range)
  then have "skip_prefix key 0 (kpath key) = Some (6 * path_len key)"
    using skip_prefix_at [of "kpath key" "[]" key] by simp
  then show ?thesis by (simp add: Let_def get_next_nibble_nth)
qed

lemma insert_short:
  "insert_recursive h (Some (Branch (kpath key) cs cm bsz lc lb fp fl)) key val ht sz 0 = Inl InvalidArgument"
proof -
  have p: "list_all (\<lambda>x. 0 \<le> x \<and> x < 64) (kpath key)" by (auto simp: list_all_iff path_range)
  have m: "prefix_mismatch key 0 0 (kpath key) = None"
    using p Nil_prefix
  proof (cases rule: mismatch_cases [where pre = "[]" and key = key])
    case (differs i)
    have "get_next_nibble key (6 * i) = kpath key ! i" using differs(2) by (simp add: get_next_nibble_nth)
    with differs show ?thesis by simp
  qed simp
  have "get_next_nibble key (6 * path_len key) = - 1" by (simp add: get_next_nibble_nth)
  then show ?thesis using m by (simp add: Let_def BRANCH_BITS_def)
qed

section \<open>An example tree\<close>

definition example_tree :: tree where
  "example_tree = tree_put (\<lambda>_. []) [128] ([8], [], 1) (tree_put (\<lambda>_. []) [1] ([7], [], 1) tree_new)"

lemma example_tree_ok: "tree_ok 1 example_tree"
  unfolding example_tree_def by (intro vt.invar_update vt.invar_empty) (simp_all add: keys_of_length_def)

lemma example_tree_wf: "tree_wf example_tree"
  using example_tree_ok by (simp add: tree_ok_def)

lemma example_compatible: "length key = 1 \<Longrightarrow> compatible key (root example_tree)"
  using example_tree_ok by (intro tree_ok_compatible)

lemma tree_put_counted:
  assumes "tree_ok n t" "key \<in> keys_of_length n" "counted (root t)" "card (oleaves (root t)) < usize_max"
  shows "counted (root (tree_put h key e t)) \<and> card (oleaves (root (tree_put h key e t))) \<le> Suc (card (oleaves (root t)))"
proof -
  obtain val ht sz where e: "e = (val, ht, sz)" by (cases e)
  have "tree_wf t" using assms(1) by (simp add: tree_ok_def)
  moreover have "compatible key (root t)"
    using tree_ok_compatible [OF assms(1)] assms(2) by (simp add: keys_of_length_def)
  ultimately show ?thesis
  proof (rule insert_tree [where h = h and val = val and ht = ht and sz = sz])
    fix t'
    assume t': "tree_insert h t key val ht sz = (Inr (), t')"
      "oleaves (root t') = insert_spec (new_leaf h key val ht sz) (oleaves (root t))"
      "counted (root t) \<and> card (oleaves (root t)) < usize_max \<longrightarrow> counted (root t')"
    have "card (oleaves (root t')) \<le> card (insert (new_leaf h key val ht sz) (oleaves (root t)))"
      unfolding t'(2) insert_spec_def by (intro card_mono) auto
    also have "\<dots> \<le> Suc (card (oleaves (root t)))" by (simp add: card_insert_if)
    finally show ?thesis using t' assms(3,4) by (simp add: e tree_put_def)
  qed
qed

lemma example_tree_counted: "counted (root example_tree)"
proof -
  define t1 where "t1 = tree_put (\<lambda>_. []) [1] ([7], [], 1) tree_new"
  have 1: "counted (root t1) \<and> card (oleaves (root t1)) \<le> 1"
    using tree_put_counted [OF vt.invar_empty, of "[1]" 1 "\<lambda>_. []" "([7], [], 1)"]
    by (simp add: t1_def tree_new_def keys_of_length_def usize_max_def)
  have "tree_ok 1 t1" unfolding t1_def by (intro vt.invar_update vt.invar_empty) (simp add: keys_of_length_def)
  then show ?thesis
    using tree_put_counted [of 1 t1 "[128]"] 1 by (simp add: example_tree_def t1_def [symmetric] keys_of_length_def usize_max_def)
qed

section \<open>Properties\<close>

text \<open>
  C4. On a well-formed tree, \<open>get\<close> returns exactly the value that the enumeration of the tree's
  leaves (\<open>leaves\<close>) holds for the key, and nothing for a key it does not hold.
\<close>

theorem tree_get_correct:
  "tree_wf t \<Longrightarrow> tree_get t key = map_of (tree_leaves t) key"
  by (simp add: get_entry leaves_entry)

theorem tree_get_correct_witness:
  "tree_wf example_tree \<and> tree_get example_tree [128] = map_of (tree_leaves example_tree) [128]"
  using tree_get_correct [OF example_tree_wf] example_tree_wf by simp

text \<open>
  C2. Inserting a key whose nibble path neither extends nor is extended by another stored
  path succeeds, keeps the tree well-formed, and changes the contents (value, hash target,
  size) at that key only.
\<close>

theorem tree_insert_correct:
  assumes "tree_wf t" "compatible key (root t)"
  shows "\<exists>t'. tree_insert h t key val ht sz = (Inr (), t') \<and> tree_wf t' \<and>
    tree_entry t' = (tree_entry t)(key \<mapsto> (val, ht, sz))"
  using insert_tree [OF assms] by metis

theorem tree_insert_correct_witness:
  "tree_wf example_tree \<and> compatible [5] (root example_tree) \<and>
    (\<exists>t'. tree_insert (\<lambda>_. []) example_tree [5] [9] [] 1 = (Inr (), t') \<and> tree_wf t' \<and>
      tree_entry t' = (tree_entry example_tree)([5] \<mapsto> ([9], [], 1)))"
  using tree_insert_correct [OF example_tree_wf example_compatible] example_tree_wf example_compatible by simp

text \<open>
  C3. Deleting a non-empty key succeeds exactly when the key is stored and then removes only
  that key; otherwise it answers \<open>NotFound\<close> and leaves the tree as it was. The result is
  well-formed: single-child branches are collapsed.
\<close>

theorem tree_delete_correct:
  assumes "tree_wf t" "key \<noteq> []"
  shows "\<exists>t'. tree_delete t key = (if key \<in> dom (tree_entry t) then Inr () else Inl NotFound, t') \<and>
    tree_wf t' \<and> tree_entry t' = (tree_entry t)(key := None) \<and> (key \<notin> dom (tree_entry t) \<longrightarrow> t' = t)"
proof -
  obtain t' where "tree_delete t key = (if tree_entry t key = None then Inl NotFound else Inr (), t')" "tree_wf t'"
    "tree_entry t' = (tree_entry t)(key := None)" "tree_entry t key = None \<longrightarrow> t' = t"
    using assms by (rule delete_tree)
  then show ?thesis unfolding domIff by (intro exI [of _ t']) auto
qed

theorem tree_delete_correct_witness:
  "tree_wf example_tree \<and>
    (\<exists>t'. tree_delete example_tree [1] = (if [1] \<in> dom (tree_entry example_tree) then Inr () else Inl NotFound, t') \<and>
      tree_wf t' \<and> tree_entry t' = (tree_entry example_tree)([1] := None) \<and>
      ([1] \<notin> dom (tree_entry example_tree) \<longrightarrow> t' = example_tree))"
  using tree_delete_correct [OF example_tree_wf, of "[1]"] example_tree_wf by simp

text \<open>
  C1. After any sequence of inserts and deletes of keys of one length, starting from the empty
  tree, \<open>get\<close> answers as the finite map that the same sequence builds.
\<close>

theorem tree_history:
  assumes "op_key ` set ops \<subseteq> keys_of_length n"
  shows "tree_get (run_ops (tree_put h) tree_remove ops tree_new) key = map_option fst (map_ops ops Map.empty key)"
  using vt.run_invar [OF assms, of h] vt.run_contents [OF assms, of h]
  by (simp add: get_entry tree_ok_def)

theorem tree_history_witness:
  "tree_get (run_ops (tree_put (\<lambda>_. [])) tree_remove
      [Put [1] ([7], [], 1), Put [2] ([8], [], 1), Del [1], Put [2] ([9], [], 1)] tree_new) [2] = Some [9]"
  using tree_history [of "[Put [1] ([7], [], 1), Put [2] ([8], [], 1), Del [1], Put [2] ([9], [], 1)]" 1 "\<lambda>_. []" "[2]"]
  by (simp add: keys_of_length_def)

text \<open>
  Below the saturation bound of the counter, inserting and deleting keep the counter of
  every branch equal to the number of leaves below that branch.
\<close>

theorem tree_leaf_count:
  assumes "tree_wf t" "counted (root t)" "length (tree_leaves t) < usize_max" "compatible key (root t)" "key \<noteq> []"
  shows "counted (root (snd (tree_insert h t key val ht sz))) \<and> counted (root (snd (tree_delete t key)))"
proof
  have "card (oleaves (root t)) = length (tree_leaves t)"
    using card_leaves [of "[]" "root t"] assms(1)
    by (simp add: tree_wf_def tree_leaves_def leaf_list_def split: option.splits)
  with assms show "counted (root (snd (tree_insert h t key val ht sz)))"
    by (metis insert_tree snd_conv)
  show "counted (root (snd (tree_delete t key)))"
    using assms by (metis delete_tree snd_conv)
qed

theorem tree_leaf_count_witness:
  "counted (root (snd (tree_insert (\<lambda>_. []) example_tree [5] [9] [] 1))) \<and> counted (root (snd (tree_delete example_tree [5])))"
proof (rule tree_leaf_count [OF example_tree_wf])
  have "length (tree_leaves example_tree) = 2" by code_simp
  then show "length (tree_leaves example_tree) < usize_max" by (simp add: usize_max_def)
qed (simp_all add: example_compatible example_tree_counted)

text \<open>
  C5. The cases the insertion property excludes. In a tree with one leaf, inserting a key whose
  nibble path is a proper prefix of the stored path reports success but does not store the key. In
  a tree whose root branch has exactly the nibble path of the key as its prefix, the insertion is
  refused with \<open>InvalidArgument\<close> and leaves an empty tree: every stored leaf is gone.
\<close>

theorem tree_insert_prefix_key:
  "(root t = Some (Leaf e) \<and> strict_prefix (kpath key) (kpath (leaf_key e)) \<longrightarrow>
     (\<exists>t'. tree_insert h t key val ht sz = (Inr (), t') \<and> tree_get t' key = None)) \<and>
   (root t = Some (Branch (kpath key) cs cm bsz lc lb fp fl) \<longrightarrow>
     tree_insert h t key val ht sz = (Inl InvalidArgument, \<lparr>root = None\<rparr>))"
proof -
  have "\<exists>t'. tree_insert h t key val ht sz = (Inr (), t') \<and> tree_get t' key = None"
    if leaf: "root t = Some (Leaf e)" and short: "strict_prefix (kpath key) (kpath (leaf_key e))"
  proof -
    obtain cs where "insert_recursive h (root t) key val ht sz 0 = Inr (Branch (kpath key) cs [] 0 2 0 [] True)"
      using insert_lost [OF short, of h val ht sz] leaf by metis
    then show ?thesis
      using get_at_end [of key cs "[]" 0 2 0 "[]" True] by (simp add: tree_insert_def tree_get_def del: get_recursive.simps)
  qed
  then show ?thesis
    using insert_short [of h key cs cm bsz lc lb fp fl val ht sz] by (auto simp: tree_insert_def simp del: insert_recursive.simps)
qed

theorem tree_insert_prefix_key_witness:
  "(\<exists>t'. tree_insert (\<lambda>_. []) \<lparr>root = Some (Leaf (new_leaf (\<lambda>_. []) [1] [7] [] 1))\<rparr> [] [9] [] 1 = (Inr (), t') \<and>
     tree_get t' [] = None) \<and>
   tree_insert (\<lambda>_. []) example_tree [] [9] [] 1 = (Inl InvalidArgument, \<lparr>root = None\<rparr>) \<and>
   tree_get example_tree [1] = Some [7]"
proof -
  have "strict_prefix (kpath []) (kpath [1])" by code_simp
  then have "strict_prefix (kpath []) (kpath (leaf_key (new_leaf (\<lambda>_. []) [1] [7] [] 1)))" by (simp only: new_leaf_sel)
  moreover have "case root example_tree of Some (Branch p cs _ _ _ _ _ _) \<Rightarrow> p = kpath [] | _ \<Rightarrow> False" by code_simp
  then obtain cs cm bsz lc lb fp fl where "root example_tree = Some (Branch (kpath []) cs cm bsz lc lb fp fl)"
    by (auto split: option.splits vnode.splits)
  moreover have "tree_get example_tree [1] = Some [7]" by code_simp
  ultimately show ?thesis
    using tree_insert_prefix_key [of "\<lparr>root = Some (Leaf (new_leaf (\<lambda>_. []) [1] [7] [] 1))\<rparr>" "new_leaf (\<lambda>_. []) [1] [7] [] 1" "[]"]
      tree_insert_prefix_key [of example_tree _ "[]"]
    by (metis tree.select_convs(1))
qed

end
