(* ===== verification/TreeCommit.thy ===== *)
theory TreeCommit
  imports VTreeInv
begin

text \<open>
  Commitments of the vector commitment tree: \<^verbatim>\<open>BranchNode::get_polynomial\<close>,
  \<^verbatim>\<open>BranchNode::commit\<close> and \<^verbatim>\<open>LeafNode::commit\<close> of \<^verbatim>\<open>quil-tries/src/node.rs\<close>,
  \<^verbatim>\<open>commit_node\<close> and \<^verbatim>\<open>VectorCommitmentTree::commit\<close> of \<^verbatim>\<open>tree.rs\<close>. SHA-512 is the
  parameter \<open>h\<close>; the inclusion prover is a record of functions, a parameter as well. The main
  result is that the root commitment depends only on the contents of the tree.
\<close>

section \<open>The inclusion prover\<close>

record multiproof =
  mp_commitment :: bytes
  mp_proof :: bytes
  mp_evaluations :: "bytes list"

text \<open>The operations of the trait that the tree calls; the scheduling hints have no effect on results.\<close>

record prover =
  commit_raw :: "bytes \<Rightarrow> nat \<Rightarrow> bytes result"
  prove_multi :: "bytes list \<Rightarrow> bytes list \<Rightarrow> u64 list \<Rightarrow> nat \<Rightarrow> multiproof result"
  verify_multi :: "bytes list \<Rightarrow> bytes list \<Rightarrow> u64 list \<Rightarrow> nat \<Rightarrow> bytes \<Rightarrow> bytes \<Rightarrow> bool"

section \<open>Committing\<close>

fun node_commitment :: "vnode \<Rightarrow> bytes" where
  "node_commitment (Leaf l) = leaf_commitment l"
| "node_commitment (Branch p cs cm sz lc lb fp fl) = cm"

fun node_size :: "vnode \<Rightarrow> int" where
  "node_size (Leaf l) = leaf_size l"
| "node_size (Branch p cs cm sz lc lb fp fl) = sz"

definition resize :: "nat \<Rightarrow> bytes \<Rightarrow> bytes" where
  "resize n bs = take n bs @ replicate (n - length bs) 0"

definition prefix_bytes :: "int list \<Rightarrow> bytes" where
  "prefix_bytes p = concat (map (\<lambda>x. u32_to_be_bytes (word_of_int x)) p)"

text \<open>The 64 bytes a child contributes to the vector its parent commits to.\<close>

fun child_bytes :: "(bytes \<Rightarrow> bytes) \<Rightarrow> vnode option \<Rightarrow> bytes" where
  "child_bytes h None = replicate 64 0"
| "child_bytes h (Some (Leaf l)) = resize 64 (leaf_commitment l)"
| "child_bytes h (Some (Branch p cs cm sz lc lb fp fl)) = resize 64 (h ([1] @ prefix_bytes p @ cm))"

definition get_polynomial :: "(bytes \<Rightarrow> bytes) \<Rightarrow> vnode option list \<Rightarrow> bytes" where
  "get_polynomial h cs = concat (map (child_bytes h) cs)"

definition leaf_commit :: "(bytes \<Rightarrow> bytes) \<Rightarrow> bool \<Rightarrow> leaf_node \<Rightarrow> leaf_node" where
  "leaf_commit h recalculate l =
    (if recalculate \<or> leaf_commitment l = [] then compute_commitment h l else l)"

definition branch_commit :: "(bytes \<Rightarrow> bytes) \<Rightarrow> prover \<Rightarrow> bool \<Rightarrow> vnode option list \<Rightarrow> bytes \<Rightarrow> bytes" where
  "branch_commit h P recalculate cs cm =
    (if \<not> recalculate \<and> cm \<noteq> [] then cm
     else case commit_raw P (get_polynomial h cs) 64 of Inl _ \<Rightarrow> replicate 64 0 | Inr c \<Rightarrow> c)"

text \<open>
  Children are committed before their parent. The code may commit them in parallel; they are
  disjoint, so the order has no effect.
\<close>

fun commit_node :: "(bytes \<Rightarrow> bytes) \<Rightarrow> prover \<Rightarrow> bool \<Rightarrow> vnode \<Rightarrow> vnode" where
  "commit_node h P r (Leaf l) = Leaf (leaf_commit h r l)"
| "commit_node h P r (Branch p cs cm sz lc lb fp fl) =
    (let cs' = map (\<lambda>c. case c of None \<Rightarrow> None | Some n \<Rightarrow> Some (commit_node h P r n)) cs in
     Branch p cs' (branch_commit h P r cs' cm)
       (sum_list (map (\<lambda>c. case c of None \<Rightarrow> 0 | Some n \<Rightarrow> node_size n) cs')) lc lb fp fl)"

definition tree_commit :: "(bytes \<Rightarrow> bytes) \<Rightarrow> prover \<Rightarrow> tree \<Rightarrow> bytes \<times> tree" where
  "tree_commit h P t =
    (case root t of
       None \<Rightarrow> (replicate 64 0, t)
     | Some n \<Rightarrow> let n' = commit_node h P True n in (node_commitment n', t\<lparr>root := Some n'\<rparr>))"

lemma length_resize [simp]: "length (resize n bs) = n"
  by (simp add: resize_def)

lemma resize_id: "length bs = n \<Longrightarrow> resize n bs = bs"
  by (simp add: resize_def)

section \<open>The shape of a tree\<close>

text \<open>What is left of a node when caches and counters are dropped.\<close>

fun shape :: "vnode \<Rightarrow> vnode" where
  "shape (Leaf l) = Leaf (l\<lparr>leaf_commitment := []\<rparr>)"
| "shape (Branch p cs cm sz lc lb fp fl) =
    Branch p (map (\<lambda>c. case c of None \<Rightarrow> None | Some n \<Rightarrow> Some (shape n)) cs) [] 0 0 0 [] True"

definition oshape :: "vnode option \<Rightarrow> vnode option" where
  "oshape = map_option shape"

definition ocommit :: "(bytes \<Rightarrow> bytes) \<Rightarrow> prover \<Rightarrow> vnode option \<Rightarrow> vnode option" where
  "ocommit h P = map_option (commit_node h P True)"

lemma oshape_simps [simp]:
  "oshape None = None" "oshape (Some n) = Some (shape n)" "oshape c = None \<longleftrightarrow> c = None"
  by (simp_all add: oshape_def)

lemma ocommit_simps [simp]: "ocommit h P None = None" "ocommit h P (Some n) = Some (commit_node h P True n)"
  by (simp_all add: ocommit_def)

lemma case_map_option: "(\<lambda>c. case c of None \<Rightarrow> None | Some n \<Rightarrow> Some (f n)) = map_option f"
  by (auto simp: fun_eq_iff split: option.splits)

lemma shape_Branch: "shape (Branch p cs cm sz lc lb fp fl) = Branch p (map oshape cs) [] 0 0 0 [] True"
  by (simp add: case_map_option oshape_def)

lemma commit_node_Branch:
  "commit_node h P True (Branch p cs cm sz lc lb fp fl) =
    (let cs' = map (ocommit h P) cs in
     Branch p cs' (branch_commit h P True cs' cm)
       (sum_list (map (\<lambda>c. case c of None \<Rightarrow> 0 | Some n \<Rightarrow> node_size n) cs')) lc lb fp fl)"
  by (simp add: case_map_option ocommit_def)

text \<open>Recommitting sees only the shape.\<close>

lemma commit_shape:
  "oshape c = oshape c' \<Longrightarrow> child_bytes h (ocommit h P c) = child_bytes h (ocommit h P c') \<and>
    map_option node_commitment (ocommit h P c) = map_option node_commitment (ocommit h P c') \<and>
    map_option node_size (ocommit h P c) = map_option node_size (ocommit h P c')"
proof (induction c arbitrary: c' rule: vnode_opt_induct)
  case None
  then show ?case by (cases c') auto
next
  case (Leaf l)
  then obtain l' where l': "c' = Some (Leaf l')" "l\<lparr>leaf_commitment := []\<rparr> = l'\<lparr>leaf_commitment := []\<rparr>"
    by (cases c'; cases "the c'") auto
  then have "leaf_key l = leaf_key l'" "leaf_value l = leaf_value l'" "leaf_hash_target l = leaf_hash_target l'"
    "leaf_size l = leaf_size l'"
    by (metis leaf_node.select_convs leaf_node.surjective leaf_node.update_convs(4))+
  then show ?case by (simp add: l'(1) leaf_commit_def compute_commitment_def)
next
  case (Branch p cs cm sz lc lb fp fl)
  obtain n' where n': "c' = Some n'" using Branch.prems by (cases c') auto
  then obtain cs' cm' sz' lc' lb' fp' fl' where b: "n' = Branch p cs' cm' sz' lc' lb' fp' fl'" "map oshape cs = map oshape cs'"
    using Branch.prems by (cases n') (auto simp: shape_Branch simp del: shape.simps(2))
  have len: "length cs = length cs'" using b(2) by (metis length_map)
  have IH: "child_bytes h (ocommit h P (cs ! i)) = child_bytes h (ocommit h P (cs' ! i)) \<and>
    map_option node_commitment (ocommit h P (cs ! i)) = map_option node_commitment (ocommit h P (cs' ! i)) \<and>
    map_option node_size (ocommit h P (cs ! i)) = map_option node_size (ocommit h P (cs' ! i))" if "i < length cs" for i
    using Branch.IH [OF that, of "cs' ! i"] b(2) len that by (metis nth_map)
  have poly: "get_polynomial h (map (ocommit h P) cs) = get_polynomial h (map (ocommit h P) cs')"
    unfolding get_polynomial_def map_map o_def using IH len
    by (intro arg_cong [of _ _ concat]) (simp add: list_eq_iff_nth_eq)
  have size: "map (\<lambda>c. case c of None \<Rightarrow> 0 | Some n \<Rightarrow> node_size n) (map (ocommit h P) cs) =
      map (\<lambda>c. case c of None \<Rightarrow> 0 | Some n \<Rightarrow> node_size n) (map (ocommit h P) cs')"
  proof (rule nth_equalityI)
    fix i
    assume "i < length (map (\<lambda>c. case c of None \<Rightarrow> 0 | Some n \<Rightarrow> node_size n) (map (ocommit h P) cs))"
    then have i: "i < length cs" by simp
    from IH [OF i] have "map_option node_size (ocommit h P (cs ! i)) = map_option node_size (ocommit h P (cs' ! i))" by blast
    then show "map (\<lambda>c. case c of None \<Rightarrow> 0 | Some n \<Rightarrow> node_size n) (map (ocommit h P) cs) ! i =
        map (\<lambda>c. case c of None \<Rightarrow> 0 | Some n \<Rightarrow> node_size n) (map (ocommit h P) cs') ! i"
      using i len by (cases "ocommit h P (cs ! i)"; cases "ocommit h P (cs' ! i)") auto
  qed (simp add: len)
  show ?case
    unfolding n' b(1) ocommit_simps commit_node_Branch Let_def size
    by (simp add: branch_commit_def poly)
qed

section \<open>The shape is determined by the contents\<close>

definition strip_leaf :: "leaf_node \<Rightarrow> leaf_node" where
  "strip_leaf l = l\<lparr>leaf_commitment := []\<rparr>"

lemma strip_leaf_sel [simp]: "leaf_key (strip_leaf l) = leaf_key l"
  by (simp add: strip_leaf_def)

lemma slot_leaves:
  assumes "wf_opt pre (Some (Branch p cs cm sz lc lb fp fl))" "i < 64"
  shows "oleaves (cs ! i) = {l \<in> oleaves (Some (Branch p cs cm sz lc lb fp fl)). prefix (pre @ p @ [int i]) (kpath (leaf_key l))}"
    (is "_ = ?R")
proof -
  have wf: "\<forall>i<64. wf_opt (pre @ p @ [int i]) (cs ! i)" and len: "length cs = 64" using assms(1) by simp_all
  show ?thesis
  proof (intro set_eqI iffI)
    fix l assume l: "l \<in> oleaves (cs ! i)"
    then have "prefix (pre @ p @ [int i]) (kpath (leaf_key l))" using wf assms(2) wf_leaves_prefix by blast
    with l assms(2) len show "l \<in> ?R" unfolding oleaves_Branch by auto
  next
    fix l assume "l \<in> ?R"
    then show "l \<in> oleaves (cs ! i)"
      using leaf_in_slot [OF wf len assms(2)] unfolding oleaves_Branch by blast
  qed
qed

text \<open>A branch has two leaves that part exactly at its prefix.\<close>

lemma branch_two_leaves:
  assumes "wf_opt pre (Some (Branch p cs cm sz lc lb fp fl))"
  obtains i j l l' where "i \<noteq> j" "l \<in> oleaves (Some (Branch p cs cm sz lc lb fp fl))"
    "l' \<in> oleaves (Some (Branch p cs cm sz lc lb fp fl))"
    "prefix ((pre @ p) @ [int i]) (kpath (leaf_key l))" "prefix ((pre @ p) @ [int j]) (kpath (leaf_key l'))"
proof -
  have wf: "\<forall>i<64. wf_opt (pre @ p @ [int i]) (cs ! i)" and len: "length cs = 64" and cc: "2 \<le> child_count cs"
    using assms by simp_all
  obtain i j r where r: "remaining_children cs = i # j # r"
    using cc length_remaining_children [of cs]
    by (metis (no_types) Suc_le_length_iff numeral_2_eq_2)
  have "distinct (remaining_children cs)" by (simp add: remaining_children_def)
  with r have ij: "i \<noteq> j" by simp
  have "i \<in> set (remaining_children cs)" "j \<in> set (remaining_children cs)" using r by simp_all
  then have i: "i < 64" "cs ! i \<noteq> None" and j: "j < 64" "cs ! j \<noteq> None"
    using len by (simp_all add: remaining_children_def)
  obtain l where l: "l \<in> oleaves (cs ! i)" using wf_leaves_nonempty [of _ "cs ! i"] wf i by blast
  obtain l' where l': "l' \<in> oleaves (cs ! j)" using wf_leaves_nonempty [of _ "cs ! j"] wf j by blast
  show thesis
    using that [OF ij] l l' unfolding slot_leaves [OF assms i(1)] slot_leaves [OF assms j(1)] by auto
qed

lemma branch_prefix_le:
  assumes "wf_opt pre (Some (Branch p cs cm sz lc lb fp fl))"
    and all: "\<forall>l \<in> oleaves (Some (Branch p cs cm sz lc lb fp fl)). prefix (pre @ p') (kpath (leaf_key l))"
  shows "prefix p' p"
proof -
  obtain i j l l' where ij: "i \<noteq> j" and l: "l \<in> oleaves (Some (Branch p cs cm sz lc lb fp fl))"
    "prefix ((pre @ p) @ [int i]) (kpath (leaf_key l))"
    and l': "l' \<in> oleaves (Some (Branch p cs cm sz lc lb fp fl))" "prefix ((pre @ p) @ [int j]) (kpath (leaf_key l'))"
    using branch_two_leaves [OF assms(1)] by metis
  have q: "prefix (pre @ p') (kpath (leaf_key l))" "prefix (pre @ p') (kpath (leaf_key l'))" using all l l' by blast+
  have "length p' \<le> length p"
  proof (rule ccontr)
    assume "\<not> length p' \<le> length p"
    then have at: "kpath (leaf_key k) ! length (pre @ p) = (pre @ p') ! length (pre @ p)"
      if "prefix (pre @ p') (kpath (leaf_key k))" for k
      using that by (auto simp: prefix_def nth_append)
    have "kpath (leaf_key l) ! length (pre @ p) = kpath (leaf_key l') ! length (pre @ p)"
      unfolding at [OF q(1)] at [OF q(2)] by (rule refl)
    with l(2) l'(2) ij show False unfolding prefix_snoc_iff by simp
  qed
  moreover have "prefix (pre @ p) (kpath (leaf_key l))" using l(2) unfolding prefix_snoc_iff by blast
  ultimately have "prefix (pre @ p') (pre @ p)" using q(1) by (metis prefix_length_prefix add_le_cancel_left length_append)
  then show ?thesis by simp
qed

lemma strip_image_slot:
  assumes "wf_opt pre (Some (Branch p cs cm sz lc lb fp fl))" "i < 64"
  shows "strip_leaf ` oleaves (cs ! i) =
    {l \<in> strip_leaf ` oleaves (Some (Branch p cs cm sz lc lb fp fl)). prefix (pre @ p @ [int i]) (kpath (leaf_key l))}"
  unfolding slot_leaves [OF assms] by auto

lemma strip_all_prefix:
  assumes "strip_leaf ` A = strip_leaf ` B" "\<forall>l \<in> B. prefix q (kpath (leaf_key l))"
  shows "\<forall>l \<in> A. prefix q (kpath (leaf_key l))"
proof
  fix l assume "l \<in> A"
  then have "strip_leaf l \<in> strip_leaf ` B" using assms(1) by blast
  then obtain b where b: "b \<in> B" "strip_leaf b = strip_leaf l" by auto
  from arg_cong [OF b(2), of leaf_key] have "leaf_key b = leaf_key l" by simp
  with b assms(2) show "prefix q (kpath (leaf_key l))" by metis
qed

lemma wf_branch_prefix:
  "wf_opt pre (Some (Branch p cs cm sz lc lb fp fl)) \<Longrightarrow>
    \<forall>l \<in> oleaves (Some (Branch p cs cm sz lc lb fp fl)). prefix (pre @ p) (kpath (leaf_key l))"
proof
  fix l
  assume wf: "wf_opt pre (Some (Branch p cs cm sz lc lb fp fl))" and "l \<in> oleaves (Some (Branch p cs cm sz lc lb fp fl))"
  then obtain i where "i < 64" "l \<in> oleaves (cs ! i)" by auto
  with slot_leaves [OF wf, of i] have "prefix (pre @ p @ [int i]) (kpath (leaf_key l))" by blast
  then show "prefix (pre @ p) (kpath (leaf_key l))" by (metis append.assoc append_prefixD)
qed

lemma shape_canonical:
  assumes "wf_opt pre c" "wf_opt pre c'" "strip_leaf ` oleaves c = strip_leaf ` oleaves c'"
  shows "oshape c = oshape c'"
  using assms
proof (induction c arbitrary: pre c' rule: vnode_opt_induct)
  case None
  then have "c' = None" using wf_leaves_nonempty [of pre c'] by fastforce
  then show ?case by simp
next
  case (Leaf l)
  then obtain n' where n': "c' = Some n'" by (cases c') auto
  show ?case
  proof (cases n')
    case (Leaf l')
    with n' \<open>strip_leaf ` oleaves (Some (vnode.Leaf l)) = strip_leaf ` oleaves c'\<close> show ?thesis
      by (simp add: strip_leaf_def)
  next
    case (Branch p cs cm sz lc lb fp fl)
    note B = n' [unfolded Branch]
    obtain i j l1 l2 where ij: "i \<noteq> j" "l1 \<in> oleaves c'" "l2 \<in> oleaves c'"
      "prefix ((pre @ p) @ [int i]) (kpath (leaf_key l1))" "prefix ((pre @ p) @ [int j]) (kpath (leaf_key l2))"
      using branch_two_leaves [OF Leaf.prems(2) [unfolded B], folded B] by metis
    have "strip_leaf l1 = strip_leaf l" "strip_leaf l2 = strip_leaf l"
      using ij(2,3) Leaf.prems(3) by auto
    then have "leaf_key l1 = leaf_key l2" by (metis strip_leaf_sel)
    with ij(1,4,5) show ?thesis unfolding prefix_snoc_iff by simp
  qed
next
  case (Branch p cs cm sz lc lb fp fl)
  let ?B = "Branch p cs cm sz lc lb fp fl"
  obtain i j l1 l2 where ij: "i \<noteq> j" "l1 \<in> oleaves (Some ?B)" "l2 \<in> oleaves (Some ?B)"
    "prefix ((pre @ p) @ [int i]) (kpath (leaf_key l1))" "prefix ((pre @ p) @ [int j]) (kpath (leaf_key l2))"
    using branch_two_leaves [OF Branch.prems(1)] by metis
  have "strip_leaf l1 \<noteq> strip_leaf l2"
    using ij(1,4,5) unfolding prefix_snoc_iff by (metis of_nat_eq_iff strip_leaf_sel)
  moreover have "strip_leaf l1 \<in> strip_leaf ` oleaves c'" "strip_leaf l2 \<in> strip_leaf ` oleaves c'"
    using ij(2,3) Branch.prems(3) by blast+
  ultimately obtain p' cs' cm' sz' lc' lb' fp' fl' where B': "c' = Some (Branch p' cs' cm' sz' lc' lb' fp' fl')"
    by (cases c'; cases "the c'") (auto simp del: oleaves_Branch)
  note wf = Branch.prems(1) and wf' = Branch.prems(2) [unfolded B'] and eq = Branch.prems(3) [unfolded B']
  have "prefix p' p" by (rule branch_prefix_le [OF wf strip_all_prefix [OF eq wf_branch_prefix [OF wf']]])
  moreover have "prefix p p'" by (rule branch_prefix_le [OF wf' strip_all_prefix [OF eq [symmetric] wf_branch_prefix [OF wf]]])
  ultimately have p: "p' = p" by (rule prefix_order.order_antisym)
  note wf' = wf' [unfolded p] and eq = eq [unfolded p]
  have len: "length cs = 64" "length cs' = 64" using wf wf' by simp_all
  have "oshape (cs ! i) = oshape (cs' ! i)" if "i < 64" for i
  proof (rule Branch.IH)
    show "strip_leaf ` oleaves (cs ! i) = strip_leaf ` oleaves (cs' ! i)"
      unfolding strip_image_slot [OF wf that] strip_image_slot [OF wf' that] eq by (rule refl)
  qed (use that wf wf' len in auto)
  then have "map oshape cs = map oshape cs'" using len by (simp add: list_eq_iff_nth_eq)
  then show ?case unfolding B' oshape_simps shape_Branch p by simp
qed

lemma strip_leaf_eq:
  "strip_leaf l = strip_leaf l' \<longleftrightarrow> leaf_key l = leaf_key l' \<and> leaf_entry l = leaf_entry l'"
  by (cases l; cases l') (auto simp: strip_leaf_def leaf_entry_def)

lemma strip_contents:
  assumes "tree_wf t" "tree_wf t'" "tree_entry t = tree_entry t'"
  shows "strip_leaf ` oleaves (root t) \<subseteq> strip_leaf ` oleaves (root t')"
proof
  fix s assume "s \<in> strip_leaf ` oleaves (root t)"
  then obtain l where l: "l \<in> oleaves (root t)" "s = strip_leaf l" by auto
  then have "tree_entry t' (leaf_key l) = Some (leaf_entry l)"
    using tree_entry_iff [OF assms(1)] assms(3) by metis
  then obtain l' where "l' \<in> oleaves (root t')" "leaf_key l' = leaf_key l" "leaf_entry l' = leaf_entry l"
    using tree_entry_iff [OF assms(2)] by metis
  with l show "s \<in> strip_leaf ` oleaves (root t')" by (metis image_eqI strip_leaf_eq)
qed

lemma shape_of_contents:
  assumes "tree_wf t" "tree_wf t'" "tree_entry t = tree_entry t'"
  shows "oshape (root t) = oshape (root t')"
  using shape_canonical [of "[]" "root t" "root t'"] strip_contents [OF assms]
    strip_contents [OF assms(2,1) assms(3) [symmetric]] assms(1,2) unfolding tree_wf_def by blast

lemma tree_commit_eq: "fst (tree_commit h P t) = (case ocommit h P (root t) of None \<Rightarrow> replicate 64 0 | Some n \<Rightarrow> node_commitment n)"
  by (cases "root t") (simp_all add: tree_commit_def Let_def)

lemma commit_of_shape:
  assumes "oshape (root t) = oshape (root t')"
  shows "fst (tree_commit h P t) = fst (tree_commit h P t')"
proof -
  have "map_option node_commitment (ocommit h P (root t)) = map_option node_commitment (ocommit h P (root t'))"
    using commit_shape [OF assms] by blast
  then show ?thesis unfolding tree_commit_eq by (cases "ocommit h P (root t)"; cases "ocommit h P (root t')") simp_all
qed

section \<open>Properties\<close>

text \<open>
  C7. The shape of a tree and its root commitment are determined by its contents: two
  well-formed trees with the same keys, values, hash targets and sizes have the same shape
  and commit to the same root, however they were built.
\<close>

theorem commitment_of_contents:
  assumes "tree_wf t" "tree_wf t'" "tree_entry t = tree_entry t'"
  shows "oshape (root t) = oshape (root t') \<and> fst (tree_commit h P t) = fst (tree_commit h P t')"
  using shape_of_contents [OF assms] commit_of_shape by blast

definition example_prover :: prover where
  "example_prover =
    \<lparr>commit_raw = \<lambda>d n. Inr (take 64 d), prove_multi = \<lambda>cs ps is n. Inr \<lparr>mp_commitment = [1], mp_proof = [1], mp_evaluations = []\<rparr>,
     verify_multi = \<lambda>cs ys is n c p. True\<rparr>"

theorem commitment_of_contents_witness:
  "fst (tree_commit id example_prover (tree_put id [1] ([7], [], 1) (tree_put id [128] ([8], [], 1) tree_new))) =
   fst (tree_commit id example_prover (tree_put id [128] ([8], [], 1) (tree_put id [1] ([7], [], 1) tree_new)))"
proof -
  let ?a = "tree_put id [1] ([7], [], 1) (tree_put id [128] ([8], [], 1) tree_new)"
  let ?b = "tree_put id [128] ([8], [], 1) (tree_put id [1] ([7], [], 1) tree_new)"
  have ok: "tree_ok 1 ?a" "tree_ok 1 ?b"
    by (intro vt.invar_update vt.invar_empty; simp add: keys_of_length_def)+
  then have "tree_wf ?a" "tree_wf ?b" by (simp_all add: tree_ok_def)
  moreover have "tree_entry ?a = tree_entry ?b"
    by (rule vt.put_commute [where n = 1]) (simp_all add: vt.invar_empty keys_of_length_def)
  ultimately show ?thesis using commitment_of_contents by blast
qed

text \<open>
  C6. The root commitment is independent of the history: two sequences of inserts and deletes
  of keys of one length that leave the same contents leave the same root commitment. In
  particular the order of insertion does not matter, and deleting a key gives the root of a
  tree built without it.
\<close>

theorem commitment_of_history:
  assumes "op_key ` set ops \<subseteq> keys_of_length n" "op_key ` set ops' \<subseteq> keys_of_length n"
    and "map_ops ops Map.empty = map_ops ops' Map.empty"
  shows "fst (tree_commit h P (run_ops (tree_put h) tree_remove ops tree_new)) =
    fst (tree_commit h P (run_ops (tree_put h) tree_remove ops' tree_new))"
  using vt.run_invar [OF assms(1), of h] vt.run_invar [OF assms(2), of h]
    vt.run_contents [OF assms(1), of h] vt.run_contents [OF assms(2), of h] assms(3)
  by (intro commit_of_shape shape_of_contents) (simp_all add: tree_ok_def)

theorem commitment_of_history_witness:
  "fst (tree_commit id example_prover (run_ops (tree_put id) tree_remove
      [Put [1] ([7], [], 1), Put [2] ([8], [], 1), Put [3] ([9], [], 1), Del [2]] tree_new)) =
   fst (tree_commit id example_prover (run_ops (tree_put id) tree_remove
      [Put [3] ([9], [], 1), Put [1] ([7], [], 1)] tree_new))"
  by (rule commitment_of_history [where n = 1]) (auto simp: keys_of_length_def fun_eq_iff)

end
