(* ===== verification/Codec.thy ===== *)
theory Codec
  imports Prelude
begin

text \<open>
  Cursor-based decoding. A reader takes the bytes from the cursor on and returns a value and
  the bytes after it; the error of a short read is an argument, since each decoder of the
  source reports its own. The locale \<open>codec\<close> is the contract of an encoder/decoder pair and
  carries the facts that every pair shares.
\<close>

type_synonym 'a reader = "bytes \<Rightarrow> ('a \<times> bytes) result"

definition read_bytes :: "quil_error \<Rightarrow> nat \<Rightarrow> bytes reader" where
  "read_bytes e n bs = (if length bs < n then Inl e else Inr (take n bs, drop n bs))"

definition read_u8 :: "quil_error \<Rightarrow> byte reader" where
  "read_u8 e bs = (case bs of [] \<Rightarrow> Inl e | b # bs' \<Rightarrow> Inr (b, bs'))"

definition read_u32 :: "quil_error \<Rightarrow> u32 reader" where
  "read_u32 e bs = rbind (read_bytes e 4 bs) (\<lambda>(b, bs). Inr (u32_from_be_bytes b, bs))"

definition read_u64 :: "quil_error \<Rightarrow> u64 reader" where
  "read_u64 e bs = rbind (read_bytes e 8 bs) (\<lambda>(b, bs). Inr (u64_from_be_bytes b, bs))"

text \<open>\<open>n\<close> values in a row.\<close>

fun read_many :: "nat \<Rightarrow> 'a reader \<Rightarrow> 'a list reader" where
  "read_many 0 r bs = Inr ([], bs)"
| "read_many (Suc n) r bs =
    rbind (r bs) (\<lambda>(x, bs). rbind (read_many n r bs) (\<lambda>(xs, bs). Inr (x # xs, bs)))"

lemma read_many_cong [fundef_cong]:
  "n = n' \<Longrightarrow> bs = bs' \<Longrightarrow> (\<And>b. r b = r' b) \<Longrightarrow> read_many n r bs = read_many n' r' bs'"
  by (metis ext)

lemma read_bytes_append [simp, codec]: "length xs = n \<Longrightarrow> read_bytes e n (xs @ bs) = Inr (xs, bs)"
  by (simp add: read_bytes_def)

lemma read_u8_Cons [simp, codec]: "read_u8 e (b # bs) = Inr (b, bs)"
  by (simp add: read_u8_def)

lemma read_u32_append [simp, codec]: "read_u32 e (u32_to_be_bytes w @ bs) = Inr (w, bs)"
  by (simp add: read_u32_def)

lemma read_u64_append [simp, codec]: "read_u64 e (u64_to_be_bytes w @ bs) = Inr (w, bs)"
  by (simp add: read_u64_def)

lemma unat_of_nat_u32 [simp]: "n < 2 ^ 32 \<Longrightarrow> unat (word_of_nat n :: u32) = n"
  by (simp add: unat_of_nat)

lemma unat_of_nat_u64 [simp]: "n < 2 ^ 64 \<Longrightarrow> unat (word_of_nat n :: u64) = n"
  by (simp add: unat_of_nat)

text \<open>A reader that succeeds returns a suffix of its input.\<close>

lemma read_bytes_Inr:
  "read_bytes e n bs = Inr (x, bs') \<longleftrightarrow> n \<le> length bs \<and> x = take n bs \<and> bs' = drop n bs"
  by (auto simp: read_bytes_def)

section \<open>The contract of an encoder and its decoder\<close>

locale codec =
  fixes enc :: "'a \<Rightarrow> bytes"
    and dec :: "'a reader"
    and ok :: "'a \<Rightarrow> bool"
  assumes dec_enc_append: "ok x \<Longrightarrow> dec (enc x @ bs) = Inr (x, bs)"
begin

lemma dec_enc: "ok x \<Longrightarrow> dec (enc x) = Inr (x, [])"
  using dec_enc_append [of x "[]"] by simp

lemma enc_inj: "ok x \<Longrightarrow> ok y \<Longrightarrow> enc x = enc y \<Longrightarrow> x = y"
  by (metis Inr_inject Pair_inject dec_enc)

lemma enc_prefix_free: "ok x \<Longrightarrow> ok y \<Longrightarrow> enc x @ bs = enc y @ bs' \<Longrightarrow> x = y \<and> bs = bs'"
  by (metis Inr_inject Pair_inject dec_enc_append)

lemma many_append:
  "list_all ok xs \<Longrightarrow> read_many (length xs) dec (concat (map enc xs) @ bs) = Inr (xs, bs)"
  by (induction xs) (simp_all add: dec_enc_append)

end

interpretation u32c: codec u32_to_be_bytes "read_u32 e" "\<lambda>_. True" for e
  by unfold_locales simp

interpretation u64c: codec u64_to_be_bytes "read_u64 e" "\<lambda>_. True" for e
  by unfold_locales simp

end
