(* ===== verification/Traversal.thy ===== *)
theory Traversal
  imports TreeCommit Codec
begin

text \<open>
  Traversal proofs: generation (\<^verbatim>\<open>prove\<close>, \<^verbatim>\<open>prove_multiple\<close>, \<^verbatim>\<open>to_bytes\<close> of
  \<^verbatim>\<open>quil-tries/src/tree.rs\<close>), parsing and verification
  (\<^verbatim>\<open>quil-execution/src/traversal_proof.rs\<close>). The multiproof scheme is the inclusion prover,
  a parameter.
\<close>

section \<open>Generation\<close>

function prove_recursive ::
  "(bytes \<Rightarrow> bytes) \<Rightarrow> vnode \<Rightarrow> bytes \<Rightarrow> nat \<Rightarrow> (bytes list \<times> bytes list \<times> bytes list \<times> int list list) option" where
  "prove_recursive h (Leaf l) key d =
    (if leaf_key l = key
     then Some ([], [leaf_commitment l],
       [if leaf_hash_target l \<noteq> [] then leaf_hash_target l else leaf_value l], [])
     else None)"
| "prove_recursive h (Branch p cs cm sz lc lb fp fl) key d =
    (case skip_prefix key d p of
       None \<Rightarrow> None
     | Some d' \<Rightarrow>
         let n = get_next_nibble key d' in
         if n < 0 then None
         else
           let i = nat n; poly = get_polynomial h cs;
               y = (if i * 64 + 64 \<le> length poly then take 64 (drop (i * 64) poly) else replicate 64 0)
           in case slot cs i of
                None \<Rightarrow> None
              | Some child \<Rightarrow>
                  (case prove_recursive h child key (d' + BRANCH_BITS) of
                     None \<Rightarrow> None
                   | Some (pl, co, ys, pa) \<Rightarrow> Some (poly # pl, cm # co, y # ys, (p @ [n]) # pa)))"
  by pat_completeness auto
termination
  by (relation "measure (\<lambda>(_, n, _, _). size n)")
    (auto simp: slot_def less_Suc_eq split: if_splits intro: size_slot)

record sub_proof =
  sp_commits :: "bytes list"
  sp_ys :: "bytes list"
  sp_paths :: "u64 list list"

record tree_proof = sub_proof +
  tp_multiproof :: multiproof

definition path_indices :: "int list list \<Rightarrow> u64 list list" where
  "path_indices paths = map (map word_of_int) paths"

definition last_indices :: "int list list \<Rightarrow> u64 list" where
  "last_indices paths = map (\<lambda>p. if p = [] then 0 else word_of_int (last p)) paths"

definition tree_prove :: "(bytes \<Rightarrow> bytes) \<Rightarrow> prover \<Rightarrow> tree \<Rightarrow> bytes \<Rightarrow> tree_proof option" where
  "tree_prove h P t key =
    (if key = [] then None
     else case root t of
       None \<Rightarrow> None
     | Some n \<Rightarrow>
         (case prove_recursive h n key 0 of
            None \<Rightarrow> None
          | Some (polys, commits, ys, paths) \<Rightarrow>
              if commits = [] then None
              else case prove_multi P (butlast commits) polys (last_indices paths) 64 of
                     Inl _ \<Rightarrow> None
                   | Inr mp \<Rightarrow> Some \<lparr>sp_commits = commits, sp_ys = ys, sp_paths = path_indices paths, tp_multiproof = mp\<rparr>))"

text \<open>The walks of several keys, with what each contributes to the aggregated multiproof.\<close>

record multi_key_proof =
  mk_multiproof :: multiproof
  mk_sub_proofs :: "sub_proof list"

definition key_walks :: "(bytes \<Rightarrow> bytes) \<Rightarrow> vnode \<Rightarrow> bytes list \<Rightarrow> (bytes list \<times> bytes list \<times> bytes list \<times> int list list) list" where
  "key_walks h n keys =
    concat (map (\<lambda>key. if key = [] then []
      else case prove_recursive h n key 0 of
             None \<Rightarrow> []
           | Some (polys, commits, ys, paths) \<Rightarrow> if commits = [] then [] else [(polys, commits, ys, paths)]) keys)"

definition tree_prove_multiple :: "(bytes \<Rightarrow> bytes) \<Rightarrow> prover \<Rightarrow> tree \<Rightarrow> bytes list \<Rightarrow> multi_key_proof option" where
  "tree_prove_multiple h P t keys =
    (case root t of
       None \<Rightarrow> None
     | Some n \<Rightarrow>
         let walks = key_walks h n keys;
             agg_commits = concat (map (\<lambda>(polys, commits, ys, paths). butlast commits) walks);
             agg_polys = concat (map (\<lambda>(polys, commits, ys, paths). polys) walks);
             agg_indices = concat (map (\<lambda>(polys, commits, ys, paths). last_indices paths) walks)
         in if agg_commits = [] then None
            else case prove_multi P agg_commits agg_polys agg_indices 64 of
                   Inl _ \<Rightarrow> None
                 | Inr mp \<Rightarrow> Some \<lparr>mk_multiproof = mp,
                     mk_sub_proofs = map (\<lambda>(polys, commits, ys, paths).
                       \<lparr>sp_commits = commits, sp_ys = ys, sp_paths = path_indices paths\<rparr>) walks\<rparr>)"

section \<open>Wire format\<close>

definition put_u32 :: "nat \<Rightarrow> bytes" where
  "put_u32 n = u32_to_be_bytes (word_of_nat n)"

definition put_bytes :: "bytes \<Rightarrow> bytes" where
  "put_bytes bs = put_u32 (length bs) @ bs"

definition serialize_multiproof :: "multiproof \<Rightarrow> bytes" where
  "serialize_multiproof mp =
    put_bytes (mp_commitment mp) @ put_bytes (mp_proof mp) @
    put_u32 (length (mp_evaluations mp)) @ concat (map put_bytes (mp_evaluations mp))"

definition put_path :: "u64 list \<Rightarrow> bytes" where
  "put_path p = put_u32 (length p) @ concat (map u64_to_be_bytes p)"

definition put_sub_proof :: "sub_proof \<Rightarrow> bytes" where
  "put_sub_proof sp =
    put_u32 (length (sp_commits sp)) @ concat (map put_bytes (sp_commits sp)) @
    put_u32 (length (sp_ys sp)) @ concat (map put_bytes (sp_ys sp)) @
    put_u32 (length (sp_paths sp)) @ concat (map put_path (sp_paths sp))"

definition to_bytes :: "multi_key_proof \<Rightarrow> bytes" where
  "to_bytes p =
    put_bytes (serialize_multiproof (mk_multiproof p)) @
    put_u32 (length (mk_sub_proofs p)) @ concat (map put_sub_proof (mk_sub_proofs p))"

record traversal_proof =
  multicommitment :: bytes
  tr_proof :: bytes
  sub_proofs :: "sub_proof list"

definition read_go_u32 :: "u32 reader" where
  "read_go_u32 = read_u32 InvalidArgument"

definition read_go_u64 :: "u64 reader" where
  "read_go_u64 = read_u64 InvalidArgument"

definition read_go_bytes :: "nat \<Rightarrow> bytes reader" where
  "read_go_bytes = read_bytes InvalidArgument"

definition read_field :: "bytes reader" where
  "read_field bs = rbind (read_go_u32 bs) (\<lambda>(l, bs). read_go_bytes (unat l) bs)"

definition read_path :: "u64 list reader" where
  "read_path bs = rbind (read_go_u32 bs) (\<lambda>(n, bs). read_many (unat n) read_go_u64 bs)"

definition read_counted :: "'a reader \<Rightarrow> 'a list reader" where
  "read_counted r bs = rbind (read_go_u32 bs) (\<lambda>(n, bs). read_many (unat n) r bs)"

definition read_sub_proof :: "sub_proof reader" where
  "read_sub_proof bs =
    rbind (read_counted read_field bs) (\<lambda>(commits, bs).
    rbind (read_counted read_field bs) (\<lambda>(ys, bs).
    rbind (read_counted read_path bs) (\<lambda>(paths, bs).
      Inr (\<lparr>sp_commits = commits, sp_ys = ys, sp_paths = paths\<rparr>, bs))))"

definition parse_traversal_proof :: "bytes \<Rightarrow> traversal_proof result" where
  "parse_traversal_proof data =
    rbind (read_field data) (\<lambda>(mp_bytes, bs).
    rbind (read_field mp_bytes) (\<lambda>(d, mbs).
    rbind (read_field mbs) (\<lambda>(proof, mbs).
    rbind (read_counted read_sub_proof bs) (\<lambda>(sps, bs).
      if sps = [] then Inl InvalidArgument
      else if \<not> (\<exists>sp \<in> set sps. sp_ys sp \<noteq> []) then Inl InvalidArgument
      else Inr \<lparr>multicommitment = d, tr_proof = proof, sub_proofs = sps\<rparr>))))"

section \<open>Verification\<close>

text \<open>
  The indexing of the chain check panics on an empty second path, and on lists that are
  shorter than the commits; the structural checks rule out the latter only.
\<close>

fun verify_path_chain :: "(bytes \<Rightarrow> bytes) \<Rightarrow> bytes list \<Rightarrow> u64 list list \<Rightarrow> bytes list \<Rightarrow> bool result" where
  "verify_path_chain h (c0 # c1 # cs) paths ys =
    rbind (if cs \<noteq> [] then
             (if 1 < length paths then
                (if paths ! 1 = [] then Inl Panic
                 else Inr (h ([1] @ concat (map (\<lambda>p. u32_to_be_bytes (ucast p)) (butlast (paths ! 1))) @ c1)))
              else Inr (h ([1] @ c1)))
           else Inr c1) (\<lambda>out.
      if ys = [] then Inl Panic
      else if out \<noteq> hd ys then Inr False
      else if paths = [] then Inl Panic
      else verify_path_chain h (c1 # cs) (tl paths) (tl ys))"
| "verify_path_chain h commits paths ys = Inr True"

fun check_lengths :: "sub_proof list \<Rightarrow> unit result" where
  "check_lengths [] = Inr ()"
| "check_lengths (sp # sps) =
    (if sp_commits sp = [] then Inl InvalidArgument
     else if length (sp_paths sp) \<noteq> length (sp_commits sp) - 1 then Inl InvalidArgument
     else if length (sp_ys sp) \<noteq> length (sp_commits sp) then Inl InvalidArgument
     else check_lengths sps)"

text \<open>
  The loop over the sub-proofs: \<open>None\<close> for a chain that does not match, otherwise the
  commitments, evaluations and indices to check with the multiproof.
\<close>

fun collect_openings :: "(bytes \<Rightarrow> bytes) \<Rightarrow> sub_proof list \<Rightarrow> (bytes list \<times> bytes list \<times> u64 list) option result" where
  "collect_openings h [] = Inr (Some ([], [], []))"
| "collect_openings h (sp # sps) =
    (if length (sp_commits sp) \<le> 1 then collect_openings h sps
     else
       rbind (verify_path_chain h (sp_commits sp) (sp_paths sp) (sp_ys sp)) (\<lambda>ok.
         if \<not> ok then Inr None
         else rbind (collect_openings h sps) (\<lambda>r. Inr (case r of
             None \<Rightarrow> None
           | Some (cs, ys, ixs) \<Rightarrow>
               Some (butlast (sp_commits sp) @ cs, butlast (sp_ys sp) @ ys,
                 map last (filter (\<lambda>p. p \<noteq> []) (sp_paths sp)) @ ixs)))))"

definition verify_traversal_proof :: "(bytes \<Rightarrow> bytes) \<Rightarrow> prover \<Rightarrow> bytes \<Rightarrow> traversal_proof \<Rightarrow> bool result" where
  "verify_traversal_proof h P rt pf =
    (if multicommitment pf = [] \<or> tr_proof pf = [] then Inl InvalidArgument
     else
       rbind (check_lengths (sub_proofs pf)) (\<lambda>_.
         if \<exists>sp \<in> set (sub_proofs pf). hd (sp_commits sp) \<noteq> rt then Inl InvalidArgument
         else
           rbind (collect_openings h (sub_proofs pf)) (\<lambda>r.
             case r of
               None \<Rightarrow> Inr False
             | Some (cs, ys, ixs) \<Rightarrow>
                 if 1 < length cs \<and> \<not> verify_multi P cs ys ixs 64 (multicommitment pf) (tr_proof pf)
                 then Inr False else Inr True)))"

end
