(* ===== verification/TreeCompare.thy ===== *)
theory TreeCompare
  imports TreeCommit
begin

text \<open>
  Comparison of two committed trees level by level: \<^verbatim>\<open>quil-tries/src/compare.rs\<close>.
\<close>

record comparison =
  cmp_path :: "int list"
  cmp_left :: bytes
  cmp_right :: bytes
  cmp_differs :: bool

definition opt_commitment :: "vnode option \<Rightarrow> bytes" where
  "opt_commitment c = (case c of None \<Rightarrow> [] | Some n \<Rightarrow> node_commitment n)"

definition ensure_level :: "'a list list \<Rightarrow> nat \<Rightarrow> 'a list list" where
  "ensure_level levels depth = levels @ replicate (Suc depth - length levels) []"

definition push_level :: "'a \<Rightarrow> nat \<Rightarrow> 'a list list \<Rightarrow> 'a list list" where
  "push_level x depth levels =
    (let levels' = ensure_level levels depth in levels'[depth := levels' ! depth @ [x]])"

fun with_prefix :: "int list \<Rightarrow> vnode \<Rightarrow> vnode \<Rightarrow> int list" where
  "with_prefix base (Branch p _ _ _ _ _ _ _) (Branch q _ _ _ _ _ _ _) =
    base @ (if p = q then p else if length q \<le> length p then p else q)"
| "with_prefix base _ _ = base"

function walk_children :: "vnode \<Rightarrow> vnode \<Rightarrow> int list \<Rightarrow> comparison list list \<Rightarrow> comparison list list" where
  "walk_children (Branch p cs cm sz lc lb fp fl) (Branch q ds dm dz kc kb gp gl) parent levels =
    fold (\<lambda>i levels.
      let l = slot cs i; r = slot ds i in
      if l = None \<and> r = None then levels
      else
        let lcm = opt_commitment l; rcm = opt_commitment r in
        if lcm = rcm then levels
        else
          let path = parent @ [int i];
              levels = push_level \<lparr>cmp_path = path, cmp_left = lcm, cmp_right = rcm, cmp_differs = True\<rparr>
                (length parent + 1) levels
          in case l of
               None \<Rightarrow> levels
             | Some ln \<Rightarrow>
                 (case r of
                    None \<Rightarrow> levels
                  | Some rn \<Rightarrow> walk_children ln rn (with_prefix path ln rn) levels))
      [0..<length cs] levels"
| "walk_children (Leaf l) right parent levels = levels"
| "walk_children (Branch p cs cm sz lc lb fp fl) (Leaf r) parent levels = levels"
  by pat_completeness auto
termination
  by (relation "measure (\<lambda>(n, _, _, _). size n)")
    (auto simp: slot_def less_Suc_eq split: if_splits intro: size_slot)

definition compare_trees_at_height :: "vnode option \<Rightarrow> vnode option \<Rightarrow> comparison list list" where
  "compare_trees_at_height a b =
    (case (a, b) of
       (None, None) \<Rightarrow> []
     | (Some n1, Some n2) \<Rightarrow>
         let differs = node_commitment n1 \<noteq> node_commitment n2;
             levels = [[\<lparr>cmp_path = [], cmp_left = node_commitment n1, cmp_right = node_commitment n2, cmp_differs = differs\<rparr>]]
         in if differs then walk_children n1 n2 [] levels else levels
     | _ \<Rightarrow> [[\<lparr>cmp_path = [], cmp_left = opt_commitment a, cmp_right = opt_commitment b, cmp_differs = True\<rparr>]])"

section \<open>Rows\<close>

definition row :: "'a list list \<Rightarrow> nat \<Rightarrow> 'a list" where
  "row levels k = (if k < length levels then levels ! k else [])"

lemma row_push_level [simp]: "row (push_level x d levels) k = row levels k @ (if k = d then [x] else [])"
proof -
  have len: "length (ensure_level levels d) = max (length levels) (Suc d)" by (auto simp: ensure_level_def)
  have "row (ensure_level levels d) k = row levels k" by (auto simp: row_def ensure_level_def nth_append)
  then show ?thesis
    unfolding push_level_def Let_def by (auto simp: row_def len nth_list_update split: if_splits)
qed

definition slot_entry :: "vnode option list \<Rightarrow> vnode option list \<Rightarrow> int list \<Rightarrow> nat \<Rightarrow> comparison" where
  "slot_entry cs ds parent i = \<lparr>cmp_path = parent @ [int i], cmp_left = opt_commitment (slot cs i),
    cmp_right = opt_commitment (slot ds i), cmp_differs = True\<rparr>"

definition slot_differs :: "vnode option list \<Rightarrow> vnode option list \<Rightarrow> nat \<Rightarrow> bool" where
  "slot_differs cs ds i \<longleftrightarrow> opt_commitment (slot cs i) \<noteq> opt_commitment (slot ds i)"

text \<open>One turn of the loop over the slots.\<close>

definition compare_slot :: "vnode option list \<Rightarrow> vnode option list \<Rightarrow> int list \<Rightarrow> nat \<Rightarrow> comparison list list \<Rightarrow> comparison list list" where
  "compare_slot cs ds parent i levels =
    (if \<not> slot_differs cs ds i then levels
     else let levels = push_level (slot_entry cs ds parent i) (length parent + 1) levels in
       case (slot cs i, slot ds i) of
         (Some ln, Some rn) \<Rightarrow> walk_children ln rn (with_prefix (parent @ [int i]) ln rn) levels
       | _ \<Rightarrow> levels)"

lemma walk_children_fold:
  "walk_children (Branch p cs cm sz lc lb fp fl) (Branch q ds dm dz kc kb gp gl) parent levels =
    fold (compare_slot cs ds parent) [0..<length cs] levels"
  unfolding walk_children.simps
  by (intro fold_cong refl ext)
    (auto simp: Let_def compare_slot_def slot_differs_def slot_entry_def split: option.splits)

lemma length_with_prefix: "length base \<le> length (with_prefix base l r)"
  by (cases "(base, l, r)" rule: with_prefix.cases) auto

declare walk_children.simps [simp del]

lemma walk_children_frame: "k \<le> length parent \<Longrightarrow> row (walk_children l r parent levels) k = row levels k"
proof (induction l arbitrary: r parent levels rule: measure_induct_rule [of size])
  case (less l)
  show ?case
  proof (cases "\<exists>p cs cm sz lc lb fp fl q ds dm dz kc kb gp gl.
      l = Branch p cs cm sz lc lb fp fl \<and> r = Branch q ds dm dz kc kb gp gl")
    case True
    then obtain p cs cm sz lc lb fp fl q ds dm dz kc kb gp gl
      where l: "l = Branch p cs cm sz lc lb fp fl" and r: "r = Branch q ds dm dz kc kb gp gl" by blast
    have step: "row (compare_slot cs ds parent i lv) k = row lv k" for i lv
    proof (cases "slot cs i")
      case (Some ln)
      then have "size ln < size l" using size_slot [of i cs ln] l by (auto simp: slot_def less_Suc_eq split: if_splits)
      moreover have "k \<le> length (with_prefix (parent @ [int i]) ln rn)" for rn
        using less.prems length_with_prefix [of "parent @ [int i]" ln rn] by simp
      ultimately show ?thesis using Some less.prems less.IH
        by (auto simp: compare_slot_def Let_def split: option.splits)
    qed (use less.prems in \<open>simp add: compare_slot_def Let_def\<close>)
    have "row (fold (compare_slot cs ds parent) xs lv) k = row lv k" for xs lv
      by (induction xs arbitrary: lv) (simp_all add: step)
    then show ?thesis unfolding l r walk_children_fold .
  next
    case False
    then show ?thesis by (cases l; cases r) (auto simp: walk_children.simps)
  qed
qed

text \<open>The first row below the parent lists the differing slots, in order.\<close>

lemma walk_children_row:
  "row (walk_children (Branch p cs cm sz lc lb fp fl) (Branch q ds dm dz kc kb gp gl) parent levels) (Suc (length parent)) =
    row levels (Suc (length parent)) @ map (slot_entry cs ds parent) (filter (slot_differs cs ds) [0..<length cs])"
proof -
  have frame: "row (walk_children ln rn (with_prefix (parent @ [int i]) ln rn) lv) (Suc (length parent)) = row lv (Suc (length parent))"
    for i ln rn lv using length_with_prefix [of "parent @ [int i]" ln rn] by (intro walk_children_frame) simp
  have step: "row (compare_slot cs ds parent i lv) (Suc (length parent)) =
      row lv (Suc (length parent)) @ (if slot_differs cs ds i then [slot_entry cs ds parent i] else [])" for i lv
    by (auto simp: compare_slot_def Let_def frame split: option.splits)
  have "row (fold (compare_slot cs ds parent) xs lv) (Suc (length parent)) =
      row lv (Suc (length parent)) @ map (slot_entry cs ds parent) (filter (slot_differs cs ds) xs)" for xs lv
    by (induction xs arbitrary: lv) (simp_all add: step)
  then show ?thesis unfolding walk_children_fold .
qed

text \<open>Every row holds real differences of its depth.\<close>

definition rows_ok :: "comparison list list \<Rightarrow> bool" where
  "rows_ok levels \<longleftrightarrow> (\<forall>k. \<forall>e \<in> set (row levels k). length (cmp_path e) = k \<and>
    cmp_differs e = (cmp_left e \<noteq> cmp_right e) \<and> (0 < k \<longrightarrow> cmp_differs e))"

lemma walk_children_ok: "rows_ok levels \<Longrightarrow> rows_ok (walk_children l r parent levels)"
proof (induction l arbitrary: r parent levels rule: measure_induct_rule [of size])
  case (less l)
  show ?case
  proof (cases "\<exists>p cs cm sz lc lb fp fl q ds dm dz kc kb gp gl.
      l = Branch p cs cm sz lc lb fp fl \<and> r = Branch q ds dm dz kc kb gp gl")
    case True
    then obtain p cs cm sz lc lb fp fl q ds dm dz kc kb gp gl
      where l: "l = Branch p cs cm sz lc lb fp fl" and r: "r = Branch q ds dm dz kc kb gp gl" by blast
    have push: "rows_ok (push_level (slot_entry cs ds parent i) (length parent + 1) lv)"
      if "rows_ok lv" "slot_differs cs ds i" for i lv
      using that by (auto simp: rows_ok_def slot_entry_def slot_differs_def)
    have step: "rows_ok (compare_slot cs ds parent i lv)" if lv: "rows_ok lv" for i lv
    proof (cases "slot cs i")
      case (Some ln)
      then have "size ln < size l" using size_slot [of i cs ln] l by (auto simp: slot_def less_Suc_eq split: if_splits)
      then show ?thesis using Some less.IH push lv by (auto simp: compare_slot_def Let_def split: option.splits)
    qed (use push lv in \<open>simp add: compare_slot_def Let_def\<close>)
    have "rows_ok (fold (compare_slot cs ds parent) xs lv)" if "rows_ok lv" for xs lv
      using that by (induction xs arbitrary: lv) (simp_all add: step)
    then show ?thesis unfolding l r walk_children_fold using less.prems by blast
  next
    case False
    then show ?thesis using less.prems by (cases l; cases r) (auto simp: walk_children.simps)
  qed
qed

section \<open>Properties\<close>

text \<open>
  C15. Comparing two trees with branches at their roots: an entry of row \<open>k\<close> has a path of
  length \<open>k\<close>, is marked as differing exactly when its two commitments differ, and below the root
  always differs; the root row holds the root alone; and when the roots differ, row 1
  lists exactly the slots with different commitments, in order.
\<close>

theorem compare_trees_rows:
  assumes "m = Branch p cs cm sz lc lb fp fl" "n = Branch q ds dm dz kc kb gp gl"
  shows "rows_ok (compare_trees_at_height (Some m) (Some n)) \<and>
    row (compare_trees_at_height (Some m) (Some n)) 0 =
      [\<lparr>cmp_path = [], cmp_left = cm, cmp_right = dm, cmp_differs = (cm \<noteq> dm)\<rparr>] \<and>
    row (compare_trees_at_height (Some m) (Some n)) 1 =
      (if cm = dm then [] else map (slot_entry cs ds []) (filter (slot_differs cs ds) [0..<length cs]))"
proof -
  let ?l0 = "[[\<lparr>cmp_path = [], cmp_left = cm, cmp_right = dm, cmp_differs = (cm \<noteq> dm)\<rparr>]]"
  have ok: "rows_ok ?l0" by (auto simp: rows_ok_def row_def)
  have eq: "compare_trees_at_height (Some m) (Some n) = (if cm = dm then ?l0 else walk_children m n [] ?l0)"
    using assms by (simp add: compare_trees_at_height_def Let_def)
  have r: "row ?l0 0 = [\<lparr>cmp_path = [], cmp_left = cm, cmp_right = dm, cmp_differs = (cm \<noteq> dm)\<rparr>]" "row ?l0 1 = []"
    by (simp_all add: row_def)
  have w: "row (walk_children m n [] ?l0) 0 = row ?l0 0" by (rule walk_children_frame) simp
  have "row (walk_children m n [] ?l0) 1 = row ?l0 1 @ map (slot_entry cs ds []) (filter (slot_differs cs ds) [0..<length cs])"
    using walk_children_row [of p cs cm sz lc lb fp fl q ds dm dz kc kb gp gl "[]" ?l0] assms by simp
  then show ?thesis unfolding eq using ok w r walk_children_ok [OF ok, of m n "[]"] by auto
qed

theorem compare_trees_rows_witness:
  "row (compare_trees_at_height
      (Some (Branch [] ((replicate 64 None)[2 := Some (Leaf \<lparr>leaf_key = [8], leaf_value = [], leaf_hash_target = [],
        leaf_commitment = [1], leaf_size = 0\<rparr>)]) [5] 0 0 0 [] True))
      (Some (Branch [] (replicate 64 None) [6] 0 0 0 [] True))) 1 =
    [\<lparr>cmp_path = [2], cmp_left = [1], cmp_right = [], cmp_differs = True\<rparr>]"
proof -
  let ?cs = "(replicate 64 None)[2 := Some (Leaf \<lparr>leaf_key = [8], leaf_value = [], leaf_hash_target = [],
        leaf_commitment = [1], leaf_size = 0\<rparr>)]" and ?ds = "replicate 64 None"
  have "map (slot_entry ?cs ?ds []) (filter (slot_differs ?cs ?ds) [0..<64]) =
      [\<lparr>cmp_path = [2], cmp_left = [1], cmp_right = [], cmp_differs = True\<rparr>]" by code_simp
  then show ?thesis using compare_trees_rows [OF refl refl, of "[]" ?cs "[5]" 0 0 0 "[]" True "[]" ?ds "[6]" 0 0 0 "[]" True] by simp
qed

end
