(* ===== verification/Canonical.thy ===== *)
theory Canonical
  imports Codec
begin

text \<open>
  The canonical byte encodings of \<^verbatim>\<open>quil-execution\<close>: the cursor helpers of
  \<^verbatim>\<open>canonical_cursor.rs\<close>, the patterns the message modules build from them (capped fields,
  counted lists, nested messages behind a length), and the contracts of their decoders. Every
  failure of a canonical decoder is an \<open>InvalidArgument\<close>. The encoders of the source return a
  \<^verbatim>\<open>Result\<close> but have no failing branch, so they are total functions here.
\<close>

type_synonym i64 = "64 word"

section \<open>Cursor helpers\<close>

definition put_lp :: "bytes \<Rightarrow> bytes" where
  "put_lp b = u32_to_be_bytes (word_of_nat (length b)) @ b"

definition read_lp :: "bytes reader" where
  "read_lp bs =
    rbind (read_u32 InvalidArgument bs) (\<lambda>(n, bs). read_bytes InvalidArgument (unat n) bs)"

definition write_array :: "bytes list \<Rightarrow> bytes" where
  "write_array xs = u32_to_be_bytes (word_of_nat (length xs)) @ concat (map put_lp xs)"

definition read_array :: "bytes list reader" where
  "read_array bs =
    rbind (read_u32 InvalidArgument bs) (\<lambda>(n, bs). read_many (unat n) read_lp bs)"

definition put_i64 :: "i64 \<Rightarrow> bytes" where
  "put_i64 v = u64_to_be_bytes v"

definition read_i64 :: "i64 reader" where
  "read_i64 bs =
    rbind (read_bytes InvalidArgument 8 bs) (\<lambda>(b, bs). Inr (u64_from_be_bytes b, bs))"

definition expect_tp :: "u32 \<Rightarrow> u32 \<Rightarrow> unit result" where
  "expect_tp actual expected = (if actual \<noteq> expected then Inl InvalidArgument else Inr ())"

section \<open>Patterns of the message modules\<close>

text \<open>The type discriminator every message starts with.\<close>

definition read_type :: "u32 \<Rightarrow> unit reader" where
  "read_type t bs =
    rbind (read_u32 InvalidArgument bs) (\<lambda>(tp, bs). rbind (expect_tp tp t) (\<lambda>_. Inr ((), bs)))"

text \<open>A length-prefixed field whose length is capped, and a capped count of values.\<close>

definition read_capped :: "nat \<Rightarrow> bytes reader" where
  "read_capped cap bs =
    rbind (read_u32 InvalidArgument bs) (\<lambda>(n, bs).
      if cap < unat n then Inl InvalidArgument else read_bytes InvalidArgument (unat n) bs)"

definition put_list :: "('a \<Rightarrow> bytes) \<Rightarrow> 'a list \<Rightarrow> bytes" where
  "put_list enc xs = u32_to_be_bytes (word_of_nat (length xs)) @ concat (map enc xs)"

definition read_list :: "nat \<Rightarrow> 'a reader \<Rightarrow> 'a list reader" where
  "read_list cap dec bs =
    rbind (read_u32 InvalidArgument bs) (\<lambda>(n, bs).
      if cap < unat n then Inl InvalidArgument else read_many (unat n) dec bs)"

text \<open>
  A message nested behind its length, and an optional one, for which length 0 stands for
  absence. A nested decoder sees the bytes of its field only.
\<close>

definition read_item :: "nat \<Rightarrow> (bytes \<Rightarrow> 'a result) \<Rightarrow> 'a reader" where
  "read_item cap from bs =
    rbind (read_capped cap bs) (\<lambda>(b, bs). rbind (from b) (\<lambda>m. Inr (m, bs)))"

definition put_opt :: "('a \<Rightarrow> bytes) \<Rightarrow> 'a option \<Rightarrow> bytes" where
  "put_opt enc x = (case x of None \<Rightarrow> u32_to_be_bytes 0 | Some m \<Rightarrow> put_lp (enc m))"

definition read_opt :: "nat \<Rightarrow> (bytes \<Rightarrow> 'a result) \<Rightarrow> 'a option reader" where
  "read_opt cap from bs =
    rbind (read_u32 InvalidArgument bs) (\<lambda>(n, bs).
      if cap < unat n then Inl InvalidArgument
      else if n = 0 then Inr (None, bs)
      else
        rbind (read_bytes InvalidArgument (unat n) bs) (\<lambda>(b, bs).
        rbind (from b) (\<lambda>m. Inr (Some m, bs))))"

text \<open>A decoder that starts at the first byte and does not look at what is left.\<close>

definition whole :: "'a reader \<Rightarrow> bytes \<Rightarrow> 'a result" where
  "whole dec bs = rbind (dec bs) (\<lambda>(m, _). Inr m)"

section \<open>Facts about the helpers\<close>

lemma unat_u32_lt [simp]: "unat (w :: u32) < 4294967296"
  using unsigned_less [of w, where ?'a = nat] by simp

lemma unat_of_nat_u32' [simp]: "n < 4294967296 \<Longrightarrow> unat (word_of_nat n :: u32) = n"
  using unat_of_nat_u32 [of n] by simp

lemma unat_of_nat_u32_plus [simp]:
  "n + k < 4294967296 \<Longrightarrow> unat (word_of_nat n + word_of_nat k :: u32) = n + k"
  by (metis of_nat_add unat_of_nat_u32')

lemma length_put_lp [simp, codec]: "length (put_lp b) = 4 + length b"
  by (simp add: put_lp_def)

lemma put_lp_nonempty [simp]: "put_lp b \<noteq> []"
  using length_put_lp [of b] by (metis add_is_0 list.size(3) zero_neq_numeral)

lemma length_put_i64 [simp, codec]: "length (put_i64 v) = 8"
  by (simp add: put_i64_def)

lemma read_type_append [simp, codec]: "read_type t (u32_to_be_bytes t @ bs) = Inr ((), bs)"
  by (simp add: read_type_def expect_tp_def)

lemma read_i64_append [simp, codec]: "read_i64 (put_i64 v @ bs) = Inr (v, bs)"
  by (simp add: read_i64_def put_i64_def)

lemma read_lp_append [simp, codec]: "length b < 2 ^ 32 \<Longrightarrow> read_lp (put_lp b @ bs) = Inr (b, bs)"
  by (simp add: read_lp_def put_lp_def)

lemma read_capped_append [simp, codec]:
  "length b \<le> cap \<Longrightarrow> length b < 2 ^ 32 \<Longrightarrow> read_capped cap (put_lp b @ bs) = Inr (b, bs)"
  by (simp add: read_capped_def put_lp_def)

lemma read_u32_Inr:
  "read_u32 e bs = Inr (w, bs') \<longleftrightarrow> 4 \<le> length bs \<and> w = u32_from_be_bytes (take 4 bs) \<and> bs' = drop 4 bs"
  by (auto simp: read_u32_def read_bytes_Inr result_iff)

lemma read_u64_Inr:
  "read_u64 e bs = Inr (w, bs') \<longleftrightarrow> 8 \<le> length bs \<and> w = u64_from_be_bytes (take 8 bs) \<and> bs' = drop 8 bs"
  by (auto simp: read_u64_def read_bytes_Inr result_iff)

lemma read_bytes_length: "read_bytes e n bs = Inr (b, bs') \<Longrightarrow> length b = n \<and> length bs = length b + length bs'"
  by (auto simp: read_bytes_Inr min_def)

lemma read_lp_length: "read_lp bs = Inr (b, bs') \<Longrightarrow> length b < 2 ^ 32 \<and> length bs = 4 + length b + length bs'"
  by (auto simp: read_lp_def result_iff read_u32_Inr dest!: read_bytes_length)

lemma read_capped_length:
  "read_capped cap bs = Inr (b, bs') \<Longrightarrow>
    length b \<le> cap \<and> length b < 2 ^ 32 \<and> length bs = 4 + length b + length bs'"
  by (auto simp: read_capped_def result_iff read_u32_Inr split: if_splits dest!: read_bytes_length)

lemma read_type_Inr:
  "read_type t bs = Inr (u, bs') \<longleftrightarrow> 4 \<le> length bs \<and> u32_from_be_bytes (take 4 bs) = t \<and> bs' = drop 4 bs"
  by (auto simp: read_type_def expect_tp_def result_iff read_u32_Inr split: if_splits)

section \<open>The contracts of the decoders\<close>

text \<open>A decoder that returns well-formed values only.\<close>

locale checked_codec = codec +
  assumes dec_ok: "dec bs = Inr (x, bs') \<Longrightarrow> ok x"
begin

lemma many_ok: "read_many n dec bs = Inr (xs, bs') \<Longrightarrow> list_all ok xs \<and> length xs = n"
  by (induction n arbitrary: xs bs) (auto simp: result_iff split: prod.splits dest: dec_ok)

lemma whole_enc_append: "ok m \<Longrightarrow> whole dec (enc m @ bs) = Inr m"
  by (simp add: whole_def dec_enc_append)

lemma whole_enc: "ok m \<Longrightarrow> whole dec (enc m) = Inr m"
  using whole_enc_append [of m "[]"] by simp

lemma whole_ok: "whole dec bs = Inr m \<Longrightarrow> ok m"
  by (auto simp: whole_def result_iff dest: dec_ok)

lemma whole_enc_iff: "whole dec (enc m) = Inr m \<longleftrightarrow> ok m"
  by (blast intro: whole_enc whole_ok)

lemma list_append:
  "list_all ok xs \<Longrightarrow> length xs \<le> cap \<Longrightarrow> length xs < 2 ^ 32 \<Longrightarrow>
    read_list cap dec (put_list enc xs @ bs) = Inr (xs, bs)"
  using many_append [of xs bs] by (simp add: read_list_def put_list_def)

lemma list_ok:
  "read_list cap dec bs = Inr (xs, bs') \<Longrightarrow> list_all ok xs \<and> length xs \<le> cap \<and> length xs < 2 ^ 32"
  by (auto simp: read_list_def result_iff split: if_splits dest: many_ok)

lemma reencode: "whole dec bs = Inr m \<Longrightarrow> whole dec (enc m) = Inr m"
  by (blast intro: whole_enc whole_ok)

end

text \<open>A decoder that in addition never returns a value longer than what it consumed.\<close>

locale nested_codec = checked_codec +
  assumes dec_length: "dec bs = Inr (x, bs') \<Longrightarrow> length (enc x) + length bs' \<le> length bs"
    and enc_nonempty: "enc x \<noteq> []"
begin

lemma whole_length: "whole dec bs = Inr m \<Longrightarrow> length (enc m) \<le> length bs"
  by (auto simp: whole_def result_iff dest: dec_length)

end

sublocale nested_codec \<subseteq> itm: checked_codec "\<lambda>m. put_lp (enc m)" "read_item cap (whole dec)"
    "\<lambda>m. ok m \<and> length (enc m) \<le> cap \<and> length (enc m) < 2 ^ 32" for cap
proof unfold_locales
  show "read_item cap (whole dec) (put_lp (enc m) @ bs) = Inr (m, bs)"
    if "ok m \<and> length (enc m) \<le> cap \<and> length (enc m) < 2 ^ 32" for m bs
    using that by (simp add: read_item_def whole_enc)
  show "ok m \<and> length (enc m) \<le> cap \<and> length (enc m) < 2 ^ 32"
    if "read_item cap (whole dec) bs = Inr (m, bs')" for bs m bs'
    using that by (fastforce simp: read_item_def result_iff dest: whole_ok whole_length read_capped_length)
qed

lemma word_of_nat_u32_eq_0: "n < 2 ^ 32 \<Longrightarrow> (word_of_nat n :: u32) = 0 \<longleftrightarrow> n = 0"
  by (metis unat_eq_zero unat_of_nat_u32)

lemma read_opt_cases:
  assumes "read_opt cap from bs = Inr (x, bs')"
  obtains "x = None"
  | b m where "x = Some m" "from b = Inr m" "length b \<le> cap" "length b < 2 ^ 32"
  using assms
  by (auto simp: read_opt_def result_iff split: if_splits dest!: read_bytes_length)

sublocale nested_codec \<subseteq> opt: checked_codec "put_opt enc" "read_opt cap (whole dec)"
    "pred_option (\<lambda>m. ok m \<and> length (enc m) \<le> cap \<and> length (enc m) < 2 ^ 32)" for cap
proof unfold_locales
  show "read_opt cap (whole dec) (put_opt enc x @ bs) = Inr (x, bs)"
    if "pred_option (\<lambda>m. ok m \<and> length (enc m) \<le> cap \<and> length (enc m) < 2 ^ 32) x" for x bs
    using that
    by (cases x) (simp_all add: read_opt_def put_opt_def put_lp_def whole_enc word_of_nat_u32_eq_0 enc_nonempty)
  show "pred_option (\<lambda>m. ok m \<and> length (enc m) \<le> cap \<and> length (enc m) < 2 ^ 32) x"
    if "read_opt cap (whole dec) bs = Inr (x, bs')" for bs x bs'
    using that
  proof (cases rule: read_opt_cases)
    case 1
    then show ?thesis by simp
  next
    case (2 b m)
    with whole_ok [OF 2(2)] whole_length [OF 2(2)] show ?thesis by simp
  qed
qed

interpretation lpc: nested_codec put_lp read_lp "\<lambda>b. length b < 2 ^ 32"
  by unfold_locales (auto dest: read_lp_length)

interpretation cap: nested_codec put_lp "read_capped n" "\<lambda>b. length b \<le> n \<and> length b < 2 ^ 32" for n
  by unfold_locales (auto dest: read_capped_length)

interpretation u32k: checked_codec u32_to_be_bytes "read_u32 InvalidArgument" "\<lambda>_. True"
  by unfold_locales simp

interpretation u64k: checked_codec u64_to_be_bytes "read_u64 InvalidArgument" "\<lambda>_. True"
  by unfold_locales simp

end
