(* ===== verification/HandoffRecords.thy ===== *)
theory HandoffRecords
  imports Canonical "HOL-Library.List_Lexorder"
begin

text \<open>
  The committee handoff records: the bounded cursor, sessions, checkpoints and seals of
  \<^verbatim>\<open>quil-cw-consensus/src/handoff.rs\<close>, and the certificate and seal submissions of
  \<^verbatim>\<open>global_intrinsic/handoff.rs\<close>. These decoders are strict: they refuse trailing bytes, so each
  record has one encoding. A fixed array is a byte string whose length is part of the
  well-formedness predicate; the hash is an argument.
\<close>

section \<open>The bounded cursor\<close>

definition MAX_MEMBERS :: nat where "MAX_MEMBERS = 4096"
definition MAX_RECORD_BYTES :: nat where "MAX_RECORD_BYTES = 4 * 1024 * 1024"
definition MAX_FILTER_BYTES :: nat where "MAX_FILTER_BYTES = 66"
definition FALCON_PUBLIC_KEY_LEN :: nat where "FALCON_PUBLIC_KEY_LEN = 897"

definition handoff_put_bytes :: "bytes \<Rightarrow> bytes result" where
  "handoff_put_bytes b = (if length b < 2 ^ 32 then Inr (u32_to_be_bytes (word_of_nat (length b)) @ b) else Inl InvalidArgument)"

definition cursor_new :: "bytes \<Rightarrow> bytes result" where
  "cursor_new bs = (if MAX_RECORD_BYTES < length bs then Inl InvalidArgument else Inr bs)"

definition cursor_take :: "nat \<Rightarrow> bytes reader" where
  "cursor_take n bs = (if length bs < n then Inl InvalidArgument else Inr (take n bs, drop n bs))"

definition cursor_u32 :: "u32 reader" where
  "cursor_u32 bs = rbind (cursor_take 4 bs) (\<lambda>(b, bs). Inr (u32_from_be_bytes b, bs))"

definition cursor_u64 :: "u64 reader" where
  "cursor_u64 bs = rbind (cursor_take 8 bs) (\<lambda>(b, bs). Inr (u64_from_be_bytes b, bs))"

definition cursor_count :: "nat \<Rightarrow> nat \<Rightarrow> nat reader" where
  "cursor_count mx min_bytes bs =
    rbind (cursor_u32 bs) (\<lambda>(n, bs).
      if mx < unat n \<or> length bs div max min_bytes 1 < unat n then Inl InvalidArgument else Inr (unat n, bs))"

definition cursor_bytes :: "nat \<Rightarrow> bytes reader" where
  "cursor_bytes mx bs =
    rbind (cursor_u32 bs) (\<lambda>(n, bs). if mx < unat n then Inl InvalidArgument else cursor_take (unat n) bs)"

definition cursor_magic :: "bytes \<Rightarrow> unit reader" where
  "cursor_magic expected bs =
    rbind (cursor_take (length expected) bs) (\<lambda>(b, bs). if b \<noteq> expected then Inl InvalidArgument else Inr ((), bs))"

definition cursor_u8 :: "byte reader" where
  "cursor_u8 bs = rbind (cursor_take 1 bs) (\<lambda>(b, bs). Inr (b ! 0, bs))"

definition cursor_finish :: "bytes \<Rightarrow> unit result" where
  "cursor_finish bs = (if bs \<noteq> [] then Inl InvalidArgument else Inr ())"

text \<open>A record: a cursor over all the bytes, its fields, and nothing after them.\<close>

definition decode_record :: "'a reader \<Rightarrow> bytes \<Rightarrow> 'a result" where
  "decode_record r bs =
    rbind (cursor_new bs) (\<lambda>bs. rbind (r bs) (\<lambda>(x, bs). rbind (cursor_finish bs) (\<lambda>_. Inr x)))"

text \<open>Whether some two neighbours of a list are related (\<^verbatim>\<open>windows(2).any\<close>).\<close>

fun any_neighbours :: "('a \<Rightarrow> 'a \<Rightarrow> bool) \<Rightarrow> 'a list \<Rightarrow> bool" where
  "any_neighbours P (x # y # zs) \<longleftrightarrow> P x y \<or> any_neighbours P (y # zs)"
| "any_neighbours P _ \<longleftrightarrow> False"

section \<open>Strict decoders\<close>

text \<open>A decoder that accepts exactly the encodings of well-formed values.\<close>

locale strict_codec =
  fixes enc :: "'a \<Rightarrow> bytes"
    and dec :: "'a reader"
    and ok :: "'a \<Rightarrow> bool"
  assumes dec_iff: "dec bs = Inr (x, bs') \<longleftrightarrow> ok x \<and> bs = enc x @ bs'"
begin

lemma many_iff:
  "read_many n dec bs = Inr (xs, bs') \<longleftrightarrow> list_all ok xs \<and> length xs = n \<and> bs = concat (map enc xs) @ bs'"
proof (induction n arbitrary: xs bs)
  case 0
  then show ?case by auto
next
  case (Suc n)
  show ?case by (cases xs) (auto simp: result_iff dec_iff Suc.IH)
qed

lemma record_iff: "decode_record dec bs = Inr x \<longleftrightarrow> ok x \<and> bs = enc x \<and> length bs \<le> MAX_RECORD_BYTES"
  by (auto simp: decode_record_def cursor_new_def cursor_finish_def result_iff dec_iff split: if_splits)

end

sublocale strict_codec \<subseteq> checked_codec
  by unfold_locales (simp_all add: dec_iff)

lemma cursor_take_iff: "cursor_take n bs = Inr (x, bs') \<longleftrightarrow> length x = n \<and> bs = x @ bs'"
  by (auto simp: cursor_take_def)

lemma cursor_u32_iff: "cursor_u32 bs = Inr (w, bs') \<longleftrightarrow> bs = u32_to_be_bytes w @ bs'"
  by (auto simp: cursor_u32_def result_iff cursor_take_iff u32_to_from_be_bytes)

lemma cursor_u64_iff: "cursor_u64 bs = Inr (w, bs') \<longleftrightarrow> bs = u64_to_be_bytes w @ bs'"
  by (auto simp: cursor_u64_def result_iff cursor_take_iff u64_to_from_be_bytes)

lemma cursor_u8_iff: "cursor_u8 bs = Inr (b, bs') \<longleftrightarrow> bs = b # bs'"
  by (auto simp: cursor_u8_def result_iff cursor_take_iff length_Suc_conv)

lemma cursor_magic_iff: "cursor_magic m bs = Inr (u, bs') \<longleftrightarrow> bs = m @ bs'"
  by (auto simp: cursor_magic_def result_iff cursor_take_iff split: if_splits)

lemma cursor_bytes_iff:
  "cursor_bytes mx bs = Inr (b, bs') \<longleftrightarrow> length b \<le> mx \<and> length b < 2 ^ 32 \<and> bs = put_lp b @ bs'"
  by (auto simp: cursor_bytes_def result_iff cursor_u32_iff cursor_take_iff put_lp_def split: if_splits
      intro: exI [where x = "word_of_nat (length b) :: u32"])

lemma cursor_u32_append [simp]: "cursor_u32 (u32_to_be_bytes w @ bs) = Inr (w, bs)"
  by (simp add: cursor_u32_iff)

lemma cursor_count_iff:
  "cursor_count mx k bs = Inr (n, bs') \<longleftrightarrow>
    n \<le> mx \<and> n \<le> length bs' div max k 1 \<and> n < 2 ^ 32 \<and> bs = u32_to_be_bytes (word_of_nat n) @ bs'"
    (is "?l \<longleftrightarrow> ?r")
proof
  show "?l \<Longrightarrow> ?r" by (auto simp: cursor_count_def result_iff cursor_u32_iff split: if_splits)
  show "?r \<Longrightarrow> ?l" by (auto simp: cursor_count_def)
qed

lemma handoff_put_bytes_iff: "handoff_put_bytes b = Inr bs \<longleftrightarrow> length b < 2 ^ 32 \<and> bs = put_lp b"
  by (auto simp: handoff_put_bytes_def put_lp_def)

lemmas cursor_iff = cursor_take_iff cursor_u32_iff cursor_u64_iff cursor_u8_iff cursor_magic_iff cursor_bytes_iff
  cursor_count_iff

interpretation ctake: strict_codec "\<lambda>b. b" "cursor_take n" "\<lambda>b. length b = n" for n
  by unfold_locales (simp add: cursor_take_iff)

interpretation cbytes: strict_codec put_lp "cursor_bytes n" "\<lambda>b. length b \<le> n \<and> length b < 2 ^ 32" for n
  by unfold_locales (simp add: cursor_bytes_iff)

section \<open>Sessions\<close>

definition ascii :: "string \<Rightarrow> bytes" where
  "ascii s = map (\<lambda>c. word_of_nat (of_char c)) s"

definition SESSION_MAGIC :: bytes where "SESSION_MAGIC = ascii ''QHSS'' @ [1]"
definition SEAL_MAGIC :: bytes where "SEAL_MAGIC = ascii ''QHSL'' @ [1]"

record session =
  se_chain_id :: bytes
  se_filter :: bytes
  se_generation :: u64
  se_genesis :: bytes
  se_base_frame :: u64
  se_authorization :: bytes
  se_members :: "bytes list"

definition session_validate :: "session \<Rightarrow> unit result" where
  "session_validate s =
    (if \<not> (32 \<le> length (se_filter s) \<and> length (se_filter s) \<le> MAX_FILTER_BYTES) then Inl InvalidArgument
     else if se_members s = [] \<or> MAX_MEMBERS < length (se_members s) \<or>
       any_neighbours (\<lambda>a b. b \<le> a) (se_members s) \<or>
       list_ex (\<lambda>key. length key \<noteq> FALCON_PUBLIC_KEY_LEN) (se_members s) then Inl InvalidArgument
     else Inr ())"

fun put_all :: "bytes list \<Rightarrow> bytes result" where
  "put_all [] = Inr []"
| "put_all (b # bs) = rbind (handoff_put_bytes b) (\<lambda>x. rbind (put_all bs) (\<lambda>xs. Inr (x @ xs)))"

definition session_encode :: "session \<Rightarrow> bytes result" where
  "session_encode s =
    rbind (session_validate s) (\<lambda>_.
    rbind (handoff_put_bytes (se_filter s)) (\<lambda>filter_bytes.
    rbind (put_all (se_members s)) (\<lambda>member_bytes.
      let out = SESSION_MAGIC @ se_chain_id s @ filter_bytes @ u64_to_be_bytes (se_generation s) @ se_genesis s @
        u64_to_be_bytes (se_base_frame s) @ se_authorization s @
        u32_to_be_bytes (word_of_nat (length (se_members s))) @ member_bytes
      in if MAX_RECORD_BYTES < length out then Inl InvalidArgument else Inr out)))"

definition read_session :: "session reader" where
  "read_session bs =
    rbind (cursor_magic SESSION_MAGIC bs) (\<lambda>(_, bs).
    rbind (cursor_take 32 bs) (\<lambda>(chain_id, bs).
    rbind (cursor_bytes MAX_FILTER_BYTES bs) (\<lambda>(filt, bs).
    rbind (cursor_u64 bs) (\<lambda>(generation, bs).
    rbind (cursor_take 32 bs) (\<lambda>(genesis, bs).
    rbind (cursor_u64 bs) (\<lambda>(base_frame, bs).
    rbind (cursor_take 32 bs) (\<lambda>(authorization, bs).
    rbind (cursor_count MAX_MEMBERS (4 + FALCON_PUBLIC_KEY_LEN) bs) (\<lambda>(n, bs).
    rbind (read_many n (cursor_bytes FALCON_PUBLIC_KEY_LEN) bs) (\<lambda>(members, bs).
      Inr (\<lparr>se_chain_id = chain_id, se_filter = filt, se_generation = generation, se_genesis = genesis,
        se_base_frame = base_frame, se_authorization = authorization, se_members = members\<rparr>, bs))))))))))"

definition session_decode :: "bytes \<Rightarrow> session result" where
  "session_decode bs =
    rbind (decode_record read_session bs) (\<lambda>s. rbind (session_validate s) (\<lambda>_. Inr s))"

definition session_id :: "(bytes \<Rightarrow> bytes) \<Rightarrow> session \<Rightarrow> bytes result" where
  "session_id sha256 s = rbind (session_encode s) (\<lambda>b. Inr (sha256 b))"

definition session_namespace :: "(bytes \<Rightarrow> bytes) \<Rightarrow> session \<Rightarrow> bytes result" where
  "session_namespace sha256 s =
    rbind (session_validate s) (\<lambda>_.
      if se_generation s = 0 then Inr (ascii ''appshard'' @ se_filter s)
      else rbind (session_id sha256 s) (\<lambda>i. Inr (ascii ''quil/app/simplex/session/v1/'' @ i)))"

section \<open>Checkpoints and seals\<close>

record checkpoint =
  cp_frame :: u64
  cp_view :: u64
  cp_digest :: bytes
  cp_state_roots :: "bytes list"
  cp_history_root :: bytes

definition checkpoint_write :: "checkpoint \<Rightarrow> bytes" where
  "checkpoint_write c =
    u64_to_be_bytes (cp_frame c) @ u64_to_be_bytes (cp_view c) @ cp_digest c @ concat (cp_state_roots c) @ cp_history_root c"

definition checkpoint_read :: "checkpoint reader" where
  "checkpoint_read bs =
    rbind (cursor_u64 bs) (\<lambda>(frame, bs).
    rbind (cursor_u64 bs) (\<lambda>(view, bs).
    rbind (cursor_take 32 bs) (\<lambda>(digest, bs).
    rbind (read_many 4 (cursor_take 32) bs) (\<lambda>(state_roots, bs).
    rbind (cursor_take 32 bs) (\<lambda>(history_root, bs).
      Inr (\<lparr>cp_frame = frame, cp_view = view, cp_digest = digest, cp_state_roots = state_roots,
        cp_history_root = history_root\<rparr>, bs))))))"

record seal =
  sl_request :: bytes
  sl_session :: bytes
  sl_view :: u64
  sl_checkpoint :: checkpoint

definition seal_is_encoding :: "bytes \<Rightarrow> bool" where
  "seal_is_encoding bs \<longleftrightarrow> take 4 bs = take 4 SEAL_MAGIC"

definition seal_encode :: "seal \<Rightarrow> bytes" where
  "seal_encode s =
    SEAL_MAGIC @ sl_request s @ sl_session s @ u64_to_be_bytes (sl_view s) @ checkpoint_write (sl_checkpoint s)"

definition read_seal :: "seal reader" where
  "read_seal bs =
    rbind (cursor_magic SEAL_MAGIC bs) (\<lambda>(_, bs).
    rbind (cursor_take 32 bs) (\<lambda>(request, bs).
    rbind (cursor_take 32 bs) (\<lambda>(session, bs).
    rbind (cursor_u64 bs) (\<lambda>(view, bs).
    rbind (checkpoint_read bs) (\<lambda>(cp, bs).
      Inr (\<lparr>sl_request = request, sl_session = session, sl_view = view, sl_checkpoint = cp\<rparr>, bs))))))"

definition seal_decode :: "bytes \<Rightarrow> seal result" where
  "seal_decode = decode_record read_seal"

definition seal_validate_with :: "(bytes \<Rightarrow> bytes) \<Rightarrow> session \<Rightarrow> bytes \<Rightarrow> bool \<Rightarrow> seal \<Rightarrow> unit result" where
  "seal_validate_with sha256 se request base_reseal s =
    rbind (session_id sha256 se) (\<lambda>i.
      if sl_session s \<noteq> i \<or> sl_request s \<noteq> request then Inl InvalidArgument
      else if sl_view s \<le> cp_view (sl_checkpoint s) \<or> cp_frame (sl_checkpoint s) < se_base_frame se then Inl InvalidArgument
      else if cp_frame (sl_checkpoint s) = se_base_frame se then
        (let reseal = base_reseal \<and> se_generation se \<noteq> 0
         in if cp_view (sl_checkpoint s) \<noteq> 0 \<and> \<not> reseal \<or> cp_digest (sl_checkpoint s) \<noteq> se_genesis se
            then Inl InvalidArgument else Inr ())
      else if cp_view (sl_checkpoint s) = 0 then Inl InvalidArgument
      else Inr ())"

definition seal_validate :: "(bytes \<Rightarrow> bytes) \<Rightarrow> session \<Rightarrow> bytes \<Rightarrow> seal \<Rightarrow> unit result" where
  "seal_validate sha256 se request s = seal_validate_with sha256 se request False s"

section \<open>Submissions\<close>

definition TYPE_COMMITTEE_HANDOFF :: u32 where "TYPE_COMMITTEE_HANDOFF = 0x0321"
definition MAX_DRAIN_HEADERS :: nat where "MAX_DRAIN_HEADERS = 8"

record certificate_submission =
  ce_seal :: seal
  ce_certificate :: bytes

definition cert_to_canonical_bytes :: "certificate_submission \<Rightarrow> bytes result" where
  "cert_to_canonical_bytes c =
    rbind (handoff_put_bytes (seal_encode (ce_seal c))) (\<lambda>seal_bytes.
    rbind (handoff_put_bytes (ce_certificate c)) (\<lambda>certificate_bytes.
      let out = u32_to_be_bytes TYPE_COMMITTEE_HANDOFF @ seal_bytes @ certificate_bytes
      in if MAX_RECORD_BYTES < length out then Inl InvalidArgument else Inr out))"

definition read_cert :: "certificate_submission reader" where
  "read_cert bs =
    rbind (cursor_magic (u32_to_be_bytes TYPE_COMMITTEE_HANDOFF) bs) (\<lambda>(_, bs).
    rbind (cursor_bytes MAX_RECORD_BYTES bs) (\<lambda>(b, bs).
    rbind (seal_decode b) (\<lambda>s.
    rbind (cursor_bytes MAX_RECORD_BYTES bs) (\<lambda>(certificate, bs).
      Inr (\<lparr>ce_seal = s, ce_certificate = certificate\<rparr>, bs)))))"

definition cert_from_canonical_bytes :: "bytes \<Rightarrow> certificate_submission result" where
  "cert_from_canonical_bytes = decode_record read_cert"

record seal_submission =
  sb_submission :: certificate_submission
  sb_drain :: "bytes list"

definition put_drain :: "bytes list \<Rightarrow> bytes result" where
  "put_drain drain =
    (if drain \<noteq> [] then
       if MAX_DRAIN_HEADERS < length drain then Inl InvalidArgument
       else rbind (put_all drain) (\<lambda>b. Inr (word_of_nat (length drain) # b))
     else Inr [])"

definition sb_to_canonical_bytes :: "seal_submission \<Rightarrow> bytes result" where
  "sb_to_canonical_bytes s =
    rbind (cert_to_canonical_bytes (sb_submission s)) (\<lambda>cert_bytes.
    rbind (put_drain (sb_drain s)) (\<lambda>drain_bytes.
      let out = cert_bytes @ drain_bytes
      in if MAX_RECORD_BYTES < length out then Inl InvalidArgument else Inr out))"

definition read_drain :: "bytes list reader" where
  "read_drain bs =
    (if bs \<noteq> [] then
       rbind (cursor_u8 bs) (\<lambda>(count, bs).
         if unat count = 0 \<or> MAX_DRAIN_HEADERS < unat count then Inl InvalidArgument
         else read_many (unat count) (cursor_bytes MAX_RECORD_BYTES) bs)
     else Inr ([], bs))"

definition read_sb :: "seal_submission reader" where
  "read_sb bs =
    rbind (read_cert bs) (\<lambda>(submission, bs).
    rbind (read_drain bs) (\<lambda>(drain, bs). Inr (\<lparr>sb_submission = submission, sb_drain = drain\<rparr>, bs)))"

definition sb_from_canonical_bytes :: "bytes \<Rightarrow> seal_submission result" where
  "sb_from_canonical_bytes = decode_record read_sb"

section \<open>Each record has one encoding\<close>

text \<open>The lengths of the fixed arrays, which the types of the source carry.\<close>

definition session_typed :: "session \<Rightarrow> bool" where
  "session_typed s \<longleftrightarrow> length (se_chain_id s) = 32 \<and> length (se_genesis s) = 32 \<and> length (se_authorization s) = 32"

definition checkpoint_typed :: "checkpoint \<Rightarrow> bool" where
  "checkpoint_typed c \<longleftrightarrow> length (cp_digest c) = 32 \<and> length (cp_state_roots c) = 4 \<and>
    list_all (\<lambda>r. length r = 32) (cp_state_roots c) \<and> length (cp_history_root c) = 32"

definition seal_typed :: "seal \<Rightarrow> bool" where
  "seal_typed s \<longleftrightarrow> length (sl_request s) = 32 \<and> length (sl_session s) = 32 \<and> checkpoint_typed (sl_checkpoint s)"

lemma put_all_iff: "put_all xs = Inr bs \<longleftrightarrow> list_all (\<lambda>b. length b < 2 ^ 32) xs \<and> bs = concat (map put_lp xs)"
  by (induction xs arbitrary: bs) (auto simp: result_iff handoff_put_bytes_iff)

interpretation cpt: strict_codec checkpoint_write checkpoint_read checkpoint_typed
proof unfold_locales
  fix bs c bs'
  show "checkpoint_read bs = Inr (c, bs') \<longleftrightarrow> checkpoint_typed c \<and> bs = checkpoint_write c @ bs'"
    by (cases c) (auto simp: checkpoint_read_def checkpoint_write_def checkpoint_typed_def result_iff cursor_iff ctake.many_iff)
qed

interpretation slc: strict_codec seal_encode read_seal seal_typed
proof unfold_locales
  fix bs s bs'
  show "read_seal bs = Inr (s, bs') \<longleftrightarrow> seal_typed s \<and> bs = seal_encode s @ bs'"
    by (cases s) (auto simp: read_seal_def seal_encode_def seal_typed_def result_iff cursor_iff cpt.dec_iff)
qed

lemma length_seal: "seal_typed s \<Longrightarrow> length (seal_encode s) = 285"
proof -
  assume s: "seal_typed s"
  obtain a b c d where "cp_state_roots (sl_checkpoint s) = [a, b, c, d]"
    using s by (auto simp: seal_typed_def checkpoint_typed_def numeral_eq_Suc length_Suc_conv)
  with s show ?thesis
    by (simp add: seal_encode_def checkpoint_write_def seal_typed_def checkpoint_typed_def SEAL_MAGIC_def ascii_def)
qed

lemma seal_decode_iff: "seal_decode bs = Inr s \<longleftrightarrow> seal_typed s \<and> bs = seal_encode s"
  using length_seal [of s] by (auto simp: seal_decode_def slc.record_iff MAX_RECORD_BYTES_def)

lemma neighbours_sorted: "\<not> any_neighbours (\<lambda>a b. b \<le> a) xs \<longleftrightarrow> sorted_wrt (<) xs" for xs :: "'a::linorder list"
  by (induction "\<lambda>a b :: 'a. b \<le> a" xs rule: any_neighbours.induct) (auto simp: not_le dest: order.strict_trans)

definition session_ok :: "session \<Rightarrow> bool" where
  "session_ok s \<longleftrightarrow> session_typed s \<and> 32 \<le> length (se_filter s) \<and> length (se_filter s) \<le> MAX_FILTER_BYTES \<and>
    se_members s \<noteq> [] \<and> length (se_members s) \<le> MAX_MEMBERS \<and> sorted_wrt (<) (se_members s) \<and>
    list_all (\<lambda>key. length key = FALCON_PUBLIC_KEY_LEN) (se_members s)"

lemma session_validate_iff: "session_typed s \<Longrightarrow> session_validate s = Inr () \<longleftrightarrow> session_ok s"
  using neighbours_sorted [of "se_members s"]
  by (auto simp: session_validate_def session_ok_def not_less list_ex_iff list_all_iff)

text \<open>The bytes of a session, without the checks.\<close>

definition session_bytes :: "session \<Rightarrow> bytes" where
  "session_bytes s = SESSION_MAGIC @ se_chain_id s @ put_lp (se_filter s) @ u64_to_be_bytes (se_generation s) @ se_genesis s @
    u64_to_be_bytes (se_base_frame s) @ se_authorization s @ put_list put_lp (se_members s)"

lemma length_keys:
  "list_all (\<lambda>key. length key = FALCON_PUBLIC_KEY_LEN) ks \<Longrightarrow> length (concat (map put_lp ks)) = 901 * length ks"
  by (induction ks) (auto simp: FALCON_PUBLIC_KEY_LEN_def)

lemma length_session: "session_ok s \<Longrightarrow> length (session_bytes s) \<le> MAX_RECORD_BYTES"
  by (auto simp: session_bytes_def session_ok_def session_typed_def put_list_def length_keys SESSION_MAGIC_def ascii_def
      MAX_RECORD_BYTES_def MAX_MEMBERS_def MAX_FILTER_BYTES_def)

lemma session_encode_iff: "session_typed s \<Longrightarrow> session_encode s = Inr bs \<longleftrightarrow> session_ok s \<and> bs = session_bytes s"
  using length_session [of s]
  by (auto simp: session_encode_def result_iff session_validate_iff handoff_put_bytes_iff put_all_iff session_bytes_def put_list_def Let_def
      session_ok_def MAX_FILTER_BYTES_def FALCON_PUBLIC_KEY_LEN_def list_all_iff)

lemma read_session_iff:
  "read_session bs = Inr (s, bs') \<longleftrightarrow>
    session_typed s \<and> length (se_filter s) \<le> MAX_FILTER_BYTES \<and> length (se_members s) \<le> MAX_MEMBERS \<and>
    length (se_members s) \<le> length (concat (map put_lp (se_members s)) @ bs') div 901 \<and>
    list_all (\<lambda>key. length key \<le> FALCON_PUBLIC_KEY_LEN) (se_members s) \<and> bs = session_bytes s @ bs'"
proof -
  have "length b < 2 ^ 32" if "length b \<le> MAX_FILTER_BYTES \<or> length b \<le> FALCON_PUBLIC_KEY_LEN" for b :: bytes
    using that by (auto simp: MAX_FILTER_BYTES_def FALCON_PUBLIC_KEY_LEN_def)
  moreover have "n < 2 ^ 32" if "n \<le> MAX_MEMBERS" for n
    using that by (simp add: MAX_MEMBERS_def)
  ultimately show ?thesis
    by (cases s) (auto simp: read_session_def session_bytes_def session_typed_def put_list_def result_iff cursor_iff
        cbytes.many_iff list_all_iff FALCON_PUBLIC_KEY_LEN_def)
qed

lemma session_decode_iff: "session_decode bs = Inr s \<longleftrightarrow> session_typed s \<and> session_encode s = Inr bs"
proof -
  have "read_session bs = Inr (s, []) \<longleftrightarrow> bs = session_bytes s" if "session_ok s"
    using that by (auto simp: read_session_iff session_ok_def length_keys list_all_iff)
  moreover have "session_typed s" if "read_session bs = Inr (s, bs')" for bs'
    using that by (simp add: read_session_iff)
  ultimately show ?thesis using length_session [of s]
    by (auto simp: session_decode_def decode_record_def cursor_new_def cursor_finish_def result_iff session_encode_iff
        session_validate_iff split: if_splits)
qed

lemma cert_iff:
  "read_cert bs = Inr (c, bs') \<longleftrightarrow> seal_typed (ce_seal c) \<and> length (ce_certificate c) \<le> MAX_RECORD_BYTES \<and>
    bs = u32_to_be_bytes TYPE_COMMITTEE_HANDOFF @ put_lp (seal_encode (ce_seal c)) @ put_lp (ce_certificate c) @ bs'"
proof -
  have "length b < 2 ^ 32" if "length b \<le> MAX_RECORD_BYTES" for b :: bytes
    using that by (simp add: MAX_RECORD_BYTES_def)
  moreover have "length (seal_encode s) \<le> MAX_RECORD_BYTES" if "seal_typed s" for s
    using length_seal [OF that] by (simp add: MAX_RECORD_BYTES_def)
  ultimately show ?thesis
    by (cases c) (auto simp: read_cert_def result_iff cursor_iff seal_decode_iff)
qed

definition drain_ok :: "bytes list \<Rightarrow> bool" where
  "drain_ok d \<longleftrightarrow> length d \<le> MAX_DRAIN_HEADERS \<and> list_all (\<lambda>b. length b \<le> MAX_RECORD_BYTES) d"

definition drain_bytes :: "bytes list \<Rightarrow> bytes" where
  "drain_bytes d = (if d = [] then [] else word_of_nat (length d) # concat (map put_lp d))"

lemma record_small: "length b \<le> MAX_RECORD_BYTES \<Longrightarrow> length b < 2 ^ 32"
  by (simp add: MAX_RECORD_BYTES_def)

lemma put_drain_iff:
  "put_drain d = Inr bs \<longleftrightarrow> length d \<le> MAX_DRAIN_HEADERS \<and> list_all (\<lambda>b. length b < 2 ^ 32) d \<and> bs = drain_bytes d"
  by (auto simp: put_drain_def drain_bytes_def result_iff put_all_iff not_less)

lemma read_drain_iff: "read_drain bs = Inr (d, []) \<longleftrightarrow> drain_ok d \<and> bs = drain_bytes d"
proof (cases "d = []")
  case True
  then show ?thesis
    by (auto simp: read_drain_def drain_ok_def drain_bytes_def result_iff cursor_iff cbytes.many_iff split: if_splits)
next
  case False
  have "unat (word_of_nat (length d) :: byte) = length d" if "length d \<le> MAX_DRAIN_HEADERS"
    using that by (simp add: MAX_DRAIN_HEADERS_def unat_of_nat)
  with False record_small show ?thesis
    by (auto simp: read_drain_def drain_ok_def drain_bytes_def result_iff cursor_iff cbytes.many_iff list_all_iff
        split: if_splits intro: exI [where x = "word_of_nat (length d) :: byte"])
qed

definition sb_bytes :: "seal_submission \<Rightarrow> bytes" where
  "sb_bytes s = u32_to_be_bytes TYPE_COMMITTEE_HANDOFF @ put_lp (seal_encode (ce_seal (sb_submission s))) @
    put_lp (ce_certificate (sb_submission s)) @ drain_bytes (sb_drain s)"

lemma drain_bytes_length: "b \<in> set d \<Longrightarrow> length b \<le> length (drain_bytes d)"
  using member_le_sum_list [of "length (put_lp b)" "map (length \<circ> put_lp) d"]
  by (cases "d = []") (auto simp: drain_bytes_def length_concat comp_def)

lemma sb_encode_iff:
  assumes "seal_typed (ce_seal (sb_submission s))"
  shows "sb_to_canonical_bytes s = Inr bs \<longleftrightarrow> length (sb_drain s) \<le> MAX_DRAIN_HEADERS \<and> bs = sb_bytes s \<and> length bs \<le> MAX_RECORD_BYTES"
    (is "?l \<longleftrightarrow> ?r")
proof
  show "?l \<Longrightarrow> ?r"
    by (auto simp: sb_to_canonical_bytes_def cert_to_canonical_bytes_def result_iff handoff_put_bytes_iff put_drain_iff Let_def
        sb_bytes_def not_less split: if_splits)
  show ?l if ?r
    using that length_seal [OF assms] drain_bytes_length [of _ "sb_drain s"]
    by (fastforce simp: sb_to_canonical_bytes_def cert_to_canonical_bytes_def result_iff handoff_put_bytes_iff put_drain_iff Let_def
        sb_bytes_def list_all_iff MAX_RECORD_BYTES_def)
qed

lemma sb_decode_iff:
  "sb_from_canonical_bytes bs = Inr s \<longleftrightarrow> seal_typed (ce_seal (sb_submission s)) \<and> sb_to_canonical_bytes s = Inr bs"
proof -
  have "read_sb bs = Inr (s, []) \<longleftrightarrow> seal_typed (ce_seal (sb_submission s)) \<and>
      length (ce_certificate (sb_submission s)) \<le> MAX_RECORD_BYTES \<and> drain_ok (sb_drain s) \<and> bs = sb_bytes s"
    by (cases s) (auto simp: read_sb_def result_iff cert_iff read_drain_iff sb_bytes_def)
  moreover have "drain_ok (sb_drain s)" if "length (sb_drain s) \<le> MAX_DRAIN_HEADERS" "length (sb_bytes s) \<le> MAX_RECORD_BYTES"
    using that drain_bytes_length [of _ "sb_drain s"] by (fastforce simp: drain_ok_def list_all_iff sb_bytes_def)
  moreover have "length (ce_certificate (sb_submission s)) \<le> length (sb_bytes s)" by (simp add: sb_bytes_def)
  ultimately show ?thesis
    by (auto simp: sb_from_canonical_bytes_def decode_record_def cursor_new_def cursor_finish_def result_iff sb_encode_iff
        drain_ok_def split: if_splits)
qed

section \<open>Properties\<close>

text \<open>
  C27. Handoff records have exactly one encoding. A session, a seal and a seal submission decode
  from some bytes exactly when those bytes are what their encoder writes: no other bytes decode
  to the same record, everything the encoder accepts is decoded back, and nothing the encoder
  refuses (a session with unsorted, repeated, missing or malformed members, a submission over the
  size limit or with too many drain headers) is decoded.
\<close>

theorem handoff_records_canonical:
  "(session_decode bs = Inr se \<longleftrightarrow> session_typed se \<and> session_encode se = Inr bs) \<and>
   (seal_decode bs = Inr sl \<longleftrightarrow> seal_typed sl \<and> bs = seal_encode sl) \<and>
   (sb_from_canonical_bytes bs = Inr sb \<longleftrightarrow>
     seal_typed (ce_seal (sb_submission sb)) \<and> sb_to_canonical_bytes sb = Inr bs)"
  by (simp add: session_decode_iff seal_decode_iff sb_decode_iff)

lemma session_bytes_inj:
  assumes "session_ok s" "session_ok t" "session_bytes s = session_bytes t"
  shows "s = t"
  using assms session_decode_iff [of "session_bytes s"] session_encode_iff [of s] session_encode_iff [of t]
  by (metis Inr_inject session_ok_def)

lemma session_id_iff:
  "session_typed s \<Longrightarrow> session_id h s = Inr i \<longleftrightarrow> session_ok s \<and> i = h (session_bytes s)"
  by (auto simp: session_id_def result_iff session_encode_iff)

lemma seal_validate_id: "seal_validate_with h se request b sl = Inr () \<Longrightarrow> session_id h se = Inr (sl_session sl) \<and> sl_request sl = request"
  by (auto simp: seal_validate_with_def result_iff split: if_splits)

lemma session_namespace_iff:
  "session_typed s \<Longrightarrow> session_namespace h s = Inr n \<longleftrightarrow> session_ok s \<and>
    n = (if se_generation s = 0 then ascii ''appshard'' @ se_filter s
         else ascii ''quil/app/simplex/session/v1/'' @ h (session_bytes s))"
  by (auto simp: session_namespace_def result_iff session_validate_iff session_id_iff)

text \<open>
  C28. The identifier of a session binds its whole configuration. As long as the hash does not
  collide on the encodings of two sessions, sessions with the same identifier are equal; a seal is
  valid for one request and at most one of them, whether or not re-seals of the base are accepted;
  and they share the namespace that their votes are signed under only if they are equal or are
  both of generation zero with the same shard filter.
\<close>

theorem session_identity:
  assumes "session_typed s" "session_typed t"
    and "sha256 (session_bytes s) = sha256 (session_bytes t) \<Longrightarrow> session_bytes s = session_bytes t"
  shows "(session_id sha256 s = Inr i \<and> session_id sha256 t = Inr i \<longrightarrow> s = t) \<and>
    (seal_validate_with sha256 s r b sl = Inr () \<and> seal_validate_with sha256 t r' b' sl = Inr () \<longrightarrow> s = t \<and> r = r') \<and>
    (session_namespace sha256 s = Inr n \<and> session_namespace sha256 t = Inr n \<longrightarrow>
      s = t \<or> se_generation s = 0 \<and> se_generation t = 0 \<and> se_filter s = se_filter t)"
proof -
  have id: "s = t" if "session_id sha256 s = Inr i" "session_id sha256 t = Inr i" for i
    using that assms session_bytes_inj [of s t] by (simp add: session_id_iff)
  moreover have "s = t \<and> r = r'"
    if "seal_validate_with sha256 s r b sl = Inr ()" "seal_validate_with sha256 t r' b' sl = Inr ()"
    using that [THEN seal_validate_id] id [of "sl_session sl"] by simp
  moreover have "s = t \<or> se_generation s = 0 \<and> se_generation t = 0 \<and> se_filter s = se_filter t"
    if "session_namespace sha256 s = Inr n" "session_namespace sha256 t = Inr n"
    using that assms session_bytes_inj [of s t] by (auto simp: session_namespace_iff ascii_def split: if_splits)
  ultimately show ?thesis by blast
qed

definition example_session :: "u64 \<Rightarrow> session" where
  "example_session g = \<lparr>se_chain_id = replicate 32 1, se_filter = replicate 32 2, se_generation = g, se_genesis = replicate 32 3,
    se_base_frame = 5, se_authorization = replicate 32 4, se_members = [replicate 897 6, replicate 897 7]\<rparr>"

lemma replicate_less: "x < y \<Longrightarrow> 0 < n \<Longrightarrow> replicate n x < replicate n (y :: 'a::order)"
  by (cases n) auto

lemma example_session_ok: "session_ok (example_session g)"
  by (simp add: session_ok_def session_typed_def example_session_def MAX_FILTER_BYTES_def MAX_MEMBERS_def
      FALCON_PUBLIC_KEY_LEN_def replicate_less)

theorem session_identity_witness:
  "let s = example_session 1; t = example_session 2; sha256 = (\<lambda>b. b)
   in session_typed s \<and> session_typed t \<and>
     (\<exists>n. session_namespace sha256 s = Inr n) \<and> (\<exists>n. session_namespace sha256 t = Inr n) \<and>
     session_namespace sha256 s \<noteq> session_namespace sha256 t \<and> session_id sha256 s \<noteq> session_id sha256 t"
proof -
  have ok: "session_ok (example_session 1)" "session_ok (example_session 2)" by (rule example_session_ok)+
  then have typed: "session_typed (example_session 1)" "session_typed (example_session 2)" by (simp_all add: session_ok_def)
  have "example_session 1 \<noteq> example_session 2" "se_generation (example_session 1) \<noteq> 0" by (simp_all add: example_session_def)
  then have "session_namespace (\<lambda>b. b) (example_session 1) = Inr n \<Longrightarrow> session_namespace (\<lambda>b. b) (example_session 2) \<noteq> Inr n"
    "session_id (\<lambda>b. b) (example_session 1) = Inr i \<Longrightarrow> session_id (\<lambda>b. b) (example_session 2) \<noteq> Inr i" for n i
    using session_identity [OF typed, of "\<lambda>b. b"] by blast+
  moreover obtain m n i where "session_namespace (\<lambda>b. b) (example_session 1) = Inr m"
    "session_namespace (\<lambda>b. b) (example_session 2) = Inr n" "session_id (\<lambda>b. b) (example_session 1) = Inr i"
    using ok typed by (simp add: session_namespace_iff session_id_iff)
  ultimately show ?thesis unfolding Let_def using typed by metis
qed

end
