(* ===== verification/ShardPaths.thy ===== *)
theory ShardPaths
  imports HandoffRecords
begin

text \<open>
  The address ranges of shards (\<^verbatim>\<open>quil-forest/src/lib.rs\<close>). A shard covers the addresses of an
  application that begin with its bit path, most significant bit first. The theory holds the wire
  form of a shard filter, the prefixes that the shard tables store, the routing of an address to
  its shard, and the co-path siblings a deep split registers beside its two leaves.
\<close>

section \<open>Bits of a byte string\<close>

definition bit_at :: "bytes \<Rightarrow> nat \<Rightarrow> bool" where
  "bit_at packed i \<longleftrightarrow> drop_bit (7 - i mod 8) (packed ! (i div 8)) AND 1 = 1"

definition div_ceil8 :: "nat \<Rightarrow> nat" where
  "div_ceil8 n = (n + 7) div 8"

definition SHARD_BIT_LEN_BYTES :: nat where "SHARD_BIT_LEN_BYTES = 2"

primrec pack_from :: "bool list \<Rightarrow> nat \<Rightarrow> bytes \<Rightarrow> bytes" where
  "pack_from [] i out = out"
| "pack_from (b # bs) i out =
    pack_from bs (Suc i) (if b then out[i div 8 := out ! (i div 8) OR push_bit (7 - i mod 8) 1] else out)"

definition pack_bits :: "bool list \<Rightarrow> bytes" where
  "pack_bits bit_path = pack_from bit_path 0 (replicate (div_ceil8 (length bit_path)) 0)"

primrec level_bits :: "nat \<Rightarrow> u32 \<Rightarrow> bool list" where
  "level_bits 0 lvl = []"
| "level_bits (Suc i) lvl = (drop_bit i lvl AND 1 = 1) # level_bits i lvl"

definition prefix_to_bits :: "u32 list \<Rightarrow> nat \<Rightarrow> bool list" where
  "prefix_to_bits levels bits_per_level = concat (map (level_bits bits_per_level) levels)"

section \<open>Shard filters\<close>

definition encode_shard_bit_path :: "bytes \<Rightarrow> bool list \<Rightarrow> bytes" where
  "encode_shard_bit_path app bit_path = app @ be_bytes 2 (length bit_path) @ pack_bits bit_path"

definition decode_shard_bit_path :: "bytes \<Rightarrow> nat \<Rightarrow> (bytes \<times> bool list) option" where
  "decode_shard_bit_path filt app_len =
    (if length filt < app_len + SHARD_BIT_LEN_BYTES then None
     else let app = take app_len filt;
              n = be_nat (take SHARD_BIT_LEN_BYTES (drop app_len filt));
              n_bytes = div_ceil8 n
          in if length filt \<noteq> app_len + SHARD_BIT_LEN_BYTES + n_bytes then None
             else let packed = drop (app_len + SHARD_BIT_LEN_BYTES) filt;
                      bits = map (bit_at packed) [0..<n]
                  in if list_ex (bit_at packed) [n..<n_bytes * 8] then None else Some (app, bits))"

definition bit_path_starts_with :: "bool list \<Rightarrow> bool list \<Rightarrow> bool" where
  "bit_path_starts_with child parent \<longleftrightarrow> length parent \<le> length child \<and> take (length parent) child = parent"

definition decode_shard_filter_or_root :: "bytes \<Rightarrow> nat \<Rightarrow> (bytes \<times> bool list) option" where
  "decode_shard_filter_or_root filt app_len =
    (if length filt = app_len then Some (take app_len filt, [])
     else if app_len < length filt \<and> length filt < app_len + SHARD_BIT_LEN_BYTES then
       Some (take app_len filt, prefix_to_bits (map (\<lambda>b. ucast b) (drop app_len filt)) 6)
     else decode_shard_bit_path filt app_len)"

definition shard_filter_extends :: "bytes \<Rightarrow> bytes \<Rightarrow> nat \<Rightarrow> bool" where
  "shard_filter_extends child_filter parent_filter app_len =
    (case (decode_shard_filter_or_root child_filter app_len, decode_shard_filter_or_root parent_filter app_len) of
       (Some (ca, cb), Some (pa, pb)) \<Rightarrow> ca = pa \<and> bit_path_starts_with cb pb
     | _ \<Rightarrow> False)"

definition split_spine_siblings :: "bool list \<Rightarrow> bool list \<Rightarrow> bool list list" where
  "split_spine_siblings parent branch =
    map (\<lambda>i. take i branch @ [\<not> branch ! i]) [length parent..<length branch]"

definition BIT_PATH_PREFIX_SENTINEL :: u32 where "BIT_PATH_PREFIX_SENTINEL = 0xFFFFFFFF"

definition bit_path_to_prefix :: "bool list \<Rightarrow> u32 list" where
  "bit_path_to_prefix bit_path = BIT_PATH_PREFIX_SENTINEL # map of_bool bit_path"

definition genesis_grid_prefixes :: "byte \<Rightarrow> u32 list list" where
  "genesis_grid_prefixes network =
    (if network = 0 then map (\<lambda>i. bit_path_to_prefix (prefix_to_bits [word_of_nat i] 6)) [0..<64] else [[]])"

fun levels_to_bits :: "u32 list \<Rightarrow> bool list option" where
  "levels_to_bits [] = Some []"
| "levels_to_bits (lvl # rest) =
    (if lvl = 0 then map_option ((#) False) (levels_to_bits rest)
     else if lvl = 1 then map_option ((#) True) (levels_to_bits rest)
     else None)"

fun shard_bit_path_from_prefix :: "u32 list \<Rightarrow> bool list option" where
  "shard_bit_path_from_prefix [] = None"
| "shard_bit_path_from_prefix (h # rest) = (if h \<noteq> BIT_PATH_PREFIX_SENTINEL then None else levels_to_bits rest)"

definition shard_prefix_to_filter :: "bytes \<Rightarrow> u32 list \<Rightarrow> bytes" where
  "shard_prefix_to_filter l2 levels =
    (case shard_bit_path_from_prefix levels of
       Some bits \<Rightarrow> encode_shard_bit_path l2 bits
     | None \<Rightarrow> l2 @ map (\<lambda>p. ucast p) levels)"

section \<open>Legacy prefixes\<close>

text \<open>
  The bit paths of a complete set of legacy prefixes: each level with \<open>n\<close> distinct values among
  siblings is a split of \<open>log n\<close> bits. Active indices address the prefix list.
\<close>

fun bit_len :: "nat \<Rightarrow> nat" where
  "bit_len n = (if n = 0 then 0 else Suc (bit_len (n div 2)))"

declare bit_len.simps [simp del]

definition level_values :: "u32 list list \<Rightarrow> nat list \<Rightarrow> nat \<Rightarrow> u32 list" where
  "level_values pres continuing depth = sort (remdups (map (\<lambda>i. pres ! i ! depth) continuing))"

definition level_partition :: "u32 list \<Rightarrow> nat \<times> (u32 \<Rightarrow> u32)" where
  "level_partition vs =
    (let n = length vs in
     if n \<le> 1 then (0, \<lambda>v. 0)
     else let width = bit_len (n - 1);
              is_dense = (vs = map word_of_nat [0..<n]);
              scale = max (256 div n) 1
          in (width, \<lambda>v. if is_dense then v else v div word_of_nat scale))"

function canonical_bit_paths_rec :: "u32 list list \<Rightarrow> nat list \<Rightarrow> nat \<Rightarrow> bool list list \<Rightarrow> bool list list" where
  "canonical_bit_paths_rec pres active depth out =
    (let continuing = filter (\<lambda>i. i < length pres \<and> depth < length (pres ! i)) active in
     if continuing = [] then out
     else let vs = level_values pres continuing depth;
              (width, index) = level_partition vs
          in fold (\<lambda>v out.
               let group = filter (\<lambda>i. pres ! i ! depth = v) continuing in
               canonical_bit_paths_rec pres group (depth + 1)
                 (fold (\<lambda>i out. out[i := out ! i @ level_bits width (index v)]) group out)) vs out)"
  by pat_completeness auto
termination
proof (relation "measure (\<lambda>(pres, active, depth, out). Max (insert 0 (length ` set pres)) - depth)", simp)
  fix pres active depth out continuing vs p width index v out' group
  assume "continuing = filter (\<lambda>i. i < length pres \<and> depth < length (pres ! i)) active" "continuing \<noteq> []"
  then obtain i where "i < length pres" "depth < length (pres ! i)" by (auto simp: filter_empty_conv)
  then have "depth < Max (insert 0 (length ` set pres))"
    by (meson Max_ge finite.insertI finite_imageI finite_set imageI insertI2 less_le_trans nth_mem)
  then show "((pres, group, depth + 1, fold (\<lambda>i out. out[i := out ! i @ level_bits width (index v)]) group out'),
      pres, active, depth, out) \<in> measure (\<lambda>(pres, active, depth, out). Max (insert 0 (length ` set pres)) - depth)"
    by simp
qed

declare canonical_bit_paths_rec.simps [simp del]

definition canonical_shard_bit_paths :: "u32 list list \<Rightarrow> bool list list" where
  "canonical_shard_bit_paths pres =
    canonical_bit_paths_rec pres [0..<length pres] 0 (replicate (length pres) [])"

lemma octal_canonical:
  "canonical_shard_bit_paths [[0, 0], [32, 0], [64, 0], [96, 0], [128, 0], [160, 0], [192, 0], [224, 0]] =
   map (\<lambda>i. prefix_to_bits [i] 3) [0, 1, 2, 3, 4, 5, 6, 7]"
  by code_simp

section \<open>Routing\<close>

definition addr_bit :: "bytes \<Rightarrow> nat \<Rightarrow> bool" where
  "addr_bit data i = (if i div 8 < length data then bit_at data i else False)"

definition addr_has_bit_prefix :: "bytes \<Rightarrow> bool list \<Rightarrow> bool" where
  "addr_has_bit_prefix data path = list_all (\<lambda>(i, want). addr_bit data i = want) (List.enumerate 0 path)"

primrec position :: "('a \<Rightarrow> bool) \<Rightarrow> 'a list \<Rightarrow> nat option" where
  "position P [] = None"
| "position P (x # xs) = (if P x then Some 0 else map_option Suc (position P xs))"

definition address_shard_index :: "bytes \<Rightarrow> bool list list \<Rightarrow> nat" where
  "address_shard_index data_addr bit_paths =
    (case position (addr_has_bit_prefix data_addr) bit_paths of Some i \<Rightarrow> i | None \<Rightarrow> 0)"

definition shard_index :: "bytes \<Rightarrow> nat \<Rightarrow> u32" where
  "shard_index address shard_depth =
    foldl (\<lambda>idx i. push_bit 1 idx OR of_bool (addr_bit address i)) 0 [0..<shard_depth]"

section \<open>Packing bits\<close>

lemma bit_at_iff: "bit_at packed i \<longleftrightarrow> bit (packed ! (i div 8)) (7 - i mod 8)"
  by (simp add: bit_at_def bit_iff_odd_drop_bit and_one_eq odd_iff_mod_2_eq_one)

lemma length_pack_from [simp]: "length (pack_from bs i out) = length out"
  by (induction bs arbitrary: i out) auto

lemma length_pack_bits [simp]: "length (pack_bits bs) = div_ceil8 (length bs)"
  by (simp add: pack_bits_def)

lemma byte_pos: "j div 8 = i div 8 \<Longrightarrow> j mod 8 = i mod 8 \<Longrightarrow> j = i" for i j :: nat
  by (metis div_mult_mod_eq)

lemma bit_single: "bit (push_bit (7 - i mod 8) 1 :: byte) (7 - j mod 8) \<longleftrightarrow> j mod 8 = i mod 8" for i j :: nat
proof -
  have "i mod 8 < 8" "j mod 8 < 8" by simp_all
  then show ?thesis by (simp add: bit_exp_iff) linarith
qed

lemma bit_pack_from:
  assumes "i + length bs \<le> 8 * length out" "j < 8 * length out"
  shows "bit_at (pack_from bs i out) j \<longleftrightarrow> bit_at out j \<or> (i \<le> j \<and> j < i + length bs \<and> bs ! (j - i))"
  using assms
proof (induction bs arbitrary: i out)
  case Nil
  then show ?case by auto
next
  case (Cons b bs)
  define out' where "out' = (if b then out[i div 8 := out ! (i div 8) OR push_bit (7 - i mod 8) 1] else out)"
  have len: "length out' = length out" by (simp add: out'_def)
  have i: "i div 8 < length out" using Cons.prems by auto
  have "bit (push_bit (7 - i mod 8) 1 :: byte) (7 - j mod 8) \<longleftrightarrow> j mod 8 = i mod 8"
    by (rule bit_single)
  then have set: "bit_at out' j \<longleftrightarrow> bit_at out j \<or> (j = i \<and> b)"
    using i byte_pos [of j i] by (auto simp: out'_def bit_at_iff nth_list_update bit_or_iff)
  have "bit_at (pack_from (b # bs) i out) j \<longleftrightarrow> bit_at (pack_from bs (Suc i) out') j" by (simp add: out'_def)
  also have "\<dots> \<longleftrightarrow> bit_at out' j \<or> (Suc i \<le> j \<and> j < Suc i + length bs \<and> bs ! (j - Suc i))"
    using Cons.prems len by (intro Cons.IH) auto
  also have "\<dots> \<longleftrightarrow> bit_at out j \<or> (i \<le> j \<and> j < i + length (b # bs) \<and> (b # bs) ! (j - i))"
    unfolding set by (cases "j = i") (auto simp: nth_Cons' Suc_diff_le less_eq_Suc_le)
  finally show ?case .
qed

lemma div_ceil8_bound: "n \<le> 8 * div_ceil8 n" "8 * div_ceil8 n \<le> n + 7"
  by (auto simp: div_ceil8_def)

lemma bit_pack_bits:
  "j < 8 * div_ceil8 (length bs) \<Longrightarrow> bit_at (pack_bits bs) j \<longleftrightarrow> j < length bs \<and> bs ! j"
  using bit_pack_from [of 0 bs "replicate (div_ceil8 (length bs)) 0" j] div_ceil8_bound [of "length bs"]
  by (auto simp: pack_bits_def bit_at_iff)

lemma bytes_eq_bits:
  assumes "length as = length bs" "\<And>j. j < 8 * length as \<Longrightarrow> bit_at as j \<longleftrightarrow> bit_at bs j"
  shows "as = bs"
proof (rule nth_equalityI)
  fix k assume k: "k < length as"
  show "as ! k = bs ! k"
  proof (rule bit_word_eqI)
    fix n assume n: "n < LENGTH(8)"
    with k have "8 * k + (7 - n) < 8 * length as" by simp
    from assms(2) [OF this] n show "bit (as ! k) n \<longleftrightarrow> bit (bs ! k) n"
      by (simp add: bit_at_iff)
  qed
qed (rule assms(1))

section \<open>Filters and bit paths\<close>

lemma length_level_bits [simp]: "length (level_bits n lvl) = n"
  by (induction n) auto

lemma decode_encode_shard_bit_path:
  assumes "length bits < 65536"
  shows "decode_shard_bit_path (encode_shard_bit_path app bits) (length app) = Some (app, bits)"
proof -
  have n: "be_nat (be_bytes 2 (length bits)) = length bits"
    using assms by (simp add: be_nat_be_bytes)
  have "map (bit_at (pack_bits bits)) [0..<length bits] = bits"
    using div_ceil8_bound [of "length bits"] by (intro nth_equalityI) (auto simp: bit_pack_bits)
  moreover have "\<not> list_ex (bit_at (pack_bits bits)) [length bits..<div_ceil8 (length bits) * 8]"
    by (auto simp: list_ex_iff bit_pack_bits)
  ultimately show ?thesis
    by (simp add: decode_shard_bit_path_def encode_shard_bit_path_def SHARD_BIT_LEN_BYTES_def n Let_def)
qed

lemma decode_shard_bit_path_sound:
  assumes "decode_shard_bit_path filt n = Some (app, bits)"
  shows "length app = n \<and> length bits < 65536 \<and> filt = encode_shard_bit_path app bits"
proof -
  define m where "m = be_nat (take 2 (drop n filt))"
  define packed where "packed = drop 2 (drop n filt)"
  have "packed = drop (n + 2) filt" by (simp add: packed_def add.commute)
  with assms have "(if length filt < n + 2 then None else if length filt \<noteq> n + 2 + div_ceil8 m then None
      else if list_ex (bit_at packed) [m..<div_ceil8 m * 8] then None
      else Some (take n filt, map (bit_at packed) [0..<m])) = Some (app, bits)"
    by (simp only: decode_shard_bit_path_def SHARD_BIT_LEN_BYTES_def m_def Let_def)
  then have dec: "n + 2 \<le> length filt" "length filt = n + 2 + div_ceil8 m" "app = take n filt"
    "bits = map (bit_at packed) [0..<m]" "\<not> list_ex (bit_at packed) [m..<div_ceil8 m * 8]"
    by (simp_all split: if_split_asm)
  have two: "length (take 2 (drop n filt)) = 2" using dec(1) by simp
  with be_nat_bound [of "take 2 (drop n filt)"] have m: "m < 65536" by (simp add: m_def)
  from two be_bytes_be_nat [of "take 2 (drop n filt)"] have hdr: "be_bytes 2 m = take 2 (drop n filt)"
    by (simp add: m_def)
  have "pack_bits bits = packed"
  proof (rule bytes_eq_bits)
    show "length (pack_bits bits) = length packed" using dec by (simp add: packed_def)
  next
    fix j assume "j < 8 * length (pack_bits bits)"
    with dec(4,5) show "bit_at (pack_bits bits) j \<longleftrightarrow> bit_at packed j"
      by (auto simp: bit_pack_bits list_ex_iff)
  qed
  moreover have "filt = take n filt @ take 2 (drop n filt) @ packed"
    unfolding packed_def append_take_drop_id ..
  ultimately show ?thesis using dec(1,3,4) m hdr by (simp add: encode_shard_bit_path_def)
qed

lemma decode_shard_bit_path_iff:
  "decode_shard_bit_path filt n = Some (app, bits) \<longleftrightarrow>
    length app = n \<and> length bits < 65536 \<and> filt = encode_shard_bit_path app bits"
  using decode_shard_bit_path_sound decode_encode_shard_bit_path by blast

lemma levels_to_bits_iff: "levels_to_bits ls = Some bits \<longleftrightarrow> ls = map of_bool bits"
  by (induction ls arbitrary: bits) (auto simp: Cons_eq_map_conv)

lemma shard_bit_path_from_prefix_iff: "shard_bit_path_from_prefix p = Some bits \<longleftrightarrow> p = bit_path_to_prefix bits"
  by (cases p) (auto simp: bit_path_to_prefix_def levels_to_bits_iff)

lemma bit_path_starts_with_iff: "bit_path_starts_with child parent \<longleftrightarrow> prefix parent child"
  by (auto simp: bit_path_starts_with_def prefix_def) (metis append_take_drop_id)

text \<open>The first \<open>n\<close> bits of an address; those past its end read as zero.\<close>

definition addr_bits :: "bytes \<Rightarrow> nat \<Rightarrow> bool list" where
  "addr_bits data n = map (addr_bit data) [0..<n]"

lemma length_addr_bits [simp]: "length (addr_bits data n) = n"
  by (simp add: addr_bits_def)

lemma addr_has_bit_prefix_iff: "addr_has_bit_prefix data path \<longleftrightarrow> addr_bits data (length path) = path"
  using list_eq_iff_nth_eq [of "addr_bits data (length path)" path]
  by (simp add: addr_has_bit_prefix_def addr_bits_def list_all_length nth_enumerate_eq)

lemma addr_bits_prefix: "m \<le> n \<Longrightarrow> prefix (addr_bits data m) (addr_bits data n)"
  using upt_add_eq_append [of 0 m "n - m"] by (simp add: addr_bits_def)

lemma addr_prefix_iff: "length path \<le> n \<Longrightarrow> addr_has_bit_prefix data path \<longleftrightarrow> prefix path (addr_bits data n)"
  using addr_bits_prefix [of "length path" n data]
  by (metis addr_has_bit_prefix_iff length_addr_bits prefix_length_prefix prefix_order.dual_order.refl
      prefix_order.eq_iff order_refl)

lemma position_Some: "position P xs = Some i \<longleftrightarrow> i < length xs \<and> P (xs ! i) \<and> (\<forall>j<i. \<not> P (xs ! j))"
proof (induction xs arbitrary: i)
  case (Cons x xs)
  then show ?case by (cases i) (auto simp: All_less_Suc2)
qed simp

lemma position_None: "position P xs = None \<longleftrightarrow> (\<forall>x \<in> set xs. \<not> P x)"
  by (induction xs) auto

end
