(* ===== verification/ShardRanges.thy ===== *)
theory ShardRanges
  imports ShardPaths "HOL-Library.While_Combinator"
begin

text \<open>
  The comparison of shard sets by the addresses they cover (\<^verbatim>\<open>partition\<close> of
  \<^verbatim>\<open>global_intrinsic/handoff.rs\<close>), which a committee transition uses to check that its sources and
  its targets cover the same range. The ordered set of bit paths is a strictly increasing list.
\<close>

section \<open>Partitions\<close>

text \<open>The first path, in order, that ends in a zero bit and whose sibling is in the set too.\<close>

definition sibling_of :: "bool list list \<Rightarrow> bool list \<Rightarrow> (bool list \<times> bool list) option" where
  "sibling_of paths path =
    (if path = [] \<or> last path then None
     else let sibling = butlast path @ [True] in if sibling \<in> set paths then Some (path, sibling) else None)"

primrec find_map :: "('a \<Rightarrow> 'b option) \<Rightarrow> 'a list \<Rightarrow> 'b option" where
  "find_map f [] = None"
| "find_map f (x # xs) = (case f x of None \<Rightarrow> find_map f xs | Some y \<Rightarrow> Some y)"

definition sibling_pair :: "bool list list \<Rightarrow> (bool list \<times> bool list) option" where
  "sibling_pair paths = find_map (sibling_of paths) paths"

definition merge_step :: "bool list list \<Rightarrow> bool list list" where
  "merge_step paths =
    (case sibling_pair paths of
       None \<Rightarrow> paths
     | Some (left, right) \<Rightarrow> insort_insert (butlast left) (remove1 right (remove1 left paths)))"

lemma sibling_pair_Some:
  "sibling_pair paths = Some (l, r) \<Longrightarrow> \<exists>q. l = q @ [False] \<and> r = q @ [True] \<and> l \<in> set paths \<and> r \<in> set paths"
proof -
  have "find_map f xs = Some y \<Longrightarrow> \<exists>x \<in> set xs. f x = Some y" for f :: "bool list \<Rightarrow> (bool list \<times> bool list) option" and xs y
    by (induction xs) (auto split: option.splits)
  moreover assume "sibling_pair paths = Some (l, r)"
  ultimately obtain x where x: "x \<in> set paths" "sibling_of paths x = Some (l, r)"
    unfolding sibling_pair_def by blast
  then have "x = butlast x @ [False]" by (metis (full_types) append_butlast_last_id option.distinct(1) sibling_of_def)
  with x show ?thesis by (intro exI [of _ "butlast x"]) (auto simp: sibling_of_def Let_def split: if_splits)
qed

lemma sibling_pair_None:
  "sibling_pair paths = None \<longleftrightarrow> (\<forall>q. \<not> (q @ [False] \<in> set paths \<and> q @ [True] \<in> set paths))"
proof -
  have None: "find_map f xs = None \<longleftrightarrow> (\<forall>x \<in> set xs. f x = None)" for f :: "bool list \<Rightarrow> (bool list \<times> bool list) option" and xs
    by (induction xs) (auto split: option.splits)
  have "sibling_of paths (q @ [False]) \<noteq> None" if "q @ [True] \<in> set paths" for q
    using that by (simp add: sibling_of_def Let_def)
  then have "sibling_pair paths \<noteq> None" if "q @ [False] \<in> set paths" "q @ [True] \<in> set paths" for q
    using that unfolding sibling_pair_def None by blast
  moreover have "\<exists>q. q @ [False] \<in> set paths \<and> q @ [True] \<in> set paths" if "sibling_pair paths = Some lr" for lr
    using that sibling_pair_Some [of paths "fst lr" "snd lr"] by auto
  ultimately show ?thesis by (cases "sibling_pair paths") auto
qed

lemma length_merge_step: "sibling_pair paths = Some (l, r) \<Longrightarrow> length (merge_step paths) < length paths"
proof -
  assume s: "sibling_pair paths = Some (l, r)"
  from sibling_pair_Some [OF this] have lr: "l \<in> set paths" "r \<in> set paths" "l \<noteq> r" by auto
  then have "length (remove1 r (remove1 l paths)) = length paths - 2" by (simp add: length_remove1)
  moreover have "0 < length (remove1 l paths)" using lr by (metis in_set_remove1 length_pos_if_in_set)
  ultimately show ?thesis using s lr(1)
    by (auto simp: merge_step_def insort_insert_key_def length_remove1)
qed

function reduce_paths :: "bool list list \<Rightarrow> bool list list" where
  "reduce_paths paths = (case sibling_pair paths of None \<Rightarrow> paths | Some _ \<Rightarrow> reduce_paths (merge_step paths))"
  by pat_completeness auto
termination
  by (relation "measure length") (auto intro: length_merge_step)

declare reduce_paths.simps [simp del]

primrec collect_paths :: "bytes \<Rightarrow> bytes list \<Rightarrow> bool list list \<Rightarrow> bool list list result" where
  "collect_paths app [] paths = Inr paths"
| "collect_paths app (filt # rest) paths =
    (if \<not> (32 \<le> length filt \<and> take 32 filt = app) then Inl InvalidArgument
     else if length filt = 33 \<and> 64 \<le> filt ! 32 then Inl InvalidArgument
     else case decode_shard_filter_or_root filt 32 of
       None \<Rightarrow> Inl InvalidArgument
     | Some (_, path) \<Rightarrow>
         if 256 < length path \<or> path \<in> set paths then Inl InvalidArgument
         else collect_paths app rest (insort_insert path paths))"

definition partition :: "bytes list \<Rightarrow> (bytes \<times> bool list list) result" where
  "partition filters =
    (case filters of
       [] \<Rightarrow> Inl InvalidArgument
     | first # _ \<Rightarrow>
         if length first < 32 then Inl InvalidArgument
         else let app = take 32 first in
           rbind (collect_paths app filters []) (\<lambda>paths.
             if any_neighbours (\<lambda>a b. take (length a) b = a) paths then Inl InvalidArgument
             else Inr (app, reduce_paths paths)))"

section \<open>Sets of bit paths\<close>

text \<open>The strings of \<open>n\<close> bits that begin with a path of the set, and the sets without overlaps.\<close>

definition cover :: "nat \<Rightarrow> bool list set \<Rightarrow> bool list set" where
  "cover n S = {x. length x = n \<and> (\<exists>p \<in> S. prefix p x)}"

definition prefix_free :: "bool list set \<Rightarrow> bool" where
  "prefix_free S \<longleftrightarrow> (\<forall>p \<in> S. \<forall>q \<in> S. prefix p q \<longrightarrow> p = q)"

definition reduced :: "bool list set \<Rightarrow> bool" where
  "reduced S \<longleftrightarrow> (\<forall>q. \<not> (q @ [False] \<in> S \<and> q @ [True] \<in> S))"

lemma prefix_snoc_bit: "length x = n \<Longrightarrow> length q < n \<Longrightarrow> prefix q x \<longleftrightarrow> prefix (q @ [False]) x \<or> prefix (q @ [True]) x"
proof -
  assume len: "length x = n" "length q < n"
  have "prefix (q @ [False]) x \<or> prefix (q @ [True]) x" if "prefix q x"
  proof -
    from that obtain zs where zs: "x = q @ zs" by (auto simp: prefix_def)
    with len obtain b zs' where "zs = b # zs'" by (cases zs) auto
    with zs show ?thesis by (cases b) simp_all
  qed
  then show ?thesis by (auto dest: append_prefixD)
qed

lemma full_below:
  assumes "reduced S" "length q \<le> n" "\<And>x. length x = n \<Longrightarrow> prefix q x \<Longrightarrow> x \<in> cover n S"
  shows "\<exists>p \<in> S. prefix p q"
  using assms(2,3)
proof (induction "n - length q" arbitrary: q)
  case 0
  then show ?case by (auto simp: cover_def)
next
  case (Suc k)
  have "\<exists>p \<in> S. prefix p (q @ [b])" for b
    using Suc.hyps(2) Suc.prems(2) append_prefixD [of q "[b]"] by (intro Suc.hyps(1)) auto
  then obtain p p' where p: "p \<in> S" "prefix p (q @ [False])" "p' \<in> S" "prefix p' (q @ [True])" by metis
  with assms(1) have "p \<noteq> q @ [False] \<or> p' \<noteq> q @ [True]" by (auto simp: reduced_def)
  with p show ?case by (auto simp: prefix_snoc)
qed

lemma cover_subset:
  assumes "reduced S" "\<forall>p \<in> T. length p \<le> n" "cover n T \<subseteq> cover n S" "p \<in> T"
  shows "\<exists>q \<in> S. prefix q p"
  using assms by (intro full_below [of S p n]) (auto simp: cover_def)

lemma cover_canonical:
  assumes "reduced S" "prefix_free S" "\<forall>p \<in> S. length p \<le> n"
    and "reduced T" "prefix_free T" "\<forall>p \<in> T. length p \<le> n"
    and "cover n S = cover n T"
  shows "S = T"
proof -
  have "A \<subseteq> B" if AB: "reduced A" "reduced B" "prefix_free A" "\<forall>p \<in> A. length p \<le> n" "\<forall>p \<in> B. length p \<le> n" "cover n A = cover n B" for A B
  proof
    fix p assume p: "p \<in> A"
    then obtain q where q: "q \<in> B" "prefix q p" using cover_subset [of B A n p] AB by auto
    then obtain r where r: "r \<in> A" "prefix r q" using cover_subset [of A B n q] AB by auto
    with p q AB(3) have "r = p" by (meson prefix_free_def prefix_order.trans)
    with q r show "p \<in> B" using prefix_order.antisym by metis
  qed
  with assms show ?thesis by (metis subset_antisym)
qed

lemma prefix_free_unique: "prefix_free S \<Longrightarrow> p \<in> S \<Longrightarrow> q \<in> S \<Longrightarrow> prefix p x \<Longrightarrow> prefix q x \<Longrightarrow> p = q"
  using prefix_same_cases [of p x q] by (auto simp: prefix_free_def)

section \<open>What the loop computes\<close>

lemma between_prefix: "p \<le> x \<Longrightarrow> x \<le> q \<Longrightarrow> prefix p q \<Longrightarrow> prefix p x" for p x q :: "bool list"
proof (induction p arbitrary: x q)
  case (Cons a p)
  from Cons.prems(3) obtain q' where q: "q = a # q'" "prefix p q'" by (cases q) auto
  from Cons.prems(1) obtain b x' where x: "x = b # x'" by (cases x) auto
  from Cons.prems q x have "a = b" "p \<le> x'" "x' \<le> q'" by auto
  with Cons.IH q x show ?case by auto
qed simp

lemma prefix_le: "prefix x p \<Longrightarrow> x \<le> p" for x p :: "'a::order list"
  by (induction x arbitrary: p) (auto simp: prefix_def)

lemma neighbours_prefix_free:
  "sorted_wrt (<) ps \<Longrightarrow> \<not> any_neighbours (\<lambda>a b. take (length a) b = a) ps \<longleftrightarrow> prefix_free (set ps)"
proof (induction ps)
  case (Cons p ps)
  have P: "take (length a) b = a \<longleftrightarrow> prefix a b" for a b :: "bool list"
    by (metis append_eq_conv_conj prefix_def)
  show ?case
  proof (cases ps)
    case (Cons q qs)
    have "prefix p q" if "prefix p x" "x \<in> set ps" for x
      using that Cons.prems \<open>ps = q # qs\<close> between_prefix [of p q x] by (auto simp: less_imp_le)
    moreover have "\<not> prefix x p" if "x \<in> set ps" for x
      using that Cons.prems prefix_le [of x p] by auto
    ultimately show ?thesis using Cons.IH Cons.prems \<open>ps = q # qs\<close>
      by (auto simp: P prefix_free_def)
  qed (simp add: prefix_free_def)
qed (simp add: prefix_free_def)

text \<open>The sets the loop works on: strictly increasing, without overlaps, of paths of at most \<open>n\<close> bits.\<close>

definition ranges_ok :: "nat \<Rightarrow> bool list list \<Rightarrow> bool" where
  "ranges_ok n ps \<longleftrightarrow> sorted_wrt (<) ps \<and> prefix_free (set ps) \<and> (\<forall>p \<in> set ps. length p \<le> n)"

lemma strict_insort: "sorted_wrt (<) (insort_insert x ps)" if "sorted_wrt (<) ps" for x :: "'a::linorder"
  using that by (simp add: strict_sorted_iff sorted_insort_insert distinct_insort_insert)

lemma prefix_free_merge:
  assumes "prefix_free S" "q @ [False] \<in> S" "q @ [True] \<in> S"
  shows "prefix_free (insert q (S - {q @ [False], q @ [True]}))"
proof -
  have up: False if "prefix p q" "p \<in> S" for p
  proof -
    from that(1) have "prefix p (q @ [False])" by (rule prefix_prefix)
    with assms(1,2) that(2) have "p = q @ [False]" by (auto simp: prefix_free_def)
    with that(1) show False by (auto dest: prefix_length_le)
  qed
  have down: "p \<in> {q @ [False], q @ [True]}" if "prefix q p" "p \<in> S" for p
  proof -
    have "p \<noteq> q" using up [of p] that by auto
    with that(1) obtain b zs where "p = (q @ [b]) @ zs" by (metis append.assoc append_Cons append_Nil neq_Nil_conv prefix_def append_Nil2)
    then have "prefix (q @ [b]) p" by simp
    with assms that(2) show ?thesis by (cases b) (auto simp: prefix_free_def)
  qed
  show ?thesis
    using assms(1) up down unfolding prefix_free_def by blast
qed

lemma cover_merge:
  assumes "length q < n" "q @ [False] \<in> S" "q @ [True] \<in> S"
  shows "cover n (insert q (S - {q @ [False], q @ [True]})) = cover n S"
  using assms prefix_snoc_bit [of _ n q] by (auto simp: cover_def)

lemma merge_step_ok:
  assumes "ranges_ok n ps" "sibling_pair ps = Some (l, r)"
  shows "ranges_ok n (merge_step ps) \<and> cover n (set (merge_step ps)) = cover n (set ps)"
proof -
  from sibling_pair_Some [OF assms(2)] obtain q
    where q: "l = q @ [False]" "r = q @ [True]" "q @ [False] \<in> set ps" "q @ [True] \<in> set ps" by auto
  have d: "distinct ps" "sorted ps" using assms(1) by (auto simp: ranges_ok_def strict_sorted_iff)
  then have set: "set (merge_step ps) = insert q (set ps - {q @ [False], q @ [True]})"
    by (auto simp: merge_step_def assms(2) q set_insort_insert)
  have len: "length q < n" using q assms(1) by (auto simp: ranges_ok_def)
  have "sorted_wrt (<) (merge_step ps)"
    using d by (simp add: merge_step_def assms(2) strict_insort strict_sorted_iff sorted_insort_insert distinct_insort_insert sorted_remove1)
  with assms(1) q len show ?thesis
    by (auto simp: ranges_ok_def set prefix_free_merge cover_merge)
qed

lemma reduce_paths_ok:
  "ranges_ok n ps \<Longrightarrow> ranges_ok n (reduce_paths ps) \<and> reduced (set (reduce_paths ps)) \<and>
    cover n (set (reduce_paths ps)) = cover n (set ps)"
proof (induction ps rule: reduce_paths.induct)
  case (1 ps)
  show ?case
  proof (cases "sibling_pair ps")
    case None
    then have "reduced (set ps)" by (simp add: reduced_def sibling_pair_None)
    with None 1 show ?thesis by (simp add: reduce_paths.simps [of ps])
  next
    case (Some lr)
    then obtain l r where lr: "sibling_pair ps = Some (l, r)" by (cases lr) auto
    with 1 merge_step_ok [of n ps l r] show ?thesis by (simp add: reduce_paths.simps [of ps])
  qed
qed

lemma reduce_paths_eq_iff:
  assumes "ranges_ok n ps" "ranges_ok n qs"
  shows "reduce_paths ps = reduce_paths qs \<longleftrightarrow> cover n (set ps) = cover n (set qs)"
proof
  assume "cover n (set ps) = cover n (set qs)"
  moreover have ps: "ranges_ok n (reduce_paths ps)" "reduced (set (reduce_paths ps))" "cover n (set (reduce_paths ps)) = cover n (set ps)"
    and qs: "ranges_ok n (reduce_paths qs)" "reduced (set (reduce_paths qs))" "cover n (set (reduce_paths qs)) = cover n (set qs)"
    using reduce_paths_ok assms by blast+
  ultimately have "set (reduce_paths ps) = set (reduce_paths qs)"
    using cover_canonical [of "set (reduce_paths ps)" n "set (reduce_paths qs)"] unfolding ranges_ok_def by simp
  with ps(1) qs(1) show "reduce_paths ps = reduce_paths qs"
    unfolding ranges_ok_def strict_sorted_iff by (simp add: sorted_distinct_set_unique)
qed (metis assms reduce_paths_ok)

lemma while_reduce:
  "while_option (\<lambda>paths. sibling_pair paths \<noteq> None) merge_step ps = Some (reduce_paths ps)"
proof (induction ps rule: reduce_paths.induct)
  case (1 ps)
  then show ?case
    by (cases "sibling_pair ps") (auto simp: reduce_paths.simps [of ps] while_option_unfold [of _ _ ps])
qed

section \<open>What a partition stands for\<close>

text \<open>The addresses of a set of filters: the application and the bytes of the data address.\<close>

definition filter_covers :: "bytes \<Rightarrow> bytes \<Rightarrow> bytes \<Rightarrow> bool" where
  "filter_covers filt app data \<longleftrightarrow>
    (case decode_shard_filter_or_root filt 32 of Some (a, path) \<Rightarrow> a = app \<and> addr_has_bit_prefix data path | None \<Rightarrow> False)"

definition address_range :: "bytes list \<Rightarrow> (bytes \<times> bytes) set" where
  "address_range filters = {(app, data). length data = 32 \<and> (\<exists>f \<in> set filters. filter_covers f app data)}"

text \<open>The bit path of a filter.\<close>

definition filter_path :: "bytes \<Rightarrow> bool list" where
  "filter_path filt = (case decode_shard_filter_or_root filt 32 of Some (_, path) \<Rightarrow> path | None \<Rightarrow> [])"

lemma collect_paths_iff:
  "collect_paths app fs ps = Inr qs \<longleftrightarrow>
    (\<forall>f \<in> set fs. \<exists>path. decode_shard_filter_or_root f 32 = Some (app, path) \<and> length path \<le> 256 \<and>
      \<not> (length f = 33 \<and> 64 \<le> f ! 32)) \<and>
    distinct (map filter_path fs) \<and> set (map filter_path fs) \<inter> set ps = {} \<and>
    qs = fold insort_insert (map filter_path fs) ps"
proof (induction fs arbitrary: ps)
  case (Cons f fs)
  have app: "a = take 32 f \<and> 32 \<le> length f" if "decode_shard_filter_or_root f 32 = Some (a, path)" for a path
    using that decode_shard_bit_path_sound [of f 32 a path]
    by (auto simp: decode_shard_filter_or_root_def encode_shard_bit_path_def split: if_splits)
  show ?case
  proof (cases "decode_shard_filter_or_root f 32")
    case (Some ap)
    then obtain path where path: "decode_shard_filter_or_root f 32 = Some (take 32 f, path)" "32 \<le> length f"
      using app by (cases ap) auto
    then have "filter_path f = path" by (simp add: filter_path_def)
    with path Cons.IH [of "insort_insert path ps"] show ?thesis
      by (auto simp: set_insort_insert)
  qed auto
qed auto

text \<open>The filter sets that have a partition.\<close>

definition filters_ok :: "bytes \<Rightarrow> bytes list \<Rightarrow> bool" where
  "filters_ok app fs \<longleftrightarrow> fs \<noteq> [] \<and>
    (\<forall>f \<in> set fs. \<exists>path. decode_shard_filter_or_root f 32 = Some (app, path) \<and> length path \<le> 256 \<and>
      \<not> (length f = 33 \<and> 64 \<le> f ! 32)) \<and>
    distinct (map filter_path fs) \<and> prefix_free (set (map filter_path fs))"

definition sorted_paths :: "bytes list \<Rightarrow> bool list list" where
  "sorted_paths fs = fold insort_insert (map filter_path fs) []"

lemma fold_insort:
  "sorted_wrt (<) ps \<Longrightarrow> sorted_wrt (<) (fold insort_insert xs ps) \<and> set (fold insort_insert xs ps) = set xs \<union> set ps"
  for xs ps :: "'a::linorder list"
  by (induction xs arbitrary: ps) (auto simp: strict_insort set_insort_insert)

lemma set_sorted_paths [simp]: "set (sorted_paths fs) = filter_path ` set fs"
  using fold_insort [of "[]" "map filter_path fs"] by (simp add: sorted_paths_def)

lemma sorted_paths_sorted: "sorted_wrt (<) (sorted_paths fs)"
  using fold_insort [of "[]" "map filter_path fs"] by (simp add: sorted_paths_def)

lemma decode_app: "decode_shard_filter_or_root f 32 = Some (a, path) \<Longrightarrow> a = take 32 f \<and> length a = 32"
  using decode_shard_bit_path_sound [of f 32 a path]
  by (auto simp: decode_shard_filter_or_root_def encode_shard_bit_path_def split: if_splits)

lemma filters_ok_path:
  "filters_ok app fs \<Longrightarrow> f \<in> set fs \<Longrightarrow> decode_shard_filter_or_root f 32 = Some (app, filter_path f) \<and> length (filter_path f) \<le> 256"
  by (force simp: filters_ok_def filter_path_def)

lemma partition_iff:
  "partition fs = Inr (app, qs) \<longleftrightarrow> filters_ok app fs \<and> qs = reduce_paths (sorted_paths fs)"
proof (cases fs)
  case (Cons f fs')
  have free: "any_neighbours (\<lambda>a b. take (length a) b = a) (sorted_paths fs) \<longleftrightarrow> \<not> prefix_free (filter_path ` set fs)"
    using neighbours_prefix_free [OF sorted_paths_sorted, of fs] by auto
  have paths: "collect_paths app fs [] = Inr ps \<longleftrightarrow> ps = sorted_paths fs \<and> distinct (map filter_path fs) \<and>
      (\<forall>f \<in> set fs. \<exists>path. decode_shard_filter_or_root f 32 = Some (app, path) \<and> length path \<le> 256 \<and>
      \<not> (length f = 33 \<and> 64 \<le> f ! 32))" for app ps
    unfolding collect_paths_iff sorted_paths_def by auto
  have f: "take 32 f = app \<and> 32 \<le> length f" if "\<forall>f \<in> set fs. \<exists>path. decode_shard_filter_or_root f 32 = Some (app, path) \<and>
      length path \<le> 256 \<and> \<not> (length f = 33 \<and> 64 \<le> f ! 32)" for app
    using that decode_app [of f app] Cons by auto
  have "partition fs = (if length f < 32 then Inl InvalidArgument
      else rbind (collect_paths (take 32 f) fs []) (\<lambda>paths.
        if any_neighbours (\<lambda>a b. take (length a) b = a) paths then Inl InvalidArgument
        else Inr (take 32 f, reduce_paths paths)))"
    by (simp only: partition_def Cons list.case Let_def)
  moreover have "fs \<noteq> []" using Cons by simp
  ultimately show ?thesis
    unfolding filters_ok_def set_map using f [of app] f [of "take 32 f"]
    by (auto simp: result_iff paths free simp del: bex_simps ball_simps not_less split: if_split_asm)
qed (simp add: partition_def filters_ok_def)

lemma filters_ok_ranges: "filters_ok app fs \<Longrightarrow> ranges_ok 256 (sorted_paths fs)"
  using filters_ok_path [of app fs] by (auto simp: ranges_ok_def sorted_paths_sorted filters_ok_def)

lemma address_range_cover:
  "filters_ok app fs \<Longrightarrow> address_range fs =
    {app} \<times> {data. length data = 32 \<and> addr_bits data 256 \<in> cover 256 (set (sorted_paths fs))}"
  using filters_ok_path [of app fs]
  by (auto simp: address_range_def filter_covers_def cover_def simp flip: addr_prefix_iff)

lemma addr_bits_surj: "length x = 256 \<Longrightarrow> \<exists>data. length data = 32 \<and> addr_bits data 256 = x"
proof (intro exI conjI)
  assume x: "length x = 256"
  show "length (pack_bits x) = 32" using x by (simp add: div_ceil8_def)
  show "addr_bits (pack_bits x) 256 = x"
    using x by (intro nth_equalityI) (auto simp: addr_bits_def addr_bit_def bit_pack_bits div_ceil8_def)
qed

lemma range_cover_eq:
  assumes "filters_ok a fs" "filters_ok b gs"
  shows "address_range fs = address_range gs \<longleftrightarrow>
    a = b \<and> cover 256 (set (sorted_paths fs)) = cover 256 (set (sorted_paths gs))"
proof
  assume eq: "address_range fs = address_range gs"
  define D where "D S = {data. length data = 32 \<and> addr_bits data 256 \<in> cover 256 S}" for S
  have cover: "cover 256 S = (\<lambda>data. addr_bits data 256) ` D S" for S
    using addr_bits_surj by (auto simp: image_iff cover_def D_def) metis
  from assms(1) obtain f where f: "f \<in> set fs" by (cases fs) (auto simp: filters_ok_def)
  with filters_ok_path [OF assms(1)] have "filter_path f @ replicate (256 - length (filter_path f)) False \<in> cover 256 (set (sorted_paths fs))"
    by (auto simp: cover_def intro!: bexI [of _ f])
  then have "D (set (sorted_paths fs)) \<noteq> {}" using cover by blast
  moreover have "{a} \<times> D (set (sorted_paths fs)) = {b} \<times> D (set (sorted_paths gs))"
    using eq unfolding address_range_cover [OF assms(1)] address_range_cover [OF assms(2)] D_def .
  ultimately have "a = b \<and> D (set (sorted_paths fs)) = D (set (sorted_paths gs))"
    unfolding times_eq_iff by simp
  then show "a = b \<and> cover 256 (set (sorted_paths fs)) = cover 256 (set (sorted_paths gs))" by (simp only: cover)
qed (simp add: address_range_cover [OF assms(1)] address_range_cover [OF assms(2)])

lemma partition_eq_iff:
  assumes "partition fs = Inr p" "partition gs = Inr q"
  shows "p = q \<longleftrightarrow> address_range fs = address_range gs"
proof -
  obtain a ps b qs where pq: "p = (a, ps)" "q = (b, qs)" by (cases p; cases q)
  with assms have ok: "filters_ok a fs" "filters_ok b gs" "ps = reduce_paths (sorted_paths fs)" "qs = reduce_paths (sorted_paths gs)"
    by (simp_all add: partition_iff)
  with reduce_paths_eq_iff [of 256 "sorted_paths fs" "sorted_paths gs"] range_cover_eq [of a fs b gs] pq show ?thesis
    by (simp add: filters_ok_ranges)
qed

lemma filters_disjoint:
  assumes "filters_ok app fs" "f \<in> set fs" "g \<in> set fs" "filter_covers f a data" "filter_covers g a data" "length data = 32"
  shows "f = g"
proof -
  have "prefix (filter_path h) (addr_bits data 256)" if "h \<in> set fs" "filter_covers h a data" for h
    using that filters_ok_path [OF assms(1) that(1)] addr_prefix_iff [of "filter_path h" 256 data]
    by (simp add: filter_covers_def)
  with assms have "filter_path f = filter_path g"
    by (intro prefix_free_unique [of "set (map filter_path fs)" _ _ "addr_bits data 256"]) (auto simp: filters_ok_def)
  with assms(1-3) show ?thesis by (simp add: filters_ok_def distinct_map inj_on_def)
qed

section \<open>The shards of a deep split\<close>

definition split_paths :: "bool list \<Rightarrow> bool list \<Rightarrow> bool list list" where
  "split_paths parent branch = split_spine_siblings parent branch @ [branch @ [False], branch @ [True]]"

lemma prefix_free_child: "prefix_free S \<Longrightarrow> p \<in> S \<Longrightarrow> p @ [b] \<notin> S"
  unfolding prefix_free_def by (metis append_self_conv not_Cons_self2 prefixI)

lemma prefix_free_split:
  assumes "prefix_free S" "p \<in> S"
  shows "prefix_free (insert (p @ [False]) (insert (p @ [True]) (S - {p})))"
proof -
  have "\<not> prefix q (p @ [b])" if "q \<in> S - {p}" for q b
    using that assms prefix_free_child [OF assms, of b] by (auto simp: prefix_snoc prefix_free_def)
  moreover have "\<not> prefix (p @ [b]) q" if "q \<in> S - {p}" for q b
    using that assms append_prefixD [of p "[b]" q] by (auto simp: prefix_free_def)
  ultimately show ?thesis using assms(1) by (auto simp: prefix_free_def prefix_snoc)
qed

lemma cover_split:
  assumes "prefix_free S" "p \<in> S" "length p < n"
  shows "cover n (insert (p @ [False]) (insert (p @ [True]) (S - {p}))) = cover n S" (is "cover n ?T = _")
proof -
  from prefix_free_child [OF assms(1,2)] have "insert p (?T - {p @ [False], p @ [True]}) = S" using assms(2) by auto
  with cover_merge [of p n ?T] assms(3) show ?thesis by simp
qed

lemma split_spine_snoc:
  "split_spine_siblings parent (parent @ bs @ [b]) = split_spine_siblings parent (parent @ bs) @ [parent @ bs @ [\<not> b]]"
  by (auto simp: split_spine_siblings_def nth_append)

lemma split_paths_set:
  "set (split_paths parent (parent @ bs @ [b])) =
    (let p = parent @ bs @ [b] in insert (p @ [False]) (insert (p @ [True]) (set (split_paths parent (parent @ bs)) - {p})))"
proof -
  have "p \<notin> set (split_spine_siblings parent (parent @ bs))" if "length p = length parent + length bs + 1" for p
    using that by (auto simp: split_spine_siblings_def)
  then have "parent @ bs @ [b] \<notin> set (split_spine_siblings parent (parent @ bs))" by simp
  then show ?thesis by (cases b) (auto simp: split_paths_def split_spine_snoc Let_def)
qed

lemma split_paths_ok:
  "length parent + length bs < n \<Longrightarrow>
    prefix_free (set (split_paths parent (parent @ bs))) \<and> cover n (set (split_paths parent (parent @ bs))) = cover n {parent}"
proof (induction bs rule: rev_induct)
  case Nil
  then show ?case
    using prefix_free_split [of "{parent}" parent] cover_split [of "{parent}" parent n]
    by (simp add: split_paths_def split_spine_siblings_def prefix_free_def)
next
  case (snoc b bs)
  let ?S = "set (split_paths parent (parent @ bs))" and ?p = "parent @ bs @ [b]"
  have "?p \<in> ?S" by (cases b) (auto simp: split_paths_def)
  with snoc prefix_free_split [of ?S ?p] cover_split [of ?S ?p n] show ?case
    by (simp add: split_paths_set Let_def)
qed

lemma split_paths_distinct: "distinct (split_paths parent branch)"
proof -
  have "inj_on (\<lambda>i. take i branch @ [\<not> branch ! i]) {length parent..<length branch}"
    by (rule inj_onI) (auto dest!: arg_cong [where f = length])
  moreover have "length p \<le> length branch" if "p \<in> set (split_spine_siblings parent branch)" for p
    using that by (auto simp: split_spine_siblings_def)
  ultimately show ?thesis
    by (fastforce simp: split_paths_def split_spine_siblings_def distinct_map)
qed

lemma split_paths_length: "p \<in> set (split_paths parent branch) \<Longrightarrow> length p \<le> length branch + 1"
  by (auto simp: split_paths_def split_spine_siblings_def)

lemma decode_filter_encoded:
  assumes "length app = 32" "length bits < 65536"
  shows "decode_shard_filter_or_root (encode_shard_bit_path app bits) 32 = Some (app, bits)"
proof -
  have "34 \<le> length (encode_shard_bit_path app bits)" using assms(1) by (simp add: encode_shard_bit_path_def)
  with decode_encode_shard_bit_path [of bits app] assms show ?thesis
    by (simp add: decode_shard_filter_or_root_def SHARD_BIT_LEN_BYTES_def)
qed

lemma filters_ok_encoded:
  assumes "length app = 32" "ps \<noteq> []" "distinct ps" "prefix_free (set ps)" "\<forall>p \<in> set ps. length p \<le> 256"
  shows "filters_ok app (map (encode_shard_bit_path app) ps) \<and> filter_path ` set (map (encode_shard_bit_path app) ps) = set ps"
proof -
  have path: "decode_shard_filter_or_root (encode_shard_bit_path app p) 32 = Some (app, p)" "filter_path (encode_shard_bit_path app p) = p"
    "length (encode_shard_bit_path app p) \<noteq> 33" if "p \<in> set ps" for p
    using that assms decode_filter_encoded [of app p] by (auto simp: filter_path_def encode_shard_bit_path_def)
  then have "map (filter_path \<circ> encode_shard_bit_path app) ps = ps" by (simp add: map_idI)
  moreover from path have "filter_path ` encode_shard_bit_path app ` set ps = set ps" by (force simp: image_image)
  ultimately show ?thesis using assms path by (auto simp: filters_ok_def)
qed


lemma partition_encoded:
  assumes "length app = 32" "ps \<noteq> []" "distinct ps" "prefix_free (set ps)" "\<forall>p \<in> set ps. length p \<le> 256"
    and "qs \<noteq> []" "distinct qs" "prefix_free (set qs)" "\<forall>p \<in> set qs. length p \<le> 256" "cover 256 (set ps) = cover 256 (set qs)"
  shows "partition (map (encode_shard_bit_path app) ps) = partition (map (encode_shard_bit_path app) qs)"
proof -
  let ?f = "map (encode_shard_bit_path app)"
  have ok: "filters_ok app (?f ps)" "filters_ok app (?f qs)" and set: "set (sorted_paths (?f ps)) = set ps" "set (sorted_paths (?f qs)) = set qs"
    using filters_ok_encoded [of app ps] filters_ok_encoded [of app qs] assms by simp_all
  then have "reduce_paths (sorted_paths (?f ps)) = reduce_paths (sorted_paths (?f qs))"
    using assms(10) reduce_paths_eq_iff [of 256 "sorted_paths (?f ps)" "sorted_paths (?f qs)"] by (simp add: filters_ok_ranges set)
  moreover have "partition (?f ps) = Inr (app, reduce_paths (sorted_paths (?f ps)))"
    "partition (?f qs) = Inr (app, reduce_paths (sorted_paths (?f qs)))"
    using ok by (simp_all add: partition_iff)
  ultimately show ?thesis by simp
qed

section \<open>Properties\<close>

text \<open>
  C31. The loop that reduces a set of shard ranges always ends. Run as the source writes it, merging
  the first pair of sibling ranges as long as there is one, it stops from every set of bit paths, on
  a set without sibling pairs that is no larger. Its result is the value that the partition of a set
  of shard filters carries.
\<close>

theorem partition_loop_terminates:
  "while_option (\<lambda>paths. sibling_pair paths \<noteq> None) merge_step paths = Some (reduce_paths paths) \<and>
   sibling_pair (reduce_paths paths) = None \<and> length (reduce_paths paths) \<le> length paths"
proof (intro conjI)
  show "sibling_pair (reduce_paths paths) = None"
    using while_option_stop [OF while_reduce [of paths]] by (cases "sibling_pair (reduce_paths paths)") auto
  show "length (reduce_paths paths) \<le> length paths"
  proof (induction paths rule: reduce_paths.induct)
    case (1 ps)
    then show ?case
      using length_merge_step [of ps] by (cases "sibling_pair ps") (auto simp: reduce_paths.simps [of ps] less_imp_le intro: le_trans)
  qed
qed (rule while_reduce)

text \<open>
  C30. Partitions compare shard sets by the addresses they cover. When two lists of shard filters are
  both accepted, their reduced partitions are equal exactly when the filters cover the same addresses
  of the same application, whatever their number, order and encoding; and no address is covered by
  two filters of an accepted list.
\<close>

theorem partition_compares_ranges:
  assumes "partition fs = Inr p" "partition gs = Inr q"
  shows "(p = q \<longleftrightarrow> address_range fs = address_range gs) \<and>
    (\<forall>f g. f \<in> set fs \<longrightarrow> g \<in> set fs \<longrightarrow> address_range [f] \<inter> address_range [g] \<noteq> {} \<longrightarrow> f = g)"
  using partition_eq_iff [OF assms] assms filters_disjoint [of "fst p" fs]
  by (cases p) (auto simp: partition_iff address_range_def)

theorem partition_compares_ranges_witness:
  "let app = replicate 32 7; root = [app]; halves = [app @ [0, 1, 0], app @ [0, 1, 128]]
   in partition root = Inr (app, [[]]) \<and> partition halves = Inr (app, [[]]) \<and> address_range root = address_range halves"
proof -
  have "partition [replicate 32 7] = Inr (replicate 32 7, [[]])"
    "partition [replicate 32 7 @ [0, 1, 0], replicate 32 7 @ [0, 1, 128]] = Inr (replicate 32 7, [[]])"
    by code_simp+
  with partition_compares_ranges [OF this] show ?thesis by simp
qed

text \<open>
  C32. A deep split registers shards that exactly cover their parent. The two leaves below the branch
  point together with the co-path siblings passed on the way down from the parent have the same
  partition as the parent alone, and an address is in the parent's range exactly when it matches
  exactly one of these shards, which is the one that routing selects.
\<close>

theorem deep_split_complete:
  assumes "length app = 32" "prefix parent branch" "length branch < 256"
  shows "let paths = split_spine_siblings parent branch @ [branch @ [False], branch @ [True]] in
    partition (map (encode_shard_bit_path app) paths) = partition [encode_shard_bit_path app parent] \<and>
    (addr_has_bit_prefix data parent \<longleftrightarrow> (\<exists>!path. path \<in> set paths \<and> addr_has_bit_prefix data path)) \<and>
    (addr_has_bit_prefix data parent \<longrightarrow> addr_has_bit_prefix data (paths ! address_shard_index data paths))"
proof -
  define paths where "paths = split_spine_siblings parent branch @ [branch @ [False], branch @ [True]]"
  obtain bs where branch: "branch = parent @ bs" using assms(2) by (auto simp: prefix_def)
  have ok: "prefix_free (set paths)" "cover 256 (set paths) = cover 256 {parent}"
    using split_paths_ok [of parent bs 256] assms(3) by (auto simp: branch paths_def split_paths_def)
  have len: "\<forall>p \<in> set paths. length p \<le> 256" "length parent \<le> 256"
    using assms(3) split_paths_length [of _ parent branch] by (force simp: branch paths_def split_paths_def)+
  have match: "addr_has_bit_prefix data p \<longleftrightarrow> prefix p (addr_bits data 256)" if "p \<in> insert parent (set paths)" for p
    using that len addr_prefix_iff [of p 256 data] by auto
  have some: "addr_has_bit_prefix data parent \<longleftrightarrow> (\<exists>path. path \<in> set paths \<and> addr_has_bit_prefix data path)"
  proof -
    have "addr_bits data 256 \<in> cover 256 (set paths) \<longleftrightarrow> addr_bits data 256 \<in> cover 256 {parent}" by (simp add: ok(2))
    then show ?thesis using match by (auto simp: cover_def)
  qed
  have "addr_has_bit_prefix data (paths ! address_shard_index data paths)" if "addr_has_bit_prefix data parent"
    using that some by (auto simp: address_shard_index_def position_Some position_None split: option.splits)
  moreover have "p = q" if "p \<in> set paths" "q \<in> set paths" "addr_has_bit_prefix data p" "addr_has_bit_prefix data q" for p q
    using that match ok(1) prefix_free_unique [of "set paths" p q "addr_bits data 256"] by simp
  moreover have "partition (map (encode_shard_bit_path app) paths) = partition [encode_shard_bit_path app parent]"
    using partition_encoded [of app paths "[parent]"] assms(1) ok len split_paths_distinct [of parent branch]
    by (simp add: split_paths_def paths_def prefix_free_def)
  ultimately show ?thesis using some unfolding Let_def paths_def [symmetric] by blast
qed


theorem deep_split_complete_witness:
  "let app = replicate 32 7; paths = [[True], [False, True], [False, False, False], [False, False, True]]
   in partition (map (encode_shard_bit_path app) paths) = partition [encode_shard_bit_path app []] \<and>
     (\<exists>!path. path \<in> set paths \<and> addr_has_bit_prefix (replicate 32 0) path)"
  using deep_split_complete [of "replicate 32 7" "[]" "[False, False]" "replicate 32 0"]
  by (simp add: Let_def split_spine_siblings_def upt_rec addr_has_bit_prefix_def)

end
