(* ===== verification/ShardRoots.thy ===== *)
theory ShardRoots
  imports ShardRanges
begin

text \<open>
  The application root over the roots of its shards (\<^verbatim>\<open>quil-forest/src/lib.rs\<close>): a Merkle tree whose
  leaves sit at the bit paths of the shards, for shards of one depth and of mixed depths, and the
  co-paths that prove one shard's root against it. The hash is an argument. Indexing a path past its
  end is a panic.
\<close>

section \<open>Roots and co-paths\<close>

definition hash_pair :: "(bytes \<Rightarrow> bytes) \<Rightarrow> bytes \<Rightarrow> bytes \<Rightarrow> bytes" where
  "hash_pair sha256 l r = sha256 (l @ r)"

definition zero_node :: bytes where "zero_node = replicate 32 0"

type_synonym shard = "bool list \<times> bytes"

function build :: "(bytes \<Rightarrow> bytes) \<Rightarrow> shard list \<Rightarrow> nat \<Rightarrow> bytes result" where
  "build sha256 shards depth =
    (if shards = [] then Inr zero_node
     else if length shards = 1 \<and> length (fst (hd shards)) = depth then Inr (snd (hd shards))
     else if list_ex (\<lambda>(path, root). length path \<le> depth) shards then Inl Panic
     else rbind (build sha256 (filter (\<lambda>(path, root). \<not> path ! depth) shards) (depth + 1)) (\<lambda>left.
       rbind (build sha256 (filter (\<lambda>(path, root). path ! depth) shards) (depth + 1)) (\<lambda>right.
         Inr (hash_pair sha256 left right))))"
  by pat_completeness auto

definition bits_left :: "nat \<Rightarrow> shard list \<Rightarrow> nat" where
  "bits_left depth shards = (\<Sum>s\<leftarrow>shards. Suc (length (fst s)) - depth)"

lemma bits_left_filter:
  "\<not> list_ex (\<lambda>(path, root). length path \<le> depth) shards \<Longrightarrow> shards \<noteq> [] \<Longrightarrow> bits_left (Suc depth) (filter P shards) < bits_left depth shards"
proof -
  have "bits_left (Suc depth) (filter P xs) + length xs \<le> bits_left depth xs"
    if "\<not> list_ex (\<lambda>(path, root). length path \<le> depth) xs" for xs
    using that by (induction xs) (auto simp: bits_left_def)
  then show "\<not> list_ex (\<lambda>(path, root). length path \<le> depth) shards \<Longrightarrow> shards \<noteq> [] \<Longrightarrow> ?thesis"
    by (cases shards) fastforce+
qed

termination build
  by (relation "measure (\<lambda>(_, shards, depth). bits_left depth shards)") (auto intro: bits_left_filter)

declare build.simps [simp del]

definition app_root_from_shard_paths :: "(bytes \<Rightarrow> bytes) \<Rightarrow> shard list \<Rightarrow> bytes result" where
  "app_root_from_shard_paths sha256 shards =
    (if shards = [] then Inr zero_node
     else if length shards = 1 \<and> fst (hd shards) = [] then Inr (snd (hd shards))
     else build sha256 shards 0)"

primrec collect_results :: "'a result list \<Rightarrow> 'a list result" where
  "collect_results [] = Inr []"
| "collect_results (r # rs) = rbind r (\<lambda>x. rbind (collect_results rs) (\<lambda>xs. Inr (x # xs)))"

definition sibling_shards :: "shard list \<Rightarrow> bool list \<Rightarrow> nat \<Rightarrow> shard list" where
  "sibling_shards shards target d =
    map (\<lambda>(p, r). (drop (d + 1) p, r))
      (filter (\<lambda>(p, r). d < length p \<and> take d p = take d target \<and> p ! d \<noteq> target ! d) shards)"

definition app_membership_path_dynamic :: "(bytes \<Rightarrow> bytes) \<Rightarrow> shard list \<Rightarrow> bool list \<Rightarrow> bytes list result" where
  "app_membership_path_dynamic sha256 shards target =
    collect_results (map (\<lambda>d. app_root_from_shard_paths sha256 (sibling_shards shards target d)) [0..<length target])"

definition app_root_from_shard_path :: "(bytes \<Rightarrow> bytes) \<Rightarrow> bool list \<Rightarrow> bytes \<Rightarrow> bytes list \<Rightarrow> bytes" where
  "app_root_from_shard_path sha256 target shard_root siblings =
    foldr (\<lambda>d h. if target ! d then hash_pair sha256 (siblings ! d) h else hash_pair sha256 h (siblings ! d))
      [0..<min (length target) (length siblings)] shard_root"

section \<open>Shards of one depth\<close>

fun hash_chunks :: "(bytes \<Rightarrow> bytes) \<Rightarrow> bytes list \<Rightarrow> bytes list result" where
  "hash_chunks sha256 [] = Inr []"
| "hash_chunks sha256 [x] = Inl Panic"
| "hash_chunks sha256 (x # y # zs) = rbind (hash_chunks sha256 zs) (\<lambda>hs. Inr (hash_pair sha256 x y # hs))"

lemma length_hash_chunks: "hash_chunks sha256 xs = Inr hs \<Longrightarrow> length xs = 2 * length hs"
  by (induction sha256 xs arbitrary: hs rule: hash_chunks.induct) (auto simp: result_iff)

lemma hash_chunks_less: "1 < length xs \<Longrightarrow> hash_chunks sha256 xs = Inr hs \<Longrightarrow> length hs < length xs"
  by (drule length_hash_chunks) linarith

definition root_at :: "(u32 \<rightharpoonup> bytes) \<Rightarrow> u32 \<Rightarrow> bytes" where
  "root_at shard_roots i = (case shard_roots i of Some r \<Rightarrow> r | None \<Rightarrow> zero_node)"

definition shard_level :: "nat \<Rightarrow> (u32 \<rightharpoonup> bytes) \<Rightarrow> bytes list" where
  "shard_level shard_depth shard_roots =
    map (\<lambda>i. root_at shard_roots (word_of_nat i)) [0..<2 ^ (shard_depth mod 32)]"

function fold_levels :: "(bytes \<Rightarrow> bytes) \<Rightarrow> bytes list \<Rightarrow> bytes list result" where
  "fold_levels sha256 level =
    (if 1 < length level then rbind (hash_chunks sha256 level) (fold_levels sha256) else Inr level)"
  by pat_completeness auto
termination
  by (relation "measure (\<lambda>(_, level). length level)") (auto intro: hash_chunks_less)

declare fold_levels.simps [simp del]

definition app_root_from_shards :: "(bytes \<Rightarrow> bytes) \<Rightarrow> nat \<Rightarrow> (u32 \<rightharpoonup> bytes) \<Rightarrow> bytes result" where
  "app_root_from_shards sha256 shard_depth shard_roots =
    rbind (fold_levels sha256 (shard_level shard_depth shard_roots)) (\<lambda>level.
      Inr (case level of [] \<Rightarrow> zero_node | x # _ \<Rightarrow> x))"

function co_path_levels :: "(bytes \<Rightarrow> bytes) \<Rightarrow> bytes list \<Rightarrow> nat \<Rightarrow> bytes list result" where
  "co_path_levels sha256 level idx =
    (if 1 < length level then
       if length level \<le> idx XOR 1 then Inl Panic
       else rbind (hash_chunks sha256 level) (\<lambda>next_level.
         rbind (co_path_levels sha256 next_level (idx div 2)) (\<lambda>siblings. Inr (level ! (idx XOR 1) # siblings)))
     else Inr [])"
  by pat_completeness auto
termination
  by (relation "measure (\<lambda>(_, level, _). length level)") (auto intro: hash_chunks_less)

declare co_path_levels.simps [simp del]

definition app_membership_path :: "(bytes \<Rightarrow> bytes) \<Rightarrow> nat \<Rightarrow> u32 \<Rightarrow> (u32 \<rightharpoonup> bytes) \<Rightarrow> bytes list result" where
  "app_membership_path sha256 shard_depth index shard_roots =
    co_path_levels sha256 (shard_level shard_depth shard_roots) (unat index)"

primrec climb :: "(bytes \<Rightarrow> bytes) \<Rightarrow> bytes list \<Rightarrow> nat \<Rightarrow> bytes \<Rightarrow> bytes" where
  "climb sha256 [] idx h = h"
| "climb sha256 (sib # siblings) idx h =
    climb sha256 siblings (idx div 2) (if even idx then hash_pair sha256 h sib else hash_pair sha256 sib h)"

definition app_root_from_shard :: "(bytes \<Rightarrow> bytes) \<Rightarrow> u32 \<Rightarrow> bytes \<Rightarrow> bytes list \<Rightarrow> bytes" where
  "app_root_from_shard sha256 index shard_root siblings = climb sha256 siblings (unat index) shard_root"

section \<open>Mixed depths\<close>

text \<open>The shards of one subtree: their paths agree on the first bits and none is a prefix of another.\<close>

definition subtree_ok :: "shard list \<Rightarrow> nat \<Rightarrow> bool" where
  "subtree_ok shards depth \<longleftrightarrow> distinct (map fst shards) \<and> prefix_free (fst ` set shards) \<and>
    (\<forall>s \<in> set shards. depth \<le> length (fst s)) \<and>
    (\<forall>s \<in> set shards. \<forall>t \<in> set shards. take depth (fst s) = take depth (fst t))"

lemma prefix_freeD: "prefix_free S \<Longrightarrow> p \<in> S \<Longrightarrow> q \<in> S \<Longrightarrow> prefix p q \<Longrightarrow> p = q"
  by (auto simp: prefix_free_def)

lemma prefix_free_subset: "prefix_free S \<Longrightarrow> T \<subseteq> S \<Longrightarrow> prefix_free T"
  unfolding prefix_free_def by blast

lemma subtree_ok_length: "subtree_ok shards depth \<Longrightarrow> s \<in> set shards \<Longrightarrow> depth \<le> length (fst s)"
  unfolding subtree_ok_def by blast

lemma subtree_ok_free: "subtree_ok shards depth \<Longrightarrow> prefix_free (fst ` set shards)"
  unfolding subtree_ok_def by blast

lemma subtree_ok_filter:
  assumes "subtree_ok shards depth" "\<not> list_ex (\<lambda>(path, root). length path \<le> depth) shards"
    and P: "\<And>p r. P (p, r) \<longleftrightarrow> p ! depth = b"
  shows "subtree_ok (filter P shards) (Suc depth)"
proof -
  have len: "Suc depth \<le> length (fst s)" if "s \<in> set shards" for s
    using that assms(2) by (auto simp: list_ex_iff not_le Suc_le_eq)
  have agree: "take depth (fst s) = take depth (fst t)" if "s \<in> set shards" "t \<in> set shards" for s t
    using that assms(1) unfolding subtree_ok_def by blast
  have tk: "take (Suc depth) (fst s) = take depth (fst s) @ [b]" if "s \<in> set shards" "P s" for s
    using that len [of s] P [of "fst s" "snd s"] by (simp add: take_Suc_conv_app_nth)
  have "take (Suc depth) (fst s) = take (Suc depth) (fst t)" if "s \<in> set (filter P shards)" "t \<in> set (filter P shards)" for s t
    using that agree [of s t] tk [of s] tk [of t] by simp
  moreover have "distinct (map fst (filter P shards))" "prefix_free (fst ` set (filter P shards))"
    using assms(1) prefix_free_subset [of "fst ` set shards" "fst ` set (filter P shards)"]
    by (auto simp: subtree_ok_def distinct_map_filter)
  ultimately show ?thesis using len unfolding subtree_ok_def by (metis (mono_tags, lifting) filter_is_subset subset_iff)
qed

lemma subtree_ok_short:
  assumes "subtree_ok shards depth" "(p, r) \<in> set shards" "length p \<le> depth"
  shows "shards = [(p, r)]"
proof -
  have "fst s = p" if "s \<in> set shards" for s
  proof -
    have "take depth (fst s) = take depth (fst (p, r))" using that assms(1,2) unfolding subtree_ok_def by blast
    then have "take depth (fst s) = p" using assms(3) by simp
    then have "prefix p (fst s)" using take_is_prefix by metis
    moreover have "fst (p, r) \<in> fst ` set shards" "fst s \<in> fst ` set shards" using that assms(2) by blast+
    moreover have "prefix_free (fst ` set shards)" using assms(1) by (simp add: subtree_ok_def)
    ultimately show ?thesis using prefix_freeD [of "fst ` set shards" p "fst s"] by simp
  qed
  moreover have "distinct (map fst shards)" using assms(1) by (simp add: subtree_ok_def)
  ultimately have "tl shards = []" by (cases shards; cases "tl shards") auto
  with assms(2) show ?thesis by (cases shards) auto
qed

lemma build_Nil: "build sha256 [] depth = Inr zero_node"
  by (simp add: build.simps)

lemma build_leaf: "build sha256 [(p, r)] (length p) = Inr r"
  by (simp add: build.simps)

lemma build_branch:
  assumes "shards \<noteq> []" "\<not> list_ex (\<lambda>(path, root). length path \<le> depth) shards"
  shows "build sha256 shards depth =
    rbind (build sha256 (filter (\<lambda>(path, root). \<not> path ! depth) shards) (Suc depth)) (\<lambda>left.
      rbind (build sha256 (filter (\<lambda>(path, root). path ! depth) shards) (Suc depth)) (\<lambda>right. Inr (hash_pair sha256 left right)))"
proof -
  have "\<not> (length shards = 1 \<and> length (fst (hd shards)) = depth)" using assms by (cases shards) auto
  with assms show ?thesis by (auto simp: build.simps [of _ shards])
qed

text \<open>Induction over the subtrees the builder visits.\<close>

lemma subtree_induct [consumes 1, case_names Nil leaf branch]:
  assumes "subtree_ok shards depth"
    and "\<And>depth. Q [] depth"
    and "\<And>p r. Q [(p, r)] (length p)"
    and "\<And>shards depth. subtree_ok shards depth \<Longrightarrow> shards \<noteq> [] \<Longrightarrow> \<not> list_ex (\<lambda>(path, root). length path \<le> depth) shards \<Longrightarrow>
      (\<And>b. subtree_ok (filter (\<lambda>(path, root). path ! depth = b) shards) (Suc depth)) \<Longrightarrow>
      (\<And>b. Q (filter (\<lambda>(path, root). path ! depth = b) shards) (Suc depth)) \<Longrightarrow> Q shards depth"
  shows "Q shards depth"
  using assms(1)
proof (induction "bits_left depth shards" arbitrary: shards depth rule: less_induct)
  case less
  consider "shards = []" | p r where "(p, r) \<in> set shards" "length p \<le> depth"
    | "shards \<noteq> []" "\<not> list_ex (\<lambda>(path, root). length path \<le> depth) shards"
    by (auto simp: list_ex_iff)
  then show ?case
  proof cases
    case 2
    then have "shards = [(p, r)]" "length p = depth"
      using less.prems subtree_ok_short [of shards depth p r] subtree_ok_length [of shards depth "(p, r)"] by auto
    with assms(3) [of p r] show ?thesis by simp
  next
    case 3
    have ok: "subtree_ok (filter (\<lambda>(path, root). path ! depth = b) shards) (Suc depth)" for b
      by (rule subtree_ok_filter [OF less.prems 3(2)]) simp
    show ?thesis
    proof (rule assms(4) [OF less.prems 3 ok])
      show "Q (filter (\<lambda>(path, root). path ! depth = b) shards) (Suc depth)" for b
        using bits_left_filter [OF 3(2,1)] ok by (rule less.hyps)
    qed
  qed (simp add: assms(2))
qed

lemma build_total: "subtree_ok shards depth \<Longrightarrow> \<exists>h. build sha256 shards depth = Inr h"
proof (induction rule: subtree_induct)
  case (branch shards depth)
  from branch(5) [of True] branch(5) [of False] branch(2,3) show ?case by (auto simp: build_branch)
qed (simp_all add: build_Nil build_leaf)

definition drop_shard :: "nat \<Rightarrow> shard \<Rightarrow> shard" where
  "drop_shard k s = (drop k (fst s), snd s)"

lemma build_shift:
  "subtree_ok shards depth \<Longrightarrow> k \<le> depth \<Longrightarrow> build sha256 (map (drop_shard k) shards) (depth - k) = build sha256 shards depth"
proof (induction rule: subtree_induct)
  case (leaf p r)
  then show ?case using build_leaf [of sha256 "drop k p" r] by (simp add: drop_shard_def build_leaf)
next
  case (branch shards depth)
  have len: "Suc depth \<le> length (fst s)" if "s \<in> set shards" for s
    using that branch(3) by (auto simp: list_ex_iff not_le Suc_le_eq)
  have nth: "drop k path ! (depth - k) = path ! depth" if "Suc depth \<le> length path" for path :: "bool list"
    using that branch(6) by simp
  have f: "filter (\<lambda>(path, root). path ! (depth - k) = b) (map (drop_shard k) xs) = map (drop_shard k) (filter (\<lambda>(path, root). path ! depth = b) xs)"
    if "\<And>s. s \<in> set xs \<Longrightarrow> Suc depth \<le> length (fst s)" for b xs
    using that by (induction xs) (auto simp: drop_shard_def nth)
  from f [of shards True, OF len] f [of shards False, OF len]
  have f: "filter (\<lambda>(path, root). path ! (depth - k)) (map (drop_shard k) shards) = map (drop_shard k) (filter (\<lambda>(path, root). path ! depth) shards)"
    "filter (\<lambda>(path, root). \<not> path ! (depth - k)) (map (drop_shard k) shards) = map (drop_shard k) (filter (\<lambda>(path, root). \<not> path ! depth) shards)"
    by simp_all
  have "\<not> list_ex (\<lambda>(path, root). length path \<le> depth - k) (map (drop_shard k) shards)"
    using len branch(6) by (force simp: list_ex_iff drop_shard_def)
  with branch(2,3,6) branch(5) [of True] branch(5) [of False] f show ?case
    by (simp add: build_branch Suc_diff_le)
qed (simp add: build_Nil)

lemma app_root_build: "app_root_from_shard_paths sha256 shards = build sha256 shards 0"
  by (cases shards) (auto simp: app_root_from_shard_paths_def build_Nil build_leaf [of _ "[]", simplified])

section \<open>Membership\<close>

lemma collect_results_iff: "collect_results rs = Inr xs \<longleftrightarrow> rs = map Inr xs"
  by (induction rs arbitrary: xs) (auto simp: result_iff Cons_eq_map_conv)

definition on_path :: "shard list \<Rightarrow> bool list \<Rightarrow> nat \<Rightarrow> shard list" where
  "on_path shards target d = filter (\<lambda>s. d \<le> length (fst s) \<and> take d (fst s) = take d target) shards"

lemma on_path_long:
  assumes "subtree_ok shards 0" "(target, root) \<in> set shards" "d < length target" "s \<in> set (on_path shards target d)"
  shows "d < length (fst s)"
proof (rule ccontr)
  assume short: "\<not> d < length (fst s)"
  moreover from assms(4) have "take d (fst s) = take d target" unfolding on_path_def by simp
  ultimately have "fst s = take d target" by simp
  then have "prefix (fst s) target" by (simp add: take_is_prefix)
  moreover have "fst s \<in> fst ` set shards" using assms(4) unfolding on_path_def by simp
  moreover have "target \<in> fst ` set shards" using assms(2) by force
  ultimately have "fst s = target"
    using prefix_freeD [OF subtree_ok_free [OF assms(1)], of "fst s" target] by simp
  with short assms(3) show False by simp
qed

lemma on_path_ok: "subtree_ok shards 0 \<Longrightarrow> subtree_ok (on_path shards target d) d"
  unfolding subtree_ok_def on_path_def
  by (auto simp: distinct_map_filter intro: prefix_free_subset [of "fst ` set shards"])

lemma on_path_Suc:
  assumes "subtree_ok shards 0" "(target, root) \<in> set shards" "d < length target"
  shows "on_path shards target (Suc d) = filter (\<lambda>(path, root). path ! d = target ! d) (on_path shards target d)"
proof -
  have eq: "Suc d \<le> length (fst s) \<and> take (Suc d) (fst s) = take (Suc d) target \<longleftrightarrow>
      (d \<le> length (fst s) \<and> take d (fst s) = take d target) \<and> fst s ! d = target ! d" if "s \<in> set shards" for s
  proof (cases "d < length (fst s)")
    case True
    then show ?thesis using assms(3) by (simp add: take_Suc_conv_app_nth)
  next
    case False
    then have "s \<notin> set (on_path shards target d)" using on_path_long [OF assms, of s] by blast
    with that have "\<not> (d \<le> length (fst s) \<and> take d (fst s) = take d target)" unfolding on_path_def by simp
    with False show ?thesis by linarith
  qed
  show ?thesis unfolding on_path_def filter_filter
  proof (intro filter_cong refl)
    fix s assume "s \<in> set shards"
    from eq [OF this] show "(Suc d \<le> length (fst s) \<and> take (Suc d) (fst s) = take (Suc d) target) =
      ((d \<le> length (fst s) \<and> take d (fst s) = take d target) \<and> (case s of (path, root) \<Rightarrow> path ! d = target ! d))"
      unfolding case_prod_beta .
  qed
qed

lemma sibling_root:
  assumes "subtree_ok shards 0" "(target, root) \<in> set shards" "d < length target"
  shows "app_root_from_shard_paths sha256 (sibling_shards shards target d) =
    build sha256 (filter (\<lambda>(path, root). path ! d = (\<not> target ! d)) (on_path shards target d)) (Suc d)"
    (is "_ = build sha256 ?sib _")
proof -
  have long: "\<not> list_ex (\<lambda>(path, root). length path \<le> d) (on_path shards target d)"
    using on_path_long [OF assms] by (fastforce simp: list_ex_iff)
  have "filter (\<lambda>(p, r). d < length p \<and> take d p = take d target \<and> p ! d \<noteq> target ! d) shards = ?sib"
    unfolding on_path_def filter_filter
  proof (intro filter_cong refl)
    fix s assume "s \<in> set shards"
    then show "(case s of (p, r) \<Rightarrow> d < length p \<and> take d p = take d target \<and> p ! d \<noteq> target ! d) =
      ((d \<le> length (fst s) \<and> take d (fst s) = take d target) \<and> (case s of (path, root) \<Rightarrow> path ! d = (\<not> target ! d)))"
      using on_path_long [OF assms, of s] by (auto simp: on_path_def)
  qed
  moreover have "(\<lambda>(p, r). (drop (Suc d) p, r)) = drop_shard (Suc d)"
    by (auto simp: drop_shard_def fun_eq_iff)
  ultimately have "sibling_shards shards target d = map (drop_shard (Suc d)) ?sib"
    unfolding sibling_shards_def Suc_eq_plus1 [symmetric] by (simp only:)
  moreover have "subtree_ok ?sib (Suc d)"
    by (rule subtree_ok_filter [OF on_path_ok [OF assms(1)] long]) simp
  ultimately show ?thesis using build_shift [of ?sib "Suc d" "Suc d" sha256] by (simp add: app_root_build)
qed

definition up_step :: "(bytes \<Rightarrow> bytes) \<Rightarrow> bool list \<Rightarrow> bytes list \<Rightarrow> nat \<Rightarrow> bytes \<Rightarrow> bytes" where
  "up_step sha256 target siblings d h = (if target ! d then hash_pair sha256 (siblings ! d) h else hash_pair sha256 h (siblings ! d))"

lemma on_path_build:
  assumes "subtree_ok shards 0" "(target, root) \<in> set shards"
    and "\<And>d. d < length target \<Longrightarrow> app_root_from_shard_paths sha256 (sibling_shards shards target d) = Inr (siblings ! d)"
    and "d \<le> length target"
  shows "build sha256 (on_path shards target d) d = Inr (foldr (up_step sha256 target siblings) [d..<length target] root)"
  using assms(4)
proof (induction rule: inc_induct)
  case base
  have mem: "(target, root) \<in> set (on_path shards target (length target))" using assms(2) by (simp add: on_path_def)
  then have "on_path shards target (length target) = [(target, root)]"
    by (rule subtree_ok_short [OF on_path_ok [OF assms(1)]]) simp
  then show ?case by (simp add: build_leaf)
next
  case (step d)
  let ?on = "on_path shards target d"
  have d: "d < length target" by (rule step)
  have "(target, root) \<in> set ?on" using assms(2) d by (simp add: on_path_def)
  then have ne: "?on \<noteq> []" by auto
  have long: "\<not> list_ex (\<lambda>(path, root). length path \<le> d) ?on"
    using on_path_long [OF assms(1,2) d] by (fastforce simp: list_ex_iff)
  have same: "build sha256 (filter (\<lambda>(path, root). path ! d = target ! d) ?on) (Suc d) =
      Inr (foldr (up_step sha256 target siblings) [Suc d..<length target] root)"
    using step.IH by (simp add: on_path_Suc [OF assms(1,2) d])
  have sib: "build sha256 (filter (\<lambda>(path, root). path ! d = (\<not> target ! d)) ?on) (Suc d) = Inr (siblings ! d)"
    using assms(3) [OF d] sibling_root [OF assms(1,2) d, of sha256] by simp
  from build_branch [OF ne long, of sha256] same sib d show ?case
    by (cases "target ! d") (simp_all add: up_step_def [of _ _ _ d] upt_conv_Cons)
qed

lemma membership_dynamic:
  assumes "subtree_ok shards 0" "(target, root) \<in> set shards"
  shows "\<exists>siblings. app_membership_path_dynamic sha256 shards target = Inr siblings \<and> length siblings = length target \<and>
    app_root_from_shard_paths sha256 shards = Inr (app_root_from_shard_path sha256 target root siblings)"
proof -
  have "\<exists>h. app_root_from_shard_paths sha256 (sibling_shards shards target d) = Inr h" if "d < length target" for d
  proof -
    have "\<not> list_ex (\<lambda>(path, root). length path \<le> d) (on_path shards target d)"
      using on_path_long [OF assms that] by (fastforce simp: list_ex_iff)
    then show ?thesis unfolding sibling_root [OF assms that]
      by (intro build_total subtree_ok_filter [OF on_path_ok [OF assms(1)]]) auto
  qed
  then obtain sib where sib: "\<And>d. d < length target \<Longrightarrow> app_root_from_shard_paths sha256 (sibling_shards shards target d) = Inr (sib d)"
    by metis
  define siblings where "siblings = map sib [0..<length target]"
  have "app_membership_path_dynamic sha256 shards target = Inr siblings"
    using sib by (simp add: app_membership_path_dynamic_def collect_results_iff siblings_def)
  moreover have "build sha256 (on_path shards target 0) 0 = Inr (foldr (up_step sha256 target siblings) [0..<length target] root)"
    using sib by (intro on_path_build [OF assms]) (simp_all add: siblings_def)
  moreover have "on_path shards target 0 = shards" by (simp add: on_path_def)
  moreover have "length siblings = length target" by (simp add: siblings_def)
  ultimately show ?thesis
    by (simp add: app_root_build app_root_from_shard_path_def up_step_def [abs_def])
qed

section \<open>Complete trees\<close>

primrec complete_root :: "(bytes \<Rightarrow> bytes) \<Rightarrow> nat \<Rightarrow> bytes list \<Rightarrow> bytes" where
  "complete_root sha256 0 xs = hd xs"
| "complete_root sha256 (Suc d) xs =
    hash_pair sha256 (complete_root sha256 d (take (2 ^ d) xs)) (complete_root sha256 d (drop (2 ^ d) xs))"

lemma hash_chunks_even:
  "length xs = 2 * k \<Longrightarrow> hash_chunks sha256 xs = Inr (map (\<lambda>i. hash_pair sha256 (xs ! (2 * i)) (xs ! (2 * i + 1))) [0..<k])"
proof (induction k arbitrary: xs)
  case (Suc k)
  then obtain x y zs where xs: "xs = x # y # zs" "length zs = 2 * k"
    by (cases xs; cases "tl xs") auto
  have m: "map f [0..<Suc k] = f 0 # map (\<lambda>i. f (Suc i)) [0..<k]" for f :: "nat \<Rightarrow> bytes"
    by (simp add: upt_conv_Cons map_Suc_upt [symmetric] comp_def del: upt_Suc)
  from Suc.IH [OF xs(2)] xs(1) show ?case by (simp del: upt_Suc add: m)
qed simp

lemma hash_chunks_append:
  "hash_chunks sha256 xs = Inr as \<Longrightarrow> hash_chunks sha256 ys = Inr bs \<Longrightarrow> hash_chunks sha256 (xs @ ys) = Inr (as @ bs)"
  by (induction sha256 xs arbitrary: as rule: hash_chunks.induct) (auto simp: result_iff)

lemma complete_root_chunks:
  "length xs = 2 ^ Suc d \<Longrightarrow> hash_chunks sha256 xs = Inr hs \<Longrightarrow> complete_root sha256 d hs = complete_root sha256 (Suc d) xs"
proof (induction d arbitrary: xs hs)
  case 0
  then obtain a b where "xs = [a, b]" by (auto simp: length_Suc_conv numeral_2_eq_2)
  with 0 show ?case by auto
next
  case (Suc d)
  let ?l = "take (2 ^ Suc d) xs" and ?r = "drop (2 ^ Suc d) xs"
  have len: "length ?l = 2 * 2 ^ d" "length ?r = 2 * 2 ^ d" using Suc.prems(1) by simp_all
  then have len': "length ?l = 2 ^ Suc d" "length ?r = 2 ^ Suc d" by simp_all
  obtain as bs where as: "hash_chunks sha256 ?l = Inr as" "hash_chunks sha256 ?r = Inr bs"
    using len [THEN hash_chunks_even] by blast
  then have "hs = as @ bs" using hash_chunks_append [OF as] Suc.prems(2) by simp
  moreover have "length as = 2 ^ d" using length_hash_chunks [OF as(1)] len by simp
  ultimately have "take (2 ^ d) hs = as" "drop (2 ^ d) hs = bs" by simp_all
  moreover have "complete_root sha256 d as = complete_root sha256 (Suc d) ?l" "complete_root sha256 d bs = complete_root sha256 (Suc d) ?r"
    by (rule Suc.IH [OF len'(1) as(1)], rule Suc.IH [OF len'(2) as(2)])
  ultimately show ?case by (simp only: append_take_drop_id complete_root.simps(2) [of _ d hs] complete_root.simps(2) [of _ "Suc d" xs])
qed

lemma fold_levels_complete: "length xs = 2 ^ d \<Longrightarrow> fold_levels sha256 xs = Inr [complete_root sha256 d xs]"
proof (induction d arbitrary: xs)
  case 0
  then show ?case by (cases xs) (auto simp: fold_levels.simps)
next
  case (Suc d)
  then have "length xs = 2 * 2 ^ d" by simp
  from hash_chunks_even [OF this] obtain hs where hs: "hash_chunks sha256 xs = Inr hs" by blast
  then have "length hs = 2 ^ d" using length_hash_chunks [OF hs] Suc.prems by simp
  with Suc.IH have "fold_levels sha256 hs = Inr [complete_root sha256 d hs]" by blast
  moreover have "1 < length xs" using one_less_power [of "2 :: nat" "Suc d"] Suc.prems by simp
  ultimately show ?case using complete_root_chunks [OF Suc.prems hs] hs
    by (simp del: complete_root.simps add: fold_levels.simps [of _ xs])
qed

lemma xor_one: "i XOR Suc 0 = (if even i then Suc i else i - 1)" for i :: nat
  by (simp add: xor_Suc_0_eq)

lemma co_path_complete:
  "length xs = 2 ^ d \<Longrightarrow> i < 2 ^ d \<Longrightarrow>
    \<exists>siblings. co_path_levels sha256 xs i = Inr siblings \<and> climb sha256 siblings i (xs ! i) = complete_root sha256 d xs"
proof (induction d arbitrary: xs i)
  case 0
  then show ?case by (cases xs) (auto simp: co_path_levels.simps)
next
  case (Suc d)
  then have len: "length xs = 2 * 2 ^ d" by simp
  define hs where "hs = map (\<lambda>i. hash_pair sha256 (xs ! (2 * i)) (xs ! (2 * i + 1))) [0..<2 ^ d]"
  have hs: "hash_chunks sha256 xs = Inr hs" using hash_chunks_even [OF len] by (simp add: hs_def)
  have i: "i div 2 < 2 ^ d" using Suc.prems(2) by simp
  with Suc.IH [of hs "i div 2"] obtain siblings where sib: "co_path_levels sha256 hs (i div 2) = Inr siblings"
    "climb sha256 siblings (i div 2) (hs ! (i div 2)) = complete_root sha256 d hs"
    by (auto simp: hs_def)
  have bound: "i XOR 1 < length xs" using Suc.prems by (auto simp: xor_one elim!: evenE)
  have "hs ! (i div 2) = (if even i then hash_pair sha256 (xs ! i) (xs ! (i XOR 1)) else hash_pair sha256 (xs ! (i XOR 1)) (xs ! i))"
    using i by (auto simp: hs_def xor_one elim!: evenE oddE)
  then have "climb sha256 (xs ! (i XOR 1) # siblings) i (xs ! i) = complete_root sha256 (Suc d) xs"
    using sib(2) complete_root_chunks [OF Suc.prems(1) hs] by (simp del: complete_root.simps One_nat_def)
  moreover have "1 < length xs" using one_less_power [of "2 :: nat" "Suc d"] Suc.prems(1) by simp
  then have "co_path_levels sha256 xs i = Inr (xs ! (i XOR 1) # siblings)"
    using hs sib(1) bound by (simp add: co_path_levels.simps [of _ xs])
  ultimately show ?case by blast
qed

text \<open>The bit paths of a complete tree, in order.\<close>

primrec all_paths :: "nat \<Rightarrow> bool list list" where
  "all_paths 0 = [[]]"
| "all_paths (Suc d) = map (Cons False) (all_paths d) @ map (Cons True) (all_paths d)"

lemma length_all_paths [simp]: "length (all_paths d) = 2 ^ d"
  by (induction d) auto

lemma all_paths_length: "p \<in> set (all_paths d) \<Longrightarrow> length p = d"
  by (induction d arbitrary: p) auto

lemma all_paths_distinct: "distinct (all_paths d)"
  by (induction d) (auto simp: distinct_map inj_on_def)

lemma complete_subtree_ok: "length xs = 2 ^ d \<Longrightarrow> subtree_ok (zip (all_paths d) xs) 0"
proof -
  assume len: "length xs = 2 ^ d"
  then have fst: "map fst (zip (all_paths d) xs) = all_paths d" by simp
  then have "fst ` set (zip (all_paths d) xs) = set (all_paths d)" by (metis list.set_map)
  moreover have "prefix_free (set (all_paths d))"
    by (auto simp: prefix_free_def prefix_def dest!: all_paths_length)
  ultimately show ?thesis by (simp add: subtree_ok_def fst all_paths_distinct del: map_fst_zip)
qed

lemma build_complete: "length xs = 2 ^ d \<Longrightarrow> build sha256 (zip (all_paths d) xs) 0 = Inr (complete_root sha256 d xs)"
proof (induction d arbitrary: xs)
  case 0
  then show ?case by (cases xs) (auto simp: build_leaf [of _ "[]", simplified])
next
  case (Suc d)
  let ?l = "take (2 ^ d) xs" and ?r = "drop (2 ^ d) xs"
  have len: "length ?l = 2 ^ d" "length ?r = 2 ^ d" using Suc.prems by simp_all
  define cons where "cons b = map (\<lambda>(p, r). (b # p, r :: bytes))" for b :: bool
  have zip: "zip (all_paths (Suc d)) xs = cons False (zip (all_paths d) ?l) @ cons True (zip (all_paths d) ?r)"
    using len by (subst append_take_drop_id [of "2 ^ d" xs, symmetric]) (simp only: all_paths.simps zip_append cons_def zip_map1 length_map length_all_paths)
  have ok: "subtree_ok (zip (all_paths (Suc d)) xs) 0" using complete_subtree_ok Suc.prems by blast
  have sel: "filter (\<lambda>(path, root). path ! 0 = b) (cons c ys) = (if b = c then cons c ys else [])" for b c ys
    by (induction ys) (auto simp: cons_def)
  have ne: "zip (all_paths (Suc d)) xs \<noteq> []" using Suc.prems by (cases xs) (auto simp: zip_eq_Nil_iff dest!: arg_cong [where f = length])
  have long: "\<not> list_ex (\<lambda>(path, root). length path \<le> 0) (zip (all_paths (Suc d)) xs)"
    by (auto simp: list_ex_iff dest!: set_zip_leftD all_paths_length)
  have "build sha256 (cons b ys) (Suc 0) = build sha256 ys 0" if "subtree_ok (cons b ys) (Suc 0)" for b ys
  proof -
    have "map (drop_shard (Suc 0)) (cons b ys) = ys" by (induction ys) (auto simp: cons_def drop_shard_def)
    with build_shift [OF that, of "Suc 0" sha256] show ?thesis by simp
  qed
  moreover have "subtree_ok (cons False (zip (all_paths d) ?l)) (Suc 0)" "subtree_ok (cons True (zip (all_paths d) ?r)) (Suc 0)"
    using subtree_ok_filter [OF ok long, of "\<lambda>(path, root). path ! 0 = False" False] subtree_ok_filter [OF ok long, of "\<lambda>(path, root). path ! 0 = True" True] sel [of True] sel [of False]
    by (simp_all add: zip del: all_paths.simps)
  ultimately show ?case using build_branch [OF ne long, of sha256] sel [of True] sel [of False] Suc.IH [OF len(1)] Suc.IH [OF len(2)]
    by (simp add: zip del: all_paths.simps)
qed

lemma level_bits_nat: "level_bits n lvl = map (bit lvl) (rev [0..<n])"
  by (induction n) (auto simp: and_one_eq bit_iff_odd_drop_bit odd_iff_mod_2_eq_one)

lemma all_paths_nth: "i < 2 ^ d \<Longrightarrow> all_paths d ! i = map (bit i) (rev [0..<d])"
proof (induction d arbitrary: i)
  case (Suc d)
  have low: "map (bit (2 ^ d + j)) (rev [0..<d]) = map (bit j) (rev [0..<d])" for j :: nat
  proof -
    have "odd ((2 ^ d + j) div 2 ^ x) \<longleftrightarrow> odd (j div 2 ^ x)" if "x < d" for x
    proof -
      from that obtain k where "d = x + Suc k" by (metis add_Suc_right less_iff_Suc_add)
      then have "2 ^ d = 2 ^ x * (2 * 2 ^ k :: nat)" by (simp add: power_add)
      then show ?thesis by simp
    qed
    then show ?thesis by (simp add: bit_iff_odd)
  qed
  show ?case
  proof (cases "i < 2 ^ d")
    case True
    then show ?thesis using Suc.IH [of i] by (simp add: nth_append bit_iff_odd)
  next
    case False
    then obtain j where j: "i = 2 ^ d + j" by (metis le_Suc_ex not_less)
    with Suc.prems have "j < 2 ^ d" by simp
    moreover from this have "(2 ^ d + j) div 2 ^ d = Suc 0" by (simp add: div_add_self1)
    ultimately show ?thesis using Suc.IH [of j] j low [of j] by (simp add: nth_append bit_iff_odd)
  qed
qed simp

lemma prefix_to_bits_nth:
  assumes "d \<le> 32" "i < 2 ^ d"
  shows "prefix_to_bits [word_of_nat i] d = all_paths d ! i"
  using assms by (simp add: prefix_to_bits_def level_bits_nat all_paths_nth bit_of_nat_iff)

lemma shard_level_complete:
  assumes "d < 32"
  shows "length (shard_level d roots) = 2 ^ d"
    and "app_root_from_shards sha256 d roots = Inr (complete_root sha256 d (shard_level d roots))"
  using assms by (simp_all add: shard_level_def app_root_from_shards_def fold_levels_complete)

section \<open>Binding\<close>

text \<open>The strings hashed on the way from a shard's root to the application root.\<close>

definition path_inputs :: "(bytes \<Rightarrow> bytes) \<Rightarrow> bool list \<Rightarrow> bytes \<Rightarrow> bytes list \<Rightarrow> bytes set" where
  "path_inputs sha256 target shard_root siblings =
    (\<lambda>d. let h = foldr (up_step sha256 target siblings) [Suc d..<length target] shard_root
         in if target ! d then siblings ! d @ h else h @ siblings ! d) ` {..<length target}"

lemma path_binding:
  assumes "length ss = length target" "length ss' = length target"
    and "\<forall>s \<in> set (r # ss). length s = 32" "\<forall>s \<in> set (r' # ss'). length s = 32" "\<And>x. length (sha256 x) = 32"
    and "inj_on sha256 (path_inputs sha256 target r ss \<union> path_inputs sha256 target r' ss')"
    and "app_root_from_shard_path sha256 target r ss = app_root_from_shard_path sha256 target r' ss'"
  shows "r = r' \<and> ss = ss'"
proof -
  let ?n = "length target"
  define h where "h d = foldr (up_step sha256 target ss) [d..<?n] r" for d
  define h' where "h' d = foldr (up_step sha256 target ss') [d..<?n] r'" for d
  have len: "length (h d) = 32" "length (h' d) = 32" if "d \<le> ?n" for d
    using that assms(3-5) unfolding h_def h'_def by (cases "d = ?n"; simp add: upt_conv_Cons up_step_def [of _ _ _ d] hash_pair_def)+
  have top: "h 0 = h' 0"
    using assms(1,2,7) by (simp add: h_def h'_def app_root_from_shard_path_def up_step_def [abs_def])
  have "h (Suc d) = h' (Suc d) \<and> ss ! d = ss' ! d" if d: "d < ?n" "h d = h' d" for d
  proof -
    define x where "x = (if target ! d then ss ! d @ h (Suc d) else h (Suc d) @ ss ! d)"
    define x' where "x' = (if target ! d then ss' ! d @ h' (Suc d) else h' (Suc d) @ ss' ! d)"
    have "h d = sha256 x" "h' d = sha256 x'"
      using d(1) by (simp_all add: h_def h'_def x_def x'_def upt_conv_Cons up_step_def [of _ _ _ d] hash_pair_def)
    moreover have "x \<in> path_inputs sha256 target r ss" "x' \<in> path_inputs sha256 target r' ss'"
      using d(1) by (auto simp: x_def x'_def path_inputs_def h_def h'_def Let_def)
    ultimately have "x = x'" using assms(6) d(2) by (auto dest: inj_onD)
    moreover have "length (ss ! d) = 32" "length (ss' ! d) = 32" using assms(1-4) d(1) by simp_all
    ultimately show ?thesis using len [of "Suc d"] d(1) by (auto simp: x_def x'_def split: if_splits)
  qed
  then have step: "d < ?n \<Longrightarrow> h d = h' d \<Longrightarrow> h (Suc d) = h' (Suc d) \<and> ss ! d = ss' ! d" for d by blast
  have all: "d \<le> ?n \<Longrightarrow> h d = h' d" for d
    by (induction d) (use top step in auto)
  have "ss = ss'" using assms(1,2) all step by (intro nth_equalityI) auto
  moreover have "r = r'" using all [of ?n] by (simp add: h_def h'_def)
  ultimately show ?thesis by simp
qed

lemma build_length:
  "subtree_ok shards depth \<Longrightarrow> (\<And>s. s \<in> set shards \<Longrightarrow> length (snd s) = 32) \<Longrightarrow> (\<And>x. length (sha256 x) = 32) \<Longrightarrow>
    build sha256 shards depth = Inr h \<Longrightarrow> length h = 32"
proof (induction arbitrary: h rule: subtree_induct)
  case (branch shards depth)
  then show ?case by (auto simp: build_branch result_iff hash_pair_def)
qed (auto simp: build_Nil build_leaf zero_node_def)

lemma sibling_lengths:
  assumes "subtree_ok shards 0" "(target, root) \<in> set shards"
    and "\<And>s. s \<in> set shards \<Longrightarrow> length (snd s) = 32" "\<And>x. length (sha256 x) = 32"
    and "app_membership_path_dynamic sha256 shards target = Inr siblings"
  shows "\<forall>s \<in> set siblings. length s = 32"
proof -
  have "length h = 32" if d: "d < length target" "app_root_from_shard_paths sha256 (sibling_shards shards target d) = Inr h" for d h
  proof -
    let ?sib = "filter (\<lambda>(path, root). path ! d = (\<not> target ! d)) (on_path shards target d)"
    have long: "\<not> list_ex (\<lambda>(path, root). length path \<le> d) (on_path shards target d)"
      using on_path_long [OF assms(1,2) d(1)] by (fastforce simp: list_ex_iff)
    have "subtree_ok ?sib (Suc d)" by (rule subtree_ok_filter [OF on_path_ok [OF assms(1)] long]) simp
    moreover have "build sha256 ?sib (Suc d) = Inr h" using d(2) sibling_root [OF assms(1,2) d(1), of sha256] by simp
    moreover have "length (snd s) = 32" if "s \<in> set ?sib" for s using that assms(3) by (simp add: on_path_def)
    ultimately show ?thesis using build_length [of ?sib "Suc d" sha256 h] assms(4) by blast
  qed
  moreover have path: "map (\<lambda>d. app_root_from_shard_paths sha256 (sibling_shards shards target d)) [0..<length target] = map Inr siblings"
    using assms(5) by (simp only: app_membership_path_dynamic_def collect_results_iff)
  have "length siblings = length target" using arg_cong [OF path, of length] by simp
  moreover have "app_root_from_shard_paths sha256 (sibling_shards shards target d) = Inr (siblings ! d)" if "d < length target" for d
    using arg_cong [OF path, of "\<lambda>xs. xs ! d"] that \<open>length siblings = length target\<close> by simp
  ultimately show ?thesis unfolding all_set_conv_all_nth by metis
qed

section \<open>Properties\<close>

text \<open>
  C33. A shard's co-path proves its root against the application root, and nothing else does. For
  shards at distinct bit paths none of which is a prefix of another, building the application root
  never indexes past a path; the co-path computed for any of the shards exists and recomputes the
  application root from that shard's root; and, as long as the hash has 32-byte outputs and does not
  collide on the strings the two climbs hash, the only 32-byte shard root and co-path of the path's
  length that give this application root are the shard's own.
\<close>

theorem app_root_membership:
  assumes "distinct (map fst shards)" "prefix_free (fst ` set shards)" "(target, root) \<in> set shards"
    and "\<And>s. s \<in> set shards \<Longrightarrow> length (snd s) = 32" "\<And>x. length (sha256 x) = 32"
  shows "\<exists>app_root siblings. app_root_from_shard_paths sha256 shards = Inr app_root \<and>
    app_membership_path_dynamic sha256 shards target = Inr siblings \<and>
    app_root_from_shard_path sha256 target root siblings = app_root \<and>
    (\<forall>root' siblings'. length siblings' = length target \<longrightarrow> (\<forall>s \<in> set (root' # siblings'). length s = 32) \<longrightarrow>
      inj_on sha256 (path_inputs sha256 target root siblings \<union> path_inputs sha256 target root' siblings') \<longrightarrow>
      app_root_from_shard_path sha256 target root' siblings' = app_root \<longrightarrow> root' = root \<and> siblings' = siblings)"
proof -
  have ok: "subtree_ok shards 0" using assms(1,2) by (simp add: subtree_ok_def)
  from membership_dynamic [OF this assms(3), of sha256] obtain siblings where sib:
    "app_membership_path_dynamic sha256 shards target = Inr siblings" "length siblings = length target"
    "app_root_from_shard_paths sha256 shards = Inr (app_root_from_shard_path sha256 target root siblings)" by blast
  have "\<forall>s \<in> set (root # siblings). length s = 32"
    using sibling_lengths [OF ok assms(3-5) sib(1)] assms(3,4) by fastforce
  then have "root' = root \<and> siblings' = siblings"
    if "length siblings' = length target" "\<forall>s \<in> set (root' # siblings'). length s = 32"
      "inj_on sha256 (path_inputs sha256 target root siblings \<union> path_inputs sha256 target root' siblings')"
      "app_root_from_shard_path sha256 target root' siblings' = app_root_from_shard_path sha256 target root siblings" for root' siblings'
    using path_binding [OF sib(2) that(1) _ that(2) assms(5) that(3) that(4) [symmetric]] by metis
  with sib show ?thesis by blast
qed

theorem app_root_membership_witness:
  "let shards = [([False], replicate 32 1), ([True, False], replicate 32 2), ([True, True], replicate 32 3)];
       sha256 = (\<lambda>b. take 32 (b @ replicate 32 0))
   in \<exists>siblings. app_membership_path_dynamic sha256 shards [True, False] = Inr siblings \<and>
     app_root_from_shard_paths sha256 shards = Inr (app_root_from_shard_path sha256 [True, False] (replicate 32 2) siblings)"
proof -
  let ?shards = "[([False], replicate 32 1), ([True, False], replicate 32 2), ([True, True], replicate 32 3)]"
  let ?h = "\<lambda>b. take 32 (b @ replicate 32 0) :: bytes"
  have "distinct (map fst ?shards)" "prefix_free (fst ` set ?shards)" "([True, False], replicate 32 2) \<in> set ?shards"
    "s \<in> set ?shards \<Longrightarrow> length (snd s) = 32" "length (?h x) = 32" for s x
    by (auto simp: prefix_free_def)
  from app_root_membership [where ?sha256.0 = ?h, OF this] show ?thesis unfolding Let_def by blast
qed

text \<open>
  C34. Shards of one depth. For a depth below 32, the level-by-level construction gives every shard
  position a co-path that recomputes the root from the shard's root (the zero node for an absent
  shard), and the root is the one the variable-depth construction computes from all positions at
  their bit paths. Left-out positions are not the same to the two: with only the first of four shards
  present the one hashes two zero leaves where the other puts the zero node itself.
\<close>

theorem uniform_app_root:
  assumes "d < 32" "unat i < 2 ^ d"
  shows "(\<exists>app_root siblings. app_root_from_shards sha256 d roots = Inr app_root \<and>
      app_membership_path sha256 d i roots = Inr siblings \<and> app_root_from_shard sha256 i (root_at roots i) siblings = app_root \<and>
      app_root_from_shard_paths sha256 (map (\<lambda>j. (prefix_to_bits [word_of_nat j] d, root_at roots (word_of_nat j))) [0..<2 ^ d]) = Inr app_root) \<and>
    app_root_from_shards sha256 2 [0 \<mapsto> r] =
      Inr (hash_pair sha256 (hash_pair sha256 r zero_node) (hash_pair sha256 zero_node zero_node)) \<and>
    app_root_from_shard_paths sha256 [(prefix_to_bits [0] 2, r)] = Inr (hash_pair sha256 (hash_pair sha256 r zero_node) zero_node)"
proof -
  let ?xs = "shard_level d roots"
  note level = shard_level_complete [OF assms(1)]
  from co_path_complete [OF level(1) assms(2), of sha256] obtain siblings where sib:
    "co_path_levels sha256 ?xs (unat i) = Inr siblings" "climb sha256 siblings (unat i) (?xs ! unat i) = complete_root sha256 d ?xs"
    by blast
  have "?xs ! unat i = root_at roots i" using assms(1,2) by (simp add: shard_level_def)
  moreover have "map (\<lambda>j. (prefix_to_bits [word_of_nat j] d, root_at roots (word_of_nat j))) [0..<2 ^ d] = zip (all_paths d) ?xs"
    using assms(1) by (intro nth_equalityI) (auto simp: prefix_to_bits_nth shard_level_def)
  moreover have "shard_level 2 [0 \<mapsto> r] = [r, zero_node, zero_node, zero_node]"
    by (simp add: shard_level_def root_at_def upt_rec)
  moreover have "app_root_from_shards sha256 2 [0 \<mapsto> r] = Inr (complete_root sha256 2 (shard_level 2 [0 \<mapsto> r]))"
    by (rule shard_level_complete) simp
  moreover have "app_root_from_shard_paths sha256 [(prefix_to_bits [0] 2, r)] = Inr (hash_pair sha256 (hash_pair sha256 r zero_node) zero_node)"
    by (simp add: app_root_build prefix_to_bits_def numeral_2_eq_2 build.simps)
  ultimately show ?thesis using sib level(2) [of sha256 roots] build_complete [OF level(1), of sha256]
    by (simp add: app_membership_path_def app_root_from_shard_def app_root_build numeral_2_eq_2)
qed

theorem uniform_app_root_witness:
  "\<exists>app_root siblings. app_root_from_shards rev 6 [3 \<mapsto> replicate 32 1] = Inr app_root \<and>
     app_membership_path rev 6 3 [3 \<mapsto> replicate 32 1] = Inr siblings \<and>
     app_root_from_shard rev 3 (replicate 32 1) siblings = app_root"
proof -
  have "6 < (32 :: nat)" "unat (3 :: u32) < 2 ^ 6" "root_at [3 \<mapsto> replicate 32 1] 3 = replicate 32 1"
    by (simp_all add: root_at_def)
  with conjunct1 [OF uniform_app_root [of 6 3 rev "[3 \<mapsto> replicate 32 1]" "[]"]] show ?thesis by auto
qed

end
