(* ===== verification/TreeSerialize.thy ===== *)
theory TreeSerialize
  imports TreeCommit Codec
begin

text \<open>
  The byte formats of a tree: the local blob format and the per-node format of
  \<^verbatim>\<open>quil-tries/src/serialize.rs\<close>, and the wire format of \<^verbatim>\<open>quil-tries/src/go_format.rs\<close>.
  Blob and wire format share their layout; they differ in the encoding of a size (signed or
  unsigned big-endian) and in the cap on a field, which are arguments of the writer and the
  reader. The byte conversions of the big-integer library are parameters.
\<close>

section \<open>Fields\<close>

definition TYPE_NIL :: byte where "TYPE_NIL = 0"
definition TYPE_LEAF :: byte where "TYPE_LEAF = 1"
definition TYPE_BRANCH :: byte where "TYPE_BRANCH = 2"

lemma type_tags [simp]:
  "TYPE_LEAF \<noteq> TYPE_NIL" "TYPE_BRANCH \<noteq> TYPE_NIL" "TYPE_BRANCH \<noteq> TYPE_LEAF" "TYPE_LEAF \<noteq> TYPE_BRANCH"
  by (simp_all add: TYPE_NIL_def TYPE_LEAF_def TYPE_BRANCH_def)

definition MAX_TREE_PREFIX_LEN :: nat where "MAX_TREE_PREFIX_LEN = 256"
definition MAX_LENGTH_PREFIXED_FIELD :: nat where "MAX_LENGTH_PREFIXED_FIELD = 16 * 1024 * 1024"
definition MAX_DESERIALIZE_DEPTH :: nat where "MAX_DESERIALIZE_DEPTH = 128"
definition MAX_GO_FIELD :: nat where "MAX_GO_FIELD = 1024 * 1024 * 1024"

lemmas tree_limits = MAX_TREE_PREFIX_LEN_def MAX_LENGTH_PREFIXED_FIELD_def MAX_DESERIALIZE_DEPTH_def MAX_GO_FIELD_def

definition write_length_prefixed :: "bytes \<Rightarrow> bytes" where
  "write_length_prefixed b = u64_to_be_bytes (word_of_nat (length b)) @ b"

definition read_length_prefixed :: "nat \<Rightarrow> bytes reader" where
  "read_length_prefixed cap bs =
    rbind (read_u64 Serialization bs) (\<lambda>(n, bs).
      if cap < unat n then Inl Serialization else read_bytes Serialization (unat n) bs)"

definition write_i32 :: "int \<Rightarrow> bytes" where
  "write_i32 x = u32_to_be_bytes (word_of_int x)"

definition read_i32 :: "int reader" where
  "read_i32 bs = rbind (read_u32 Serialization bs) (\<lambda>(w, bs). Inr (sint w, bs))"

definition write_prefix :: "int list \<Rightarrow> bytes" where
  "write_prefix p = u32_to_be_bytes (word_of_nat (length p)) @ concat (map write_i32 p)"

definition read_prefix :: "int list reader" where
  "read_prefix bs =
    rbind (read_u32 Serialization bs) (\<lambda>(n, bs).
      if MAX_TREE_PREFIX_LEN < unat n then Inl Serialization else read_many (unat n) read_i32 bs)"

text \<open>
  The counters: \<open>leaf_count as i64\<close> and back keeps all 64 bits, \<open>longest_branch as i32\<close>
  truncates, and reading it back sign-extends.
\<close>

definition write_counters :: "nat \<Rightarrow> nat \<Rightarrow> bytes" where
  "write_counters lc lb = u64_to_be_bytes (word_of_nat lc) @ u32_to_be_bytes (word_of_nat lb)"

definition read_counters :: "(nat \<times> nat) reader" where
  "read_counters bs =
    rbind (read_u64 Serialization bs) (\<lambda>(lc, bs).
    rbind (read_u32 Serialization bs) (\<lambda>(lb, bs).
      Inr ((unat lc, unat (scast lb :: u64)), bs)))"

section \<open>Whole trees\<close>

fun cat_results :: "bytes result list \<Rightarrow> bytes result" where
  "cat_results [] = Inr []"
| "cat_results (r # rs) = rbind r (\<lambda>a. rbind (cat_results rs) (\<lambda>b. Inr (a @ b)))"

fun write_node :: "(int \<Rightarrow> bytes result) \<Rightarrow> vnode \<Rightarrow> bytes result" where
  "write_node wsz (Leaf l) =
    rbind (wsz (leaf_size l)) (\<lambda>s.
      Inr (TYPE_LEAF # write_length_prefixed (leaf_key l) @ write_length_prefixed (leaf_value l) @
        write_length_prefixed (leaf_hash_target l) @ write_length_prefixed (leaf_commitment l) @ s))"
| "write_node wsz (Branch p cs cm sz lc lb fp fl) =
    rbind (cat_results (map (\<lambda>c. case c of None \<Rightarrow> Inr [TYPE_NIL] | Some n \<Rightarrow> write_node wsz n) cs)) (\<lambda>kids.
    rbind (wsz sz) (\<lambda>s.
      Inr (TYPE_BRANCH # write_prefix p @ kids @ write_length_prefixed cm @ s @ write_counters lc lb)))"

definition write_opt :: "(int \<Rightarrow> bytes result) \<Rightarrow> vnode option \<Rightarrow> bytes result" where
  "write_opt wsz c = (case c of None \<Rightarrow> Inr [TYPE_NIL] | Some n \<Rightarrow> write_node wsz n)"

definition read_leaf :: "nat \<Rightarrow> int reader \<Rightarrow> leaf_node reader" where
  "read_leaf cap rsz bs =
    rbind (read_length_prefixed cap bs) (\<lambda>(key, bs).
    rbind (read_length_prefixed cap bs) (\<lambda>(val, bs).
    rbind (read_length_prefixed cap bs) (\<lambda>(ht, bs).
    rbind (read_length_prefixed cap bs) (\<lambda>(cm, bs).
    rbind (rsz bs) (\<lambda>(sz, bs).
      Inr (\<lparr>leaf_key = key, leaf_value = val, leaf_hash_target = ht, leaf_commitment = cm, leaf_size = sz\<rparr>, bs))))))"

definition read_branch_tail :: "nat \<Rightarrow> int reader \<Rightarrow> int list \<Rightarrow> vnode option list \<Rightarrow> bool \<Rightarrow> vnode reader" where
  "read_branch_tail cap rsz p cs fl bs =
    rbind (read_length_prefixed cap bs) (\<lambda>(cm, bs).
    rbind (rsz bs) (\<lambda>(sz, bs).
    rbind (read_counters bs) (\<lambda>((lc, lb), bs).
      Inr (Branch p cs cm sz lc lb [] fl, bs))))"

function read_node :: "nat \<Rightarrow> int reader \<Rightarrow> nat \<Rightarrow> vnode option reader" where
  "read_node cap rsz d bs =
    (if MAX_DESERIALIZE_DEPTH < d then Inl Serialization
     else
       rbind (read_u8 Serialization bs) (\<lambda>(tag, bs).
         if tag = TYPE_NIL then Inr (None, bs)
         else if tag = TYPE_LEAF then
           rbind (read_leaf cap rsz bs) (\<lambda>(l, bs). Inr (Some (Leaf l), bs))
         else if tag = TYPE_BRANCH then
           rbind (read_prefix bs) (\<lambda>(p, bs).
           rbind (read_many BRANCH_NODES (\<lambda>b. read_node cap rsz (Suc d) b) bs) (\<lambda>(cs, bs).
           rbind (read_branch_tail cap rsz p cs True bs) (\<lambda>(n, bs). Inr (Some n, bs))))
         else Inl Serialization))"
  by pat_completeness auto
termination
  by (relation "measure (\<lambda>(_, _, d, _). Suc MAX_DESERIALIZE_DEPTH - d)") auto

declare read_node.simps [simp del]

section \<open>The local blob format\<close>

text \<open>\<open>tsb\<close> and \<open>fsb\<close> stand for \<open>to_signed_bytes_be\<close> and \<open>from_signed_bytes_be\<close>.\<close>

definition write_signed :: "(int \<Rightarrow> bytes) \<Rightarrow> int \<Rightarrow> bytes result" where
  "write_signed tsb x = Inr (write_length_prefixed (tsb x))"

definition read_signed :: "(bytes \<Rightarrow> int) \<Rightarrow> int reader" where
  "read_signed fsb bs =
    rbind (read_length_prefixed MAX_LENGTH_PREFIXED_FIELD bs) (\<lambda>(b, bs). Inr (if b = [] then 0 else fsb b, bs))"

definition serialize_node :: "(int \<Rightarrow> bytes) \<Rightarrow> vnode option \<Rightarrow> bytes result" where
  "serialize_node tsb = write_opt (write_signed tsb)"

definition deserialize_node_at_depth :: "(bytes \<Rightarrow> int) \<Rightarrow> nat \<Rightarrow> vnode option reader" where
  "deserialize_node_at_depth fsb = read_node MAX_LENGTH_PREFIXED_FIELD (read_signed fsb)"

definition serialize_tree :: "(int \<Rightarrow> bytes) \<Rightarrow> vnode option \<Rightarrow> bytes result" where
  "serialize_tree tsb c = serialize_node tsb c"

definition deserialize_tree :: "(bytes \<Rightarrow> int) \<Rightarrow> bytes \<Rightarrow> vnode option result" where
  "deserialize_tree fsb data = rbind (deserialize_node_at_depth fsb 0 data) (\<lambda>(n, _). Inr n)"

lemmas blob_defs = serialize_tree_def serialize_node_def deserialize_tree_def deserialize_node_at_depth_def

text \<open>One node alone: a leaf without its value, a branch without its children.\<close>

fun serialize_node_solo :: "(int \<Rightarrow> bytes) \<Rightarrow> vnode \<Rightarrow> bytes" where
  "serialize_node_solo tsb (Leaf l) =
    TYPE_LEAF # write_length_prefixed (leaf_key l) @ write_length_prefixed [] @
      write_length_prefixed (leaf_hash_target l) @ write_length_prefixed (leaf_commitment l) @
      write_length_prefixed (tsb (leaf_size l))"
| "serialize_node_solo tsb (Branch p cs cm sz lc lb fp fl) =
    TYPE_BRANCH # write_prefix p @ write_length_prefixed cm @ write_length_prefixed (tsb sz) @ write_counters lc lb"

definition deserialize_node_solo :: "(bytes \<Rightarrow> int) \<Rightarrow> bytes \<Rightarrow> vnode result" where
  "deserialize_node_solo fsb data =
    rbind (read_u8 Serialization data) (\<lambda>(tag, bs).
      if tag = TYPE_LEAF then
        rbind (read_leaf MAX_LENGTH_PREFIXED_FIELD (read_signed fsb) bs) (\<lambda>(l, _). Inr (Leaf l))
      else if tag = TYPE_BRANCH then
        rbind (read_prefix bs) (\<lambda>(p, bs).
        rbind (read_branch_tail MAX_LENGTH_PREFIXED_FIELD (read_signed fsb) p (replicate BRANCH_NODES None) False bs)
          (\<lambda>(n, _). Inr n))
      else Inl Serialization)"

section \<open>The wire format\<close>

text \<open>\<open>tb\<close> and \<open>fb\<close> stand for the unsigned magnitude conversions \<open>to_bytes_be\<close> and \<open>from_bytes_be\<close>.\<close>

definition write_bigint :: "(int \<Rightarrow> bytes) \<Rightarrow> int \<Rightarrow> bytes result" where
  "write_bigint tb x =
    (if x < 0 then Inl Serialization
     else Inr (write_length_prefixed (if x = 0 then [] else tb x)))"

definition read_bigint :: "(bytes \<Rightarrow> int) \<Rightarrow> int reader" where
  "read_bigint fb bs =
    rbind (read_length_prefixed MAX_GO_FIELD bs) (\<lambda>(b, bs). Inr (if b = [] then 0 else fb b, bs))"

definition go_write_node :: "(int \<Rightarrow> bytes) \<Rightarrow> vnode option \<Rightarrow> bytes result" where
  "go_write_node tb = write_opt (write_bigint tb)"

definition go_read_node :: "(bytes \<Rightarrow> int) \<Rightarrow> nat \<Rightarrow> vnode option reader" where
  "go_read_node fb = read_node MAX_GO_FIELD (read_bigint fb)"

definition serialize_go_tree :: "(int \<Rightarrow> bytes) \<Rightarrow> vnode option \<Rightarrow> bytes result" where
  "serialize_go_tree tb c = go_write_node tb c"

definition deserialize_go_tree :: "(bytes \<Rightarrow> int) \<Rightarrow> bytes \<Rightarrow> vnode option result" where
  "deserialize_go_tree fb data = rbind (go_read_node fb 0 data) (\<lambda>(n, _). Inr n)"

lemmas wire_defs = serialize_go_tree_def go_write_node_def deserialize_go_tree_def go_read_node_def

end
