(* ===== verification/TreeSerializeOk.thy ===== *)
theory TreeSerializeOk
  imports TreeSerialize
begin

text \<open>
  Round trips of the tree formats, within the limits the readers enforce.
\<close>

section \<open>Fields\<close>

lemma sint_word_of_int: "- (2 ^ 31) \<le> x \<Longrightarrow> x < 2 ^ 31 \<Longrightarrow> sint (word_of_int x :: u32) = x"
  by (simp add: sint_sbintrunc' signed_take_bit_int_eq_self)

lemma unat_scast_u32: "n < 2 ^ 31 \<Longrightarrow> unat (scast (word_of_nat n :: u32) :: u64) = n"
proof -
  assume n: "n < 2 ^ 31"
  have "sint (word_of_nat n :: u32) = int n" using sint_word_of_int [of "int n"] n by simp
  then have "(scast (word_of_nat n :: u32) :: u64) = word_of_int (int n)" by (metis of_int_sint)
  then show ?thesis using n by (simp add: unat_of_nat)
qed

interpretation lp: codec write_length_prefixed "read_length_prefixed cap" "\<lambda>b. length b \<le> cap \<and> length b < 2 ^ 64" for cap
  by unfold_locales (simp add: write_length_prefixed_def read_length_prefixed_def)

interpretation i32: codec write_i32 read_i32 "\<lambda>x. - (2 ^ 31) \<le> x \<and> x < 2 ^ 31"
  by unfold_locales (simp add: write_i32_def read_i32_def sint_word_of_int)

definition prefix_ok :: "int list \<Rightarrow> bool" where
  "prefix_ok p \<longleftrightarrow> length p \<le> MAX_TREE_PREFIX_LEN \<and> list_all (\<lambda>x. - (2 ^ 31) \<le> x \<and> x < 2 ^ 31) p"

interpretation pfx: codec write_prefix read_prefix prefix_ok
proof unfold_locales
  fix p bs assume "prefix_ok p"
  moreover from this have "unat (word_of_nat (length p) :: u32) = length p"
    by (simp add: prefix_ok_def tree_limits)
  ultimately show "read_prefix (write_prefix p @ bs) = Inr (p, bs)"
    by (simp add: read_prefix_def write_prefix_def prefix_ok_def i32.many_append)
qed

interpretation counters: codec "\<lambda>(lc, lb). write_counters lc lb" read_counters "\<lambda>(lc, lb). lc < 2 ^ 64 \<and> lb < 2 ^ 31"
  by unfold_locales (auto simp: write_counters_def read_counters_def unat_scast_u32)

section \<open>Trees within the limits\<close>

definition field_ok :: "nat \<Rightarrow> bytes \<Rightarrow> bool" where
  "field_ok cap b \<longleftrightarrow> length b \<le> cap \<and> length b < 2 ^ 64"

definition leaf_ok :: "nat \<Rightarrow> (int \<Rightarrow> bool) \<Rightarrow> leaf_node \<Rightarrow> bool" where
  "leaf_ok cap szok l \<longleftrightarrow> field_ok cap (leaf_key l) \<and> field_ok cap (leaf_value l) \<and>
    field_ok cap (leaf_hash_target l) \<and> field_ok cap (leaf_commitment l) \<and> szok (leaf_size l)"

text \<open>A node the reader accepts at nesting depth \<open>d\<close>; a branch must leave room for its children.\<close>

fun node_ok :: "nat \<Rightarrow> (int \<Rightarrow> bool) \<Rightarrow> nat \<Rightarrow> vnode \<Rightarrow> bool" where
  "node_ok cap szok d (Leaf l) \<longleftrightarrow> d \<le> MAX_DESERIALIZE_DEPTH \<and> leaf_ok cap szok l"
| "node_ok cap szok d (Branch p cs cm sz lc lb fp fl) \<longleftrightarrow>
    d < MAX_DESERIALIZE_DEPTH \<and> prefix_ok p \<and> length cs = BRANCH_NODES \<and> field_ok cap cm \<and> szok sz \<and>
    lc < 2 ^ 64 \<and> lb < 2 ^ 31 \<and> fp = [] \<and> fl \<and>
    list_all (\<lambda>c. case c of None \<Rightarrow> True | Some n \<Rightarrow> node_ok cap szok (Suc d) n) cs"

text \<open>The contract of a size encoding.\<close>

definition size_codec :: "(int \<Rightarrow> bytes result) \<Rightarrow> int reader \<Rightarrow> (int \<Rightarrow> bool) \<Rightarrow> bool" where
  "size_codec wsz rsz szok \<longleftrightarrow> (\<forall>s. szok s \<longrightarrow> (\<exists>b. wsz s = Inr b \<and> (\<forall>bs. rsz (b @ bs) = Inr (s, bs))))"

lemma size_codecE:
  assumes "size_codec wsz rsz szok" "szok s"
  obtains b where "wsz s = Inr b" "\<forall>bs. rsz (b @ bs) = Inr (s, bs)"
  using assms unfolding size_codec_def by blast

lemma read_leaf_append:
  assumes "leaf_ok cap szok l" "\<forall>bs. rsz (b @ bs) = Inr (leaf_size l, bs)"
  shows "read_leaf cap rsz (write_length_prefixed (leaf_key l) @ write_length_prefixed (leaf_value l) @
    write_length_prefixed (leaf_hash_target l) @ write_length_prefixed (leaf_commitment l) @ b @ bs) = Inr (l, bs)"
  using assms by (simp add: read_leaf_def leaf_ok_def field_ok_def lp.dec_enc_append)

lemma read_branch_tail_append:
  assumes "field_ok cap cm" "\<forall>bs. rsz (b @ bs) = Inr (sz, bs)" "lc < 2 ^ 64" "lb < 2 ^ 31"
  shows "read_branch_tail cap rsz p cs fl (write_length_prefixed cm @ b @ write_counters lc lb @ bs) =
    Inr (Branch p cs cm sz lc lb [] fl, bs)"
  using assms counters.dec_enc_append [of "(lc, lb)" bs]
  by (simp add: read_branch_tail_def field_ok_def lp.dec_enc_append)

lemma cat_results_read:
  assumes "\<And>c. c \<in> set cs \<Longrightarrow> \<exists>b. w c = Inr b \<and> (\<forall>bs. r (b @ bs) = Inr (c, bs))"
  shows "\<exists>b. cat_results (map w cs) = Inr b \<and> (\<forall>bs. read_many (length cs) r (b @ bs) = Inr (cs, bs))"
  using assms
proof (induction cs)
  case (Cons c cs)
  obtain b where b: "w c = Inr b" "\<And>bs. r (b @ bs) = Inr (c, bs)" using Cons.prems [of c] by auto
  obtain b' where b': "cat_results (map w cs) = Inr b'" "\<And>bs. read_many (length cs) r (b' @ bs) = Inr (cs, bs)"
    using Cons by auto
  show ?case using b b' by (intro exI [of _ "b @ b'"]) simp
qed simp

lemma read_node_Nil: "d \<le> MAX_DESERIALIZE_DEPTH \<Longrightarrow> read_node cap rsz d (TYPE_NIL # bs) = Inr (None, bs)"
  by (simp add: read_node.simps [of cap rsz d])

theorem write_read_node:
  assumes "size_codec wsz rsz szok" "node_ok cap szok d n"
  shows "\<exists>b. write_node wsz n = Inr b \<and> (\<forall>bs. read_node cap rsz d (b @ bs) = Inr (Some n, bs))"
  using assms
proof (induction cap szok d n rule: node_ok.induct)
  case (1 cap szok d l)
  then have "szok (leaf_size l)" by (simp add: leaf_ok_def)
  from size_codecE [OF "1.prems"(1) this]
  obtain b where b: "wsz (leaf_size l) = Inr b" "\<forall>bs. rsz (b @ bs) = Inr (leaf_size l, bs)" by blast
  then show ?case using 1 read_leaf_append [of cap szok l rsz b]
    by (simp add: read_node.simps [of cap rsz d])
next
  case (2 cap szok d p cs cm sz lc lb fp fl)
  let ?w = "\<lambda>c. case c of None \<Rightarrow> Inr [TYPE_NIL] | Some n \<Rightarrow> write_node wsz n"
  have "\<exists>b. cat_results (map ?w cs) = Inr b \<and> (\<forall>bs. read_many (length cs) (read_node cap rsz (Suc d)) (b @ bs) = Inr (cs, bs))"
  proof (rule cat_results_read)
    fix c assume c: "c \<in> set cs"
    show "\<exists>b. ?w c = Inr b \<and> (\<forall>bs. read_node cap rsz (Suc d) (b @ bs) = Inr (c, bs))"
    proof (cases c)
      case None
      then show ?thesis using "2.prems"(2) read_node_Nil by simp
    next
      case (Some n)
      then show ?thesis using "2.IH" [OF c Some] "2.prems" c by (auto simp: list_all_iff)
    qed
  qed
  then obtain k where k: "cat_results (map ?w cs) = Inr k"
    "\<And>bs. read_many BRANCH_NODES (read_node cap rsz (Suc d)) (k @ bs) = Inr (cs, bs)" using "2.prems" by auto
  obtain b where b: "wsz sz = Inr b" "\<forall>bs. rsz (b @ bs) = Inr (sz, bs)"
    using "2.prems" by (auto elim: size_codecE)
  have "read_branch_tail cap rsz p cs True (write_length_prefixed cm @ b @ write_counters lc lb @ bs) =
      Inr (Branch p cs cm sz lc lb fp fl, bs)" for bs
    using read_branch_tail_append [OF _ b(2)] "2.prems" by simp
  then show ?case using k b(1) "2.prems"
    by (simp add: read_node.simps [of cap rsz d] pfx.dec_enc_append)
qed

lemma write_read_opt:
  assumes "size_codec wsz rsz szok" "\<forall>n. c = Some n \<longrightarrow> node_ok cap szok 0 n"
  shows "\<exists>b. write_opt wsz c = Inr b \<and> read_node cap rsz 0 b = Inr (c, [])"
proof (cases c)
  case None
  then show ?thesis using read_node_Nil [of 0] by (simp add: write_opt_def)
next
  case (Some n)
  then show ?thesis using write_read_node [of wsz rsz szok cap 0 n] assms
    by (auto simp: write_opt_def) (metis append_Nil2)
qed

section \<open>Size encodings\<close>

lemma signed_size_codec:
  assumes "\<And>x. fsb (tsb x) = x" "\<And>x. tsb x \<noteq> []"
  shows "size_codec (write_signed tsb) (read_signed fsb) (\<lambda>x. length (tsb x) \<le> MAX_LENGTH_PREFIXED_FIELD)"
  unfolding size_codec_def write_signed_def read_signed_def
  using assms by (auto simp: tree_limits lp.dec_enc_append)

lemma unsigned_size_codec:
  assumes "\<And>x. 0 < x \<Longrightarrow> fb (tb x) = x \<and> tb x \<noteq> []"
  shows "size_codec (write_bigint tb) (read_bigint fb) (\<lambda>x. 0 \<le> x \<and> length (tb x) \<le> MAX_GO_FIELD)"
  unfolding size_codec_def write_bigint_def read_bigint_def
  using assms by (auto simp: tree_limits lp.dec_enc_append)

lemma read_signed_append:
  assumes "fsb (tsb x) = x" "tsb x \<noteq> []" "length (tsb x) \<le> MAX_LENGTH_PREFIXED_FIELD"
  shows "read_signed fsb (write_length_prefixed (tsb x) @ bs) = Inr (x, bs)"
  using assms by (simp add: read_signed_def lp.dec_enc_append tree_limits)

section \<open>What the reader can return\<close>

lemma read_many_Inr:
  "read_many n r bs = Inr (xs, bs') \<Longrightarrow> length xs = n \<and> (\<forall>x \<in> set xs. \<exists>b b'. r b = Inr (x, b'))"
proof (induction n arbitrary: bs xs)
  case (Suc n)
  then obtain x b ys where "r bs = Inr (x, b)" "read_many n r b = Inr (ys, bs')" "xs = x # ys"
    by (auto simp: result_iff)
  with Suc.IH show ?case by auto
qed simp

lemma read_u64_lt: "unat (w :: u64) < 2 ^ 64"
  using unsigned_less [of w, where ?'a = nat] by simp

lemma read_length_prefixed_Inr: "read_length_prefixed cap bs = Inr (b, bs') \<Longrightarrow> field_ok cap b"
  using read_u64_lt
  by (auto simp: read_length_prefixed_def result_iff read_bytes_Inr field_ok_def split: if_splits)

lemma read_prefix_Inr: "read_prefix bs = Inr (p, bs') \<Longrightarrow> prefix_ok p"
proof -
  assume "read_prefix bs = Inr (p, bs')"
  then obtain n b where n: "unat n \<le> MAX_TREE_PREFIX_LEN" "read_many (unat (n :: u32)) read_i32 b = Inr (p, bs')"
    by (auto simp: read_prefix_def result_iff not_less split: if_splits)
  from read_many_Inr [OF n(2)] have p: "length p = unat n" "\<forall>x \<in> set p. \<exists>b b'. read_i32 b = Inr (x, b')" by auto
  have "- (2 ^ 31) \<le> x \<and> x < 2 ^ 31" if x: "read_i32 b = Inr (x, b')" for x b b'
  proof -
    obtain w :: u32 where "x = sint w" using x by (auto simp: read_i32_def result_iff)
    then show ?thesis using sint_greater_eq [of w] sint_less [of w] by simp
  qed
  with p(2) have "\<forall>x \<in> set p. - (2 ^ 31) \<le> x \<and> x < 2 ^ 31" by meson
  with n(1) p(1) show ?thesis unfolding prefix_ok_def list_all_iff by (simp only: simp_thms)
qed

text \<open>The limits, for a node read at nesting depth \<open>d\<close>.\<close>

fun decoded_ok :: "nat \<Rightarrow> nat \<Rightarrow> vnode \<Rightarrow> bool" where
  "decoded_ok cap d (Leaf l) \<longleftrightarrow> d \<le> MAX_DESERIALIZE_DEPTH \<and> leaf_ok cap (\<lambda>_. True) l"
| "decoded_ok cap d (Branch p cs cm sz lc lb fp fl) \<longleftrightarrow>
    d < MAX_DESERIALIZE_DEPTH \<and> prefix_ok p \<and> length cs = BRANCH_NODES \<and> field_ok cap cm \<and> fp = [] \<and> fl \<and>
    list_all (\<lambda>c. case c of None \<Rightarrow> True | Some n \<Rightarrow> decoded_ok cap (Suc d) n) cs"

lemma read_leaf_Inr: "read_leaf cap rsz bs = Inr (l, bs') \<Longrightarrow> leaf_ok cap (\<lambda>_. True) l"
  by (auto simp: read_leaf_def result_iff leaf_ok_def dest!: read_length_prefixed_Inr)

lemma read_branch_tail_Inr:
  "read_branch_tail cap rsz p cs fl bs = Inr (n, bs') \<Longrightarrow>
    \<exists>cm sz lc lb. n = Branch p cs cm sz lc lb [] fl \<and> field_ok cap cm"
  by (auto simp: read_branch_tail_def result_iff dest!: read_length_prefixed_Inr)

lemma read_node_decoded:
  "read_node cap rsz d bs = Inr (c, bs') \<Longrightarrow> d \<le> MAX_DESERIALIZE_DEPTH \<and> (\<forall>n. c = Some n \<longrightarrow> decoded_ok cap d n)"
proof (induction cap rsz d bs arbitrary: c bs' rule: read_node.induct)
  case (1 cap rsz d bs)
  from "1.prems" have d: "\<not> MAX_DESERIALIZE_DEPTH < d" by (auto simp: read_node.simps [of cap rsz d])
  from "1.prems" d obtain tag b where t: "read_u8 Serialization bs = Inr (tag, b)"
    by (auto simp: read_node.simps [of cap rsz d] result_iff)
  have eq: "read_node cap rsz d bs =
      (if tag = TYPE_NIL then Inr (None, b)
       else if tag = TYPE_LEAF then rbind (read_leaf cap rsz b) (\<lambda>(l, bs). Inr (Some (Leaf l), bs))
       else if tag = TYPE_BRANCH then
         rbind (read_prefix b) (\<lambda>(p, bs).
         rbind (read_many BRANCH_NODES (\<lambda>b. read_node cap rsz (Suc d) b) bs) (\<lambda>(cs, bs).
         rbind (read_branch_tail cap rsz p cs True bs) (\<lambda>(n, bs). Inr (Some n, bs))))
       else Inl Serialization)"
    using d t by (simp add: read_node.simps [of cap rsz d])
  consider (nil) "c = None" | (leaf) l where "read_leaf cap rsz b = Inr (l, bs')" "c = Some (Leaf l)"
    | (branch) p b1 cs b2 n where "tag \<noteq> TYPE_NIL" "tag \<noteq> TYPE_LEAF" "tag = TYPE_BRANCH" "read_prefix b = Inr (p, b1)"
      "read_many BRANCH_NODES (\<lambda>b. read_node cap rsz (Suc d) b) b1 = Inr (cs, b2)"
      "read_branch_tail cap rsz p cs True b2 = Inr (n, bs')" "c = Some n"
    using "1.prems" unfolding eq by (auto simp: result_iff split: if_splits)
  then show ?case
  proof cases
    case leaf
    then show ?thesis using d read_leaf_Inr by simp
  next
    case branch
    note many = read_many_Inr [OF branch(5)]
    have IH: "Suc d \<le> MAX_DESERIALIZE_DEPTH \<and> (\<forall>n. x = Some n \<longrightarrow> decoded_ok cap (Suc d) n)" if x: "x \<in> set cs" for x
    proof -
      obtain b3 b4 where "read_node cap rsz (Suc d) b3 = Inr (x, b4)" using many x by blast
      then show ?thesis using "1.IH" [OF d t refl] branch by blast
    qed
    have "cs ! 0 \<in> set cs" using many by (simp add: BRANCH_NODES_def)
    with IH have "Suc d \<le> MAX_DESERIALIZE_DEPTH" by blast
    moreover have "list_all (\<lambda>c. case c of None \<Rightarrow> True | Some n \<Rightarrow> decoded_ok cap (Suc d) n) cs"
      using IH by (auto simp: list_all_iff split: option.splits)
    ultimately show ?thesis
      using read_branch_tail_Inr [OF branch(6)] read_prefix_Inr [OF branch(4)] many branch(7) by auto
  qed (use d in simp)
qed

section \<open>Properties\<close>

lemma be_nat_zeros: "be_nat (replicate n 0) = 0"
  by (induction n) (simp_all add: be_nat_def)

text \<open>
  A concrete integer encoding and a concrete tree, for the instances below.
\<close>

definition unary_signed :: "int \<Rightarrow> bytes" where
  "unary_signed x = (if x < 0 then 1 else 0) # replicate (nat \<bar>x\<bar>) 0"

definition signed_unary :: "bytes \<Rightarrow> int" where
  "signed_unary b = (if hd b = 1 then - int (length b - 1) else int (length b - 1))"

lemma unary_signed: "signed_unary (unary_signed x) = x \<and> unary_signed x \<noteq> []"
  by (simp add: unary_signed_def signed_unary_def)

definition example_node :: vnode where
  "example_node = Branch [3, 4] ((replicate 64 None)[5 := Some (Leaf \<lparr>leaf_key = [1], leaf_value = [2], leaf_hash_target = [],
    leaf_commitment = [7], leaf_size = 2\<rparr>)]) [9] 2 1 0 [] True"

lemma example_node_ok: "szok 2 \<Longrightarrow> 3 \<le> cap \<Longrightarrow> node_ok cap szok 0 example_node"
  by (auto simp: example_node_def list_all_iff tree_limits prefix_ok_def BRANCH_NODES_def leaf_ok_def field_ok_def
      dest!: set_update_subset_insert [THEN subsetD] split: option.splits)

text \<open>
  C12. The local blob format: for a big-integer library whose signed conversions are inverse and
  never empty, serializing a tree within the reader's limits succeeds and deserializing the
  result gives the same tree back.
\<close>

theorem serialize_tree_roundtrip:
  assumes "\<forall>x. fsb (tsb x) = x" "\<forall>x. tsb x \<noteq> []"
    and "\<forall>n. c = Some n \<longrightarrow>
      node_ok MAX_LENGTH_PREFIXED_FIELD (\<lambda>x. length (tsb x) \<le> MAX_LENGTH_PREFIXED_FIELD) 0 n"
  shows "\<exists>b. serialize_tree tsb c = Inr b \<and> deserialize_tree fsb b = Inr c"
proof -
  have "size_codec (write_signed tsb) (read_signed fsb) (\<lambda>x. length (tsb x) \<le> MAX_LENGTH_PREFIXED_FIELD)"
    using assms(1,2) by (intro signed_size_codec) auto
  from write_read_opt [OF this assms(3)] show ?thesis by (auto simp: blob_defs)
qed

theorem serialize_tree_roundtrip_witness:
  "\<exists>b. serialize_tree unary_signed (Some example_node) = Inr b \<and> deserialize_tree signed_unary b = Inr (Some example_node)"
proof (rule serialize_tree_roundtrip)
  show "\<forall>n. Some example_node = Some n \<longrightarrow>
      node_ok MAX_LENGTH_PREFIXED_FIELD (\<lambda>x. length (unary_signed x) \<le> MAX_LENGTH_PREFIXED_FIELD) 0 n"
    using example_node_ok by (simp add: unary_signed_def tree_limits)
qed (simp_all add: unary_signed)

text \<open>
  C13. The wire format: for inverse conversions of positive integers, serializing a tree with
  non-negative sizes within the reader's limits succeeds and deserializing gives it back.
\<close>

theorem serialize_go_tree_roundtrip:
  assumes "\<forall>x > 0. fb (tb x) = x \<and> tb x \<noteq> []"
    and "\<forall>n. c = Some n \<longrightarrow> node_ok MAX_GO_FIELD (\<lambda>x. 0 \<le> x \<and> length (tb x) \<le> MAX_GO_FIELD) 0 n"
  shows "\<exists>b. serialize_go_tree tb c = Inr b \<and> deserialize_go_tree fb b = Inr c"
proof -
  have "size_codec (write_bigint tb) (read_bigint fb) (\<lambda>x. 0 \<le> x \<and> length (tb x) \<le> MAX_GO_FIELD)"
    using assms(1) by (intro unsigned_size_codec) auto
  from write_read_opt [OF this assms(2)] show ?thesis by (auto simp: wire_defs)
qed

theorem serialize_go_tree_roundtrip_witness:
  "\<exists>b. serialize_go_tree (\<lambda>x. replicate (nat x) 0) (Some example_node) = Inr b \<and>
    deserialize_go_tree (\<lambda>b. int (length b)) b = Inr (Some example_node)"
proof (rule serialize_go_tree_roundtrip)
  show "\<forall>n. Some example_node = Some n \<longrightarrow>
      node_ok MAX_GO_FIELD (\<lambda>x. 0 \<le> x \<and> length (replicate (nat x) (0 :: byte)) \<le> MAX_GO_FIELD) 0 n"
    using example_node_ok by (simp add: tree_limits)
qed auto

text \<open>
  The per-node format drops a leaf's value and a branch's children and marks the branch as
  not loaded; everything else comes back.
\<close>

lemma serialize_node_solo_roundtrip:
  assumes "\<forall>x. fsb (tsb x) = x" "\<forall>x. tsb x \<noteq> []"
    and "node_ok MAX_LENGTH_PREFIXED_FIELD (\<lambda>x. length (tsb x) \<le> MAX_LENGTH_PREFIXED_FIELD) 0 n"
  shows "deserialize_node_solo fsb (serialize_node_solo tsb n) =
    Inr (case n of Leaf l \<Rightarrow> Leaf (l\<lparr>leaf_value := []\<rparr>)
         | Branch p cs cm sz lc lb fp fl \<Rightarrow> Branch p (replicate BRANCH_NODES None) cm sz lc lb [] False)"
proof (cases n)
  case (Leaf l)
  have "\<forall>bs. read_signed fsb (write_length_prefixed (tsb (leaf_size l)) @ bs) = Inr (leaf_size l, bs)"
    using assms Leaf by (auto simp: leaf_ok_def intro!: read_signed_append)
  moreover have "leaf_ok MAX_LENGTH_PREFIXED_FIELD (\<lambda>x. length (tsb x) \<le> MAX_LENGTH_PREFIXED_FIELD) (l\<lparr>leaf_value := []\<rparr>)"
    using assms(3) Leaf by (simp add: leaf_ok_def field_ok_def)
  ultimately show ?thesis
    using read_leaf_append [of MAX_LENGTH_PREFIXED_FIELD _ "l\<lparr>leaf_value := []\<rparr>" "read_signed fsb" _ "[]"] Leaf
    by (simp add: deserialize_node_solo_def)
next
  case (Branch p cs cm sz lc lb fp fl)
  have "\<forall>bs. read_signed fsb (write_length_prefixed (tsb sz) @ bs) = Inr (sz, bs)"
    using assms Branch by (auto intro!: read_signed_append)
  then show ?thesis
    using read_branch_tail_append [of MAX_LENGTH_PREFIXED_FIELD cm "read_signed fsb" "write_length_prefixed (tsb sz)" sz lc lb _ _ _ "[]"]
      assms(3) Branch
    by (simp add: deserialize_node_solo_def pfx.dec_enc_append)
qed

lemma serialize_node_solo_roundtrip_witness:
  "deserialize_node_solo signed_unary (serialize_node_solo unary_signed example_node) =
    Inr (Branch [3, 4] (replicate BRANCH_NODES None) [9] 2 1 0 [] False)"
proof -
  have "node_ok MAX_LENGTH_PREFIXED_FIELD (\<lambda>x. length (unary_signed x) \<le> MAX_LENGTH_PREFIXED_FIELD) 0 example_node"
    by (rule example_node_ok) (simp_all add: unary_signed_def tree_limits)
  from serialize_node_solo_roundtrip [OF _ _ this, of signed_unary] unary_signed show ?thesis
    by (simp add: example_node_def del: serialize_node_solo.simps)
qed

text \<open>
  C14. Whatever the input bytes are, a tree that the wire reader returns nests at most 128
  branches, has prefixes of at most 256 nibbles, 64 slots per branch and no field above the
  cap; deeper or longer input is refused.
\<close>

theorem deserialize_go_tree_bounded:
  "deserialize_go_tree fb data = Inr (Some n) \<Longrightarrow> decoded_ok MAX_GO_FIELD 0 n"
  using read_node_decoded [of MAX_GO_FIELD "read_bigint fb" 0 data "Some n"]
  by (auto simp: wire_defs result_iff)

theorem deserialize_go_tree_bounded_witness:
  "\<exists>b. deserialize_go_tree (\<lambda>b. int (length b)) b = Inr (Some (Leaf \<lparr>leaf_key = [], leaf_value = [], leaf_hash_target = [],
      leaf_commitment = [], leaf_size = 0\<rparr>)) \<and>
    decoded_ok MAX_GO_FIELD 0 (Leaf \<lparr>leaf_key = [], leaf_value = [], leaf_hash_target = [], leaf_commitment = [], leaf_size = 0\<rparr>)"
proof (rule exI, rule conjI)
  show d: "deserialize_go_tree (\<lambda>b. int (length b)) (1 # replicate 40 0) =
      Inr (Some (Leaf \<lparr>leaf_key = [], leaf_value = [], leaf_hash_target = [], leaf_commitment = [], leaf_size = 0\<rparr>))"
    by (simp add: wire_defs read_node.simps [of _ _ 0] TYPE_NIL_def TYPE_LEAF_def read_leaf_def
        read_length_prefixed_def read_bigint_def read_u64_def read_bytes_def u64_from_be_bytes_def be_nat_zeros)
  show "decoded_ok MAX_GO_FIELD 0 (Leaf \<lparr>leaf_key = [], leaf_value = [], leaf_hash_target = [], leaf_commitment = [], leaf_size = 0\<rparr>)"
    using d by (rule deserialize_go_tree_bounded)
qed

end
