(* ===== verification/VertexCommit.thy ===== *)
theory VertexCommit
  imports TreeSerializeOk
begin

text \<open>
  Per-vertex commitments and the shard-leaf encoding: \<^verbatim>\<open>quil-tries/src/vertex_commit.rs\<close>.
  SHA-512 (\<open>h\<close>), SHA-256 (\<open>h2\<close>) and the big-integer conversion (\<open>fb\<close>) are parameters.
\<close>

definition VERTEX_LEAF_LEN :: nat where "VERTEX_LEAF_LEN = 32 + 8"

text \<open>The hash-based inclusion prover: it commits by hashing and refuses every proof operation.\<close>

definition sha_prover :: "(bytes \<Rightarrow> bytes) \<Rightarrow> prover" where
  "sha_prover h2 =
    \<lparr>commit_raw = \<lambda>d n. Inr (h2 d), prove_multi = \<lambda>cs ps ixs n. Inl Internal,
     verify_multi = \<lambda>cs ys ixs n c p. False\<rparr>"

definition vertex_commitment :: "(bytes \<Rightarrow> bytes) \<Rightarrow> (bytes \<Rightarrow> bytes) \<Rightarrow> (bytes \<Rightarrow> int) \<Rightarrow> bytes \<Rightarrow> bytes" where
  "vertex_commitment h h2 fb blob =
    (if blob = [] then replicate 32 0
     else case deserialize_go_tree fb blob of
       Inr (Some n) \<Rightarrow> h2 (fst (tree_commit h (sha_prover h2) \<lparr>root = Some n\<rparr>))
     | _ \<Rightarrow> h2 blob)"

definition vertex_leaf_value :: "(bytes \<Rightarrow> bytes) \<Rightarrow> (bytes \<Rightarrow> bytes) \<Rightarrow> (bytes \<Rightarrow> int) \<Rightarrow> bytes \<Rightarrow> bytes" where
  "vertex_leaf_value h h2 fb blob = vertex_commitment h h2 fb blob @ u64_to_be_bytes (word_of_nat (length blob))"

definition sized_tombstone_leaf_value :: "(bytes \<Rightarrow> bytes) \<Rightarrow> (bytes \<Rightarrow> bytes) \<Rightarrow> (bytes \<Rightarrow> int) \<Rightarrow> u64 \<Rightarrow> bytes" where
  "sized_tombstone_leaf_value h h2 fb sz = take 32 (vertex_leaf_value h h2 fb []) @ u64_to_be_bytes sz"

definition split_vertex_leaf :: "bytes \<Rightarrow> (bytes \<times> u64) option" where
  "split_vertex_leaf v =
    (if length v < 32 then None
     else Some (take 32 v,
       if VERTEX_LEAF_LEN \<le> length v then u64_from_be_bytes (take 8 (drop 32 v)) else 0))"

lemma length_vertex_commitment:
  assumes "\<And>x. length (h2 x) = 32"
  shows "length (vertex_commitment h h2 fb blob) = 32"
  using assms by (auto simp: vertex_commitment_def split: sum.splits option.splits)

lemma split_append:
  "length c = 32 \<Longrightarrow> split_vertex_leaf (c @ u64_to_be_bytes s) = Some (c, s)"
  by (simp add: split_vertex_leaf_def VERTEX_LEAF_LEN_def)

section \<open>Properties\<close>

text \<open>
  Splitting the shard-leaf value of a vertex gives its commitment and its byte size, and
  splitting a sized tombstone gives the commitment of the empty vertex and the recorded size,
  so a tombstone differs from the unsized one in the size field only.
\<close>

theorem split_vertex_leaf_value:
  assumes "\<forall>x. length (h2 x) = 32"
  shows "split_vertex_leaf (vertex_leaf_value h h2 fb blob) = Some (vertex_commitment h h2 fb blob, word_of_nat (length blob)) \<and>
    split_vertex_leaf (sized_tombstone_leaf_value h h2 fb sz) = Some (replicate 32 0, sz) \<and>
    sized_tombstone_leaf_value h h2 fb 0 = vertex_leaf_value h h2 fb []"
proof -
  have "vertex_commitment h h2 fb [] = replicate 32 0" by (simp add: vertex_commitment_def)
  then have tomb: "sized_tombstone_leaf_value h h2 fb s = replicate 32 0 @ u64_to_be_bytes s" for s
    by (simp add: sized_tombstone_leaf_value_def vertex_leaf_value_def)
  show ?thesis
    unfolding tomb using split_append [of "replicate 32 0" sz]
      split_append [OF length_vertex_commitment [of h2 h fb blob]] assms
    by (simp add: vertex_leaf_value_def vertex_commitment_def [of _ _ _ "[]"])
qed

theorem split_vertex_leaf_value_witness:
  "split_vertex_leaf (sized_tombstone_leaf_value id (\<lambda>x. resize 32 x) (\<lambda>b. int (length b)) 5) = Some (replicate 32 0, 5)"
  using split_vertex_leaf_value [of "\<lambda>x. resize 32 x" id "\<lambda>b. int (length b)" "[]" 5] by simp

text \<open>
  C11. The commitment of a serialized vertex is a function of its fields: two well-formed trees
  with the same contents, each written in the wire format and read back, commit to the same
  32 bytes, whatever order the fields were inserted in and whatever caches the blobs carry.
\<close>

theorem vertex_commitment_of_fields:
  assumes "\<forall>x > 0. fb (tb x) = x \<and> tb x \<noteq> []"
    and "tree_wf t" "tree_wf t'" "tree_entry t = tree_entry t'" "root t = Some n" "root t' = Some n'"
    and "node_ok MAX_GO_FIELD (\<lambda>x. 0 \<le> x \<and> length (tb x) \<le> MAX_GO_FIELD) 0 n"
      "node_ok MAX_GO_FIELD (\<lambda>x. 0 \<le> x \<and> length (tb x) \<le> MAX_GO_FIELD) 0 n'"
  shows "\<exists>b b'. serialize_go_tree tb (root t) = Inr b \<and> serialize_go_tree tb (root t') = Inr b' \<and>
    vertex_commitment h h2 fb b = vertex_commitment h h2 fb b'"
proof -
  have sc: "size_codec (write_bigint tb) (read_bigint fb) (\<lambda>x. 0 \<le> x \<and> length (tb x) \<le> MAX_GO_FIELD)"
    using assms(1) by (intro unsigned_size_codec) auto
  have commit: "\<exists>b. serialize_go_tree tb (Some n) = Inr b \<and>
      vertex_commitment h h2 fb b = h2 (fst (tree_commit h (sha_prover h2) \<lparr>root = Some n\<rparr>))"
    if ok: "node_ok MAX_GO_FIELD (\<lambda>x. 0 \<le> x \<and> length (tb x) \<le> MAX_GO_FIELD) 0 n" for n
  proof -
    obtain b where b: "write_opt (write_bigint tb) (Some n) = Inr b" "read_node MAX_GO_FIELD (read_bigint fb) 0 b = Inr (Some n, [])"
      using write_read_opt [OF sc, of "Some n"] ok by auto
    have "b \<noteq> []" using b(2) by (auto simp: read_node.simps [of _ _ 0] read_u8_def)
    then show ?thesis using b by (auto simp: wire_defs vertex_commitment_def)
  qed
  have "fst (tree_commit h (sha_prover h2) t) = fst (tree_commit h (sha_prover h2) t')"
    using assms(2-4) by (intro commit_of_shape shape_of_contents)
  moreover have "t = \<lparr>root = Some n\<rparr>" "t' = \<lparr>root = Some n'\<rparr>" using assms(5,6) by (cases t; cases t'; simp)+
  ultimately show ?thesis using commit [OF assms(7)] commit [OF assms(8)] assms(5,6) by auto
qed

theorem vertex_commitment_of_fields_witness:
  "\<exists>b b'. serialize_go_tree (\<lambda>x. replicate (nat x) 0) (Some (Leaf \<lparr>leaf_key = [1], leaf_value = [2], leaf_hash_target = [],
      leaf_commitment = [7], leaf_size = 2\<rparr>)) = Inr b \<and>
    serialize_go_tree (\<lambda>x. replicate (nat x) 0) (Some (Leaf \<lparr>leaf_key = [1], leaf_value = [2], leaf_hash_target = [],
      leaf_commitment = [], leaf_size = 2\<rparr>)) = Inr b' \<and>
    vertex_commitment id id (\<lambda>b. int (length b)) b = vertex_commitment id id (\<lambda>b. int (length b)) b'"
proof -
  let ?n = "\<lambda>c. Leaf \<lparr>leaf_key = [1], leaf_value = [2], leaf_hash_target = [], leaf_commitment = c, leaf_size = 2\<rparr>"
  let ?t = "\<lambda>c. \<lparr>root = Some (?n c)\<rparr>"
  have "tree_wf (?t c)" for c by (simp add: tree_wf_def)
  moreover have "tree_entry (?t [7]) = tree_entry (?t [])" by (simp add: tree_entry_def leaf_entry_def)
  moreover have "node_ok MAX_GO_FIELD (\<lambda>x. 0 \<le> x \<and> length (replicate (nat x) (0 :: byte)) \<le> MAX_GO_FIELD) 0 (?n c)"
    if "c = [7] \<or> c = []" for c using that by (auto simp: leaf_ok_def field_ok_def tree_limits)
  ultimately show ?thesis
    using vertex_commitment_of_fields [of "\<lambda>b. int (length b)" "\<lambda>x. replicate (nat x) 0" "?t [7]" "?t []" "?n [7]" "?n []" id id]
    by simp
qed

end
