(* ===== verification/CrdtStaging.thy ===== *)
theory CrdtStaging
  imports VertexCommit ShardRanges
begin

text \<open>
  The staging area of the hypergraph (\<^verbatim>\<open>quil-hypergraph/src/addressing.rs\<close> and the mutation and read
  methods of \<^verbatim>\<open>quil-hypergraph/src/crdt.rs\<close>): vertices and hyperedges at 64-byte locations, each with an
  add set and a remove set, staged blobs read in front of the store, and the size and count kept per
  sub-shard. The store is a trait object of the source and an argument here, as is the SHAKE output
  stream that the bloom indices are taken from.
\<close>

section \<open>Addressing\<close>

record location =
  app_address :: bytes
  data_address :: bytes

definition from_id :: "bytes \<Rightarrow> location" where
  "from_id i = \<lparr>app_address = take 32 i, data_address = drop 32 i\<rparr>"

definition to_id :: "location \<Rightarrow> bytes" where
  "to_id loc = app_address loc @ data_address loc"

record shard_key =
  l1 :: bytes
  l2 :: bytes

text \<open>
  The three distinct bytes that open the SHAKE stream, sorted. A repeated byte extends the search, so
  on a stream with fewer than three distinct bytes the loop does not end.
\<close>

partial_function (option) bloom_loop :: "(nat \<Rightarrow> byte) \<Rightarrow> nat \<Rightarrow> nat \<Rightarrow> nat \<Rightarrow> bytes \<Rightarrow> bytes option" where
  "bloom_loop digest k actual_k i indices =
    (if length indices < k \<and> i < actual_k then
       if digest i \<in> set indices then bloom_loop digest k (actual_k + 1) (i + 1) indices
       else bloom_loop digest k actual_k (i + 1) (insort (digest i) indices)
     else Some indices)"

definition get_bloom_filter_indices :: "(bytes \<Rightarrow> nat \<Rightarrow> byte) \<Rightarrow> bytes \<Rightarrow> bytes option" where
  "get_bloom_filter_indices shake data =
    (if data = [] \<or> 0x3f < data ! 0 \<or> list_all (\<lambda>b. b = 0) data then Some [0, 0, 0]
     else map_option (\<lambda>indices. take 3 (indices @ [0, 0, 0])) (bloom_loop (shake data) 3 3 0 []))"

lemma bloom_loop_ends:
  assumes "3 \<le> card (digest ` {..<n})" "distinct indices" "sorted indices" "set indices = digest ` {..<i}" "length indices \<le> 3"
  shows "\<exists>r. bloom_loop digest 3 (3 + i - length indices) i indices = Some r \<and> length r = 3 \<and> distinct r \<and> sorted r \<and>
    set r \<subseteq> range digest"
  using assms(2-)
proof (induction "n - i" arbitrary: i indices rule: less_induct)
  case less
  have card: "length indices = card (digest ` {..<i})" using less.prems(1,3) distinct_card by metis
  show ?case
  proof (cases "length indices = 3")
    case True
    with less.prems show ?thesis by (auto simp: bloom_loop.simps)
  next
    case False
    then have len: "length indices < 3" using less.prems(4) by simp
    then have bound: "i < 3 + i - length indices" "Suc (3 + i - length indices) = 4 + i - length indices" by simp_all
    have "\<not> n \<le> i" 
    proof
      assume "n \<le> i"
      then have "digest ` {..<n} \<subseteq> digest ` {..<i}" by auto
      with assms(1) card len card_mono [of "digest ` {..<i}" "digest ` {..<n}"] show False by simp
    qed
    then have less_n: "n - Suc i < n - i" by simp
    have step: "digest ` {..<Suc i} = insert (digest i) (digest ` {..<i})" by (simp add: lessThan_Suc)
    show ?thesis
    proof (cases "digest i \<in> set indices")
      case True
      then have "set indices = digest ` {..<Suc i}" using step less.prems(3) by auto
      from less.hyps [OF less_n less.prems(1,2) this less.prems(4)] True len bound show ?thesis
        by (subst bloom_loop.simps) simp
    next
      case new: False
      then have "set (insort (digest i) indices) = digest ` {..<Suc i}" using step less.prems(3) by (simp add: set_insort_key)
      from less.hyps [OF less_n _ _ this] new len bound less.prems show ?thesis
        by (subst bloom_loop.simps) (auto simp: distinct_insort sorted_insort)
    qed
  qed
qed

text \<open>The search returns whenever the stream has three distinct bytes.\<close>

lemma get_bloom_filter_indices_ends:
  assumes "3 \<le> card (shake data ` {..<n})"
  shows "\<exists>r. get_bloom_filter_indices shake data = Some r \<and> length r = 3 \<and> sorted r"
proof -
  obtain r where "bloom_loop (shake data) 3 3 0 [] = Some r" "length r = 3" "sorted r"
    using bloom_loop_ends [OF assms, of "[]" 0] by auto
  then show ?thesis by (auto simp: get_bloom_filter_indices_def)
qed

section \<open>State\<close>

type_synonym blobs = "shard_key \<Rightarrow> nat \<Rightarrow> bytes \<Rightarrow> bytes option"

record crdt =
  pending :: blobs
  pending_blobs :: blobs
  pending_records :: "bytes \<Rightarrow> bytes option option"
  sub_meta :: "bytes \<Rightarrow> (u64 \<times> int) option"
  covered_prefix :: "int list"
  app_shard_prefixes :: "bytes \<Rightarrow> u32 list list option"
  app_shard_bit_paths :: "bytes \<Rightarrow> bool list list option"

text \<open>What the staging area calls: the SHAKE output stream of an address, the store's blob and record
  reads, and the hashes and integer conversion of the vertex leaf value.\<close>

record env =
  shake :: "bytes \<Rightarrow> nat \<Rightarrow> byte"
  load_blob :: "shard_key \<Rightarrow> nat \<Rightarrow> bytes \<Rightarrow> bytes option result"
  load_record :: "bytes \<Rightarrow> bytes option result"
  sha512 :: "bytes \<Rightarrow> bytes"
  sha256 :: "bytes \<Rightarrow> bytes"
  signed_int :: "bytes \<Rightarrow> int"

text \<open>A search that does not end never yields a key; the indices are then those of no address.\<close>

definition bloom :: "env \<Rightarrow> bytes \<Rightarrow> bytes" where
  "bloom e data = (case get_bloom_filter_indices (shake e) data of Some indices \<Rightarrow> indices | None \<Rightarrow> [])"

definition shard_key_for_location :: "env \<Rightarrow> location \<Rightarrow> shard_key" where
  "shard_key_for_location e loc = \<lparr>l1 = bloom e (app_address loc), l2 = app_address loc\<rparr>"

datatype mutation =
    AddVertex location bytes
  | RemoveVertex location
  | AddHyperedge location bytes
  | RemoveHyperedge location
  | Record bytes "bytes option"

record prepared =
  deltas :: blobs
  blobs :: blobs
  metadata :: "(bytes \<times> int \<times> int) list"
  records :: "bytes \<Rightarrow> bytes option option"

definition no_mutations :: prepared where
  "no_mutations = \<lparr>deltas = \<lambda>_ _ _. None, blobs = \<lambda>_ _ _. None, metadata = [], records = \<lambda>_. None\<rparr>"

definition put_blob :: "shard_key \<Rightarrow> nat \<Rightarrow> bytes \<Rightarrow> bytes \<Rightarrow> blobs \<Rightarrow> blobs" where
  "put_blob shard phase i b m = m(shard := (m shard)(phase := (m shard phase)(i \<mapsto> b)))"

section \<open>Reads\<close>

definition read_blob_checked :: "env \<Rightarrow> crdt \<Rightarrow> shard_key \<Rightarrow> nat \<Rightarrow> bytes \<Rightarrow> bytes option result" where
  "read_blob_checked e c shard phase_idx i =
    (case pending_blobs c shard phase_idx i of
       Some b \<Rightarrow> Inr (Some b)
     | None \<Rightarrow> load_blob e shard phase_idx i)"

definition nonempty :: "bytes option \<Rightarrow> bytes option" where
  "nonempty b = (case b of Some [] \<Rightarrow> None | _ \<Rightarrow> b)"

definition get_data :: "env \<Rightarrow> crdt \<Rightarrow> nat \<Rightarrow> location \<Rightarrow> bytes option result" where
  "get_data e c adds_phase loc =
    (let shard = shard_key_for_location e loc; i = to_id loc in
     rbind (read_blob_checked e c shard (adds_phase + 1) i) (\<lambda>removed.
       if removed \<noteq> None then Inr None
       else rbind (read_blob_checked e c shard adds_phase i) (\<lambda>b. Inr (nonempty b))))"

definition get_vertex_data_checked :: "env \<Rightarrow> crdt \<Rightarrow> location \<Rightarrow> bytes option result" where
  "get_vertex_data_checked e c loc = get_data e c 0 loc"

definition get_hyperedge_data_checked :: "env \<Rightarrow> crdt \<Rightarrow> location \<Rightarrow> bytes option result" where
  "get_hyperedge_data_checked e c loc = get_data e c 2 loc"

definition get_vertex_data :: "env \<Rightarrow> crdt \<Rightarrow> location \<Rightarrow> bytes option" where
  "get_vertex_data e c loc = (case get_vertex_data_checked e c loc of Inr b \<Rightarrow> b | Inl _ \<Rightarrow> None)"

definition lookup_vertex :: "env \<Rightarrow> crdt \<Rightarrow> location \<Rightarrow> bool" where
  "lookup_vertex e c loc \<longleftrightarrow> get_vertex_data e c loc \<noteq> None"

definition read_execution_record :: "env \<Rightarrow> crdt \<Rightarrow> bytes \<Rightarrow> bytes option result" where
  "read_execution_record e c key =
    (case pending_records c key of Some v \<Rightarrow> Inr v | None \<Rightarrow> load_record e key)"

section \<open>Mutations\<close>

definition prepared_read :: "env \<Rightarrow> crdt \<Rightarrow> prepared \<Rightarrow> shard_key \<Rightarrow> nat \<Rightarrow> bytes \<Rightarrow> bytes option result" where
  "prepared_read e c p shard phase i =
    (case blobs p shard phase i of
       Some b \<Rightarrow> Inr (Some b)
     | None \<Rightarrow> read_blob_checked e c shard phase i)"

definition per_vertex_leaf :: "env \<Rightarrow> bytes \<Rightarrow> bytes \<Rightarrow> bytes \<times> bytes" where
  "per_vertex_leaf e i blob =
    (if 64 \<le> length i then take 32 (drop 32 i) else i, vertex_leaf_value (sha512 e) (sha256 e) (signed_int e) blob)"

definition stage :: "env \<Rightarrow> shard_key \<Rightarrow> nat \<Rightarrow> bytes \<Rightarrow> bytes \<Rightarrow> u64 option \<Rightarrow> prepared \<Rightarrow> prepared" where
  "stage e shard phase i blob tombstone_size p =
    (let (k, v) = (case tombstone_size of
           Some sz \<Rightarrow> (take 32 (drop 32 i), sized_tombstone_leaf_value (sha512 e) (sha256 e) (signed_int e) sz)
         | None \<Rightarrow> per_vertex_leaf e i blob)
     in p\<lparr>deltas := put_blob shard phase k v (deltas p), blobs := put_blob shard phase i blob (blobs p)\<rparr>)"

definition app_prefixes :: "crdt \<Rightarrow> bytes \<Rightarrow> u32 list list" where
  "app_prefixes c app = (case app_shard_prefixes c app of Some ps \<Rightarrow> ps | None \<Rightarrow> [[]])"

definition shard_bit_paths :: "crdt \<Rightarrow> bytes \<Rightarrow> bool list list" where
  "shard_bit_paths c app =
    (case app_shard_bit_paths c app of
       Some bp \<Rightarrow> bp
     | None \<Rightarrow>
         let ps = app_prefixes c app in
         if ps \<noteq> [] \<and> list_all (\<lambda>p. shard_bit_path_from_prefix p \<noteq> None) ps
         then map (\<lambda>p. the (shard_bit_path_from_prefix p)) ps
         else canonical_shard_bit_paths ps)"

definition addr_path_shard_id :: "bytes \<Rightarrow> u32 list \<Rightarrow> bytes" where
  "addr_path_shard_id app levels = app @ concat (map u32_to_be_bytes levels)"

definition sub_shard_id_for :: "crdt \<Rightarrow> bytes \<Rightarrow> bytes \<Rightarrow> bytes result" where
  "sub_shard_id_for c app data_addr =
    (let ps = app_prefixes c app in
     if ps = [[]] then Inr (addr_path_shard_id app [])
     else let pi = address_shard_index data_addr (shard_bit_paths c app)
          in if pi < length ps then Inr (addr_path_shard_id app (ps ! pi)) else Inl Panic)"

definition PROVER_SHARD :: bytes where "PROVER_SHARD = replicate 32 0xff"

definition bump :: "crdt \<Rightarrow> shard_key \<Rightarrow> location \<Rightarrow> int \<Rightarrow> int \<Rightarrow> prepared \<Rightarrow> prepared result" where
  "bump c shard loc count sz p =
    (if l2 shard \<noteq> PROVER_SHARD then
       rbind (sub_shard_id_for c (l2 shard) (data_address loc)) (\<lambda>k.
         Inr (p\<lparr>metadata := metadata p @ [(k, count, sz)]\<rparr>))
     else Inr p)"

definition prepare_add :: "env \<Rightarrow> crdt \<Rightarrow> nat \<Rightarrow> location \<Rightarrow> bytes \<Rightarrow> prepared \<Rightarrow> prepared result" where
  "prepare_add e c adds_phase loc data p =
    (let shard = shard_key_for_location e loc; i = to_id loc in
     if adds_phase = 0 then
       rbind (prepared_read e c p shard 0 i) (\<lambda>existing.
         bump c shard loc (of_bool (existing = None)) (int (length data)) (stage e shard adds_phase i data None p))
     else
       rbind (prepared_read e c p shard 3 i) (\<lambda>removed.
         if removed \<noteq> None then Inr p
         else bump c shard loc 0 (int (length data)) (stage e shard adds_phase i data None p)))"

definition prepare_remove :: "env \<Rightarrow> crdt \<Rightarrow> nat \<Rightarrow> location \<Rightarrow> prepared \<Rightarrow> prepared result" where
  "prepare_remove e c adds_phase loc p =
    (let shard = shard_key_for_location e loc; i = to_id loc in
     rbind (prepared_read e c p shard adds_phase i) (\<lambda>existing.
     rbind (prepared_read e c p shard (adds_phase + 1) i) (\<lambda>tomb.
       let removed = tomb \<noteq> None;
           sz = (case existing of Some b \<Rightarrow> length b | None \<Rightarrow> 0);
           present = (sz \<noteq> 0 \<and> \<not> removed);
           placeholder = (existing = None);
           p = (if placeholder then stage e shard adds_phase i [] None p else p);
           p = stage e shard (adds_phase + 1) i [] (Some (word_of_nat sz)) p
       in if present \<or> adds_phase = 0 \<and> placeholder
          then bump c shard loc (of_bool (adds_phase = 0 \<and> placeholder)) (if present then - int sz else 0) p
          else Inr p)))"

fun prepare_one :: "env \<Rightarrow> crdt \<Rightarrow> mutation \<Rightarrow> prepared \<Rightarrow> prepared result" where
  "prepare_one e c (AddVertex loc data) p = prepare_add e c 0 loc data p"
| "prepare_one e c (RemoveVertex loc) p = prepare_remove e c 0 loc p"
| "prepare_one e c (AddHyperedge loc data) p = prepare_add e c 2 loc data p"
| "prepare_one e c (RemoveHyperedge loc) p = prepare_remove e c 2 loc p"
| "prepare_one e c (Record key val) p = Inr (p\<lparr>records := (records p)(key \<mapsto> val)\<rparr>)"

primrec prepare_all :: "env \<Rightarrow> crdt \<Rightarrow> mutation list \<Rightarrow> prepared \<Rightarrow> prepared result" where
  "prepare_all e c [] p = Inr p"
| "prepare_all e c (m # ms) p = rbind (prepare_one e c m p) (prepare_all e c ms)"

text \<open>The published metadata: each entry starts from the current one; the count is a checked or
  saturating 64-bit integer, the size a checked signed 128-bit one.\<close>

definition i128 :: "int \<Rightarrow> bool" where
  "i128 x \<longleftrightarrow> - (2 ^ 127) \<le> x \<and> x < 2 ^ 127"

definition next_entry :: "u64 \<times> int \<Rightarrow> int \<Rightarrow> int \<Rightarrow> (u64 \<times> int) result" where
  "next_entry entry count sz =
    (if 0 \<le> count \<and> 2 ^ 64 \<le> uint (fst entry) + count then Inl ExecutionUnavailable
     else if \<not> i128 (snd entry + sz) then Inl ExecutionUnavailable
     else Inr (if 0 \<le> count then fst entry + word_of_int count else saturating_sub (fst entry) (word_of_int (- count)),
       snd entry + sz))"

primrec next_metadata :: "(bytes \<Rightarrow> (u64 \<times> int) option) \<Rightarrow> (bytes \<times> int \<times> int) list \<Rightarrow> (bytes \<Rightarrow> (u64 \<times> int) option) result" where
  "next_metadata m [] = Inr m"
| "next_metadata m (x # xs) =
    (case x of (key, count, sz) \<Rightarrow>
       rbind (next_entry (case m key of Some v \<Rightarrow> v | None \<Rightarrow> (0, 0)) count sz) (\<lambda>v.
         next_metadata (m(key \<mapsto> v)) xs))"

definition publish :: "crdt \<Rightarrow> prepared \<Rightarrow> crdt result" where
  "publish c p =
    rbind (next_metadata (sub_meta c) (metadata p)) (\<lambda>m.
      Inr (c\<lparr>pending := \<lambda>s ph. pending c s ph ++ deltas p s ph,
             pending_blobs := \<lambda>s ph. pending_blobs c s ph ++ blobs p s ph,
             sub_meta := m,
             pending_records := pending_records c ++ records p\<rparr>))"

definition apply_mutations :: "env \<Rightarrow> crdt \<Rightarrow> mutation list \<Rightarrow> crdt result" where
  "apply_mutations e c ms = rbind (prepare_all e c ms no_mutations) (publish c)"

definition add_vertex :: "env \<Rightarrow> crdt \<Rightarrow> location \<Rightarrow> bytes \<Rightarrow> crdt result" where
  "add_vertex e c loc data = apply_mutations e c [AddVertex loc data]"

definition remove_vertex :: "env \<Rightarrow> crdt \<Rightarrow> location \<Rightarrow> crdt result" where
  "remove_vertex e c loc = apply_mutations e c [RemoveVertex loc]"

definition add_hyperedge :: "env \<Rightarrow> crdt \<Rightarrow> location \<Rightarrow> bytes \<Rightarrow> crdt result" where
  "add_hyperedge e c loc data = apply_mutations e c [AddHyperedge loc data]"

definition remove_hyperedge :: "env \<Rightarrow> crdt \<Rightarrow> location \<Rightarrow> crdt result" where
  "remove_hyperedge e c loc = apply_mutations e c [RemoveHyperedge loc]"

section \<open>What the staged cells hold\<close>

text \<open>A store whose reads do not fail, and the cells seen through the staged blobs in front of it.\<close>

definition reads_from :: "env \<Rightarrow> blobs \<Rightarrow> bool" where
  "reads_from e base \<longleftrightarrow> (\<forall>s ph i. load_blob e s ph i = Inr (base s ph i))"

definition overlay :: "blobs \<Rightarrow> blobs \<Rightarrow> blobs" where
  "overlay base staged s ph = base s ph ++ staged s ph"

definition cells :: "blobs \<Rightarrow> crdt \<Rightarrow> blobs" where
  "cells base c = overlay base (pending_blobs c)"

text \<open>The effect of one mutation on the cells: the two sets of a vertex or hyperedge are phases
  \<open>n\<close> and \<open>n + 1\<close>; a removal leaves an empty entry in both.\<close>

definition add_cell :: "env \<Rightarrow> nat \<Rightarrow> location \<Rightarrow> bytes \<Rightarrow> blobs \<Rightarrow> blobs" where
  "add_cell e n loc d m = put_blob (shard_key_for_location e loc) n (to_id loc) d m"

definition remove_cell :: "env \<Rightarrow> nat \<Rightarrow> location \<Rightarrow> blobs \<Rightarrow> blobs" where
  "remove_cell e n loc m =
    add_cell e (n + 1) loc [] (if m (shard_key_for_location e loc) n (to_id loc) = None then add_cell e n loc [] m else m)"

fun step_cells :: "env \<Rightarrow> mutation \<Rightarrow> blobs \<Rightarrow> blobs" where
  "step_cells e (AddVertex loc d) m = add_cell e 0 loc d m"
| "step_cells e (RemoveVertex loc) m = remove_cell e 0 loc m"
| "step_cells e (AddHyperedge loc d) m =
    (if m (shard_key_for_location e loc) 3 (to_id loc) \<noteq> None then m else add_cell e 2 loc d m)"
| "step_cells e (RemoveHyperedge loc) m = remove_cell e 2 loc m"
| "step_cells e (Record k v) m = m"

lemma put_blob_apply:
  "put_blob s n i b m s' n' i' = (if s' = s \<and> n' = n \<and> i' = i then Some b else m s' n' i')"
  by (simp add: put_blob_def)

lemma overlay_put: "overlay base (put_blob s n i b m) = put_blob s n i b (overlay base m)"
  by (intro ext) (simp add: overlay_def put_blob_apply map_add_def)

lemma read_blob_cells: "reads_from e base \<Longrightarrow> read_blob_checked e c s n i = Inr (cells base c s n i)"
  by (simp add: read_blob_checked_def reads_from_def cells_def overlay_def map_add_def split: option.split)

lemma prepared_read_cells:
  "reads_from e base \<Longrightarrow> prepared_read e c p s n i = Inr (overlay (cells base c) (blobs p) s n i)"
  by (simp add: prepared_read_def read_blob_cells overlay_def map_add_def split: option.split)

lemma blobs_stage [simp]: "blobs (stage e s n i b t p) = put_blob s n i b (blobs p)"
  by (simp add: stage_def split: prod.split)

lemma metadata_stage [simp]: "metadata (stage e s n i b t p) = metadata p"
  by (simp add: stage_def split: prod.split)

lemma bump_blobs: "bump c s loc k z p = Inr p' \<Longrightarrow> blobs p' = blobs p"
  by (auto simp: bump_def result_iff split: if_splits)

lemma prepare_one_cells:
  assumes "reads_from e base" "prepare_one e c m p = Inr p'"
  shows "overlay (cells base c) (blobs p') = step_cells e m (overlay (cells base c) (blobs p))"
proof (cases m)
  case (AddVertex loc d)
  with assms show ?thesis
    by (auto simp: prepare_add_def Let_def prepared_read_cells add_cell_def overlay_put dest!: bump_blobs)
next
  case (AddHyperedge loc d)
  with assms show ?thesis
    by (auto simp: prepare_add_def Let_def prepared_read_cells add_cell_def overlay_put dest!: bump_blobs split: if_splits)
next
  case (RemoveVertex loc)
  with assms show ?thesis
    by (auto simp: prepare_remove_def Let_def prepared_read_cells add_cell_def remove_cell_def overlay_put dest!: bump_blobs split: if_splits)
next
  case (RemoveHyperedge loc)
  with assms show ?thesis
    by (auto simp: prepare_remove_def Let_def prepared_read_cells add_cell_def remove_cell_def overlay_put dest!: bump_blobs split: if_splits)
next
  case (Record k v)
  with assms show ?thesis by auto
qed

lemma prepare_all_cells:
  "reads_from e base \<Longrightarrow> prepare_all e c ms p = Inr p' \<Longrightarrow>
    overlay (cells base c) (blobs p') = fold (step_cells e) ms (overlay (cells base c) (blobs p))"
  by (induction ms arbitrary: p) (auto simp: result_iff dest: prepare_one_cells)

lemma apply_mutations_cells:
  assumes "reads_from e base" "apply_mutations e c ms = Inr c'"
  shows "cells base c' = fold (step_cells e) ms (cells base c)"
proof -
  from assms(2) obtain p where p: "prepare_all e c ms no_mutations = Inr p" "publish c p = Inr c'"
    by (auto simp: apply_mutations_def result_iff)
  then have "cells base c' = overlay (cells base c) (blobs p)"
    by (auto simp: publish_def result_iff cells_def overlay_def fun_eq_iff)
  moreover have "overlay (cells base c) (blobs no_mutations) = cells base c"
    by (simp add: overlay_def no_mutations_def fun_eq_iff map_add_def)
  ultimately show ?thesis using prepare_all_cells [OF assms(1) p(1)] by simp
qed

definition live :: "env \<Rightarrow> nat \<Rightarrow> location \<Rightarrow> blobs \<Rightarrow> bytes option" where
  "live e n loc m = (let s = shard_key_for_location e loc; i = to_id loc in
    if m s (n + 1) i \<noteq> None then None else nonempty (m s n i))"

lemma get_data_live: "reads_from e base \<Longrightarrow> get_data e c n loc = Inr (live e n loc (cells base c))"
  by (simp add: get_data_def live_def Let_def read_blob_cells)

definition loc_ok :: "location \<Rightarrow> bool" where
  "loc_ok loc \<longleftrightarrow> length (app_address loc) = 32 \<and> length (data_address loc) = 32"

lemma to_id_inj: "loc_ok a \<Longrightarrow> loc_ok b \<Longrightarrow> to_id a = to_id b \<Longrightarrow> a = b"
  by (auto simp: loc_ok_def to_id_def)

fun mutation_loc :: "mutation \<Rightarrow> location option" where
  "mutation_loc (AddVertex loc d) = Some loc"
| "mutation_loc (RemoveVertex loc) = Some loc"
| "mutation_loc (AddHyperedge loc d) = Some loc"
| "mutation_loc (RemoveHyperedge loc) = Some loc"
| "mutation_loc (Record k v) = None"

definition mutations_ok :: "mutation list \<Rightarrow> bool" where
  "mutations_ok ms \<longleftrightarrow> (\<forall>m \<in> set ms. \<forall>loc. mutation_loc m = Some loc \<longrightarrow> loc_ok loc)"

section \<open>What a batch leaves at a location\<close>

text \<open>The last value added at a location by a batch, starting from the given one.\<close>

fun vertex_added :: "location \<Rightarrow> mutation \<Rightarrow> bytes option \<Rightarrow> bytes option" where
  "vertex_added loc (AddVertex loc' d) v = (if loc' = loc then Some d else v)"
| "vertex_added loc m v = v"

fun hyperedge_added :: "location \<Rightarrow> mutation \<Rightarrow> bytes option \<Rightarrow> bytes option" where
  "hyperedge_added loc (AddHyperedge loc' d) v = (if loc' = loc then Some d else v)"
| "hyperedge_added loc m v = v"

lemma add_cell_other:
  assumes "loc_ok loc" "loc_ok loc'"
  shows "add_cell e n loc' d m (shard_key_for_location e loc) k (to_id loc) =
    (if loc' = loc \<and> k = n then Some d else m (shard_key_for_location e loc) k (to_id loc))"
  using to_id_inj [OF assms] by (auto simp: add_cell_def put_blob_apply)

lemma remove_cell_other:
  assumes "loc_ok loc" "loc_ok loc'"
  shows "remove_cell e n loc' m (shard_key_for_location e loc) k (to_id loc) =
    (if loc' = loc \<and> k = n + 1 then Some []
     else if loc' = loc \<and> k = n \<and> m (shard_key_for_location e loc) n (to_id loc) = None then Some []
     else m (shard_key_for_location e loc) k (to_id loc))"
  using assms by (auto simp: remove_cell_def add_cell_other)

lemma vertex_cells:
  fixes e :: env and loc :: location
  assumes "loc_ok loc" "mutations_ok ms"
  defines "s \<equiv> shard_key_for_location e loc" and "i \<equiv> to_id loc"
  shows "(fold (step_cells e) ms m s 1 i \<noteq> None \<longleftrightarrow> m s 1 i \<noteq> None \<or> RemoveVertex loc \<in> set ms) \<and>
    (RemoveVertex loc \<notin> set ms \<longrightarrow> fold (step_cells e) ms m s 0 i = fold (vertex_added loc) ms (m s 0 i))"
  using assms(2)
proof (induction ms arbitrary: m)
  case (Cons x ms)
  then have ok: "loc_ok loc'" if "mutation_loc x = Some loc'" for loc' using that by (simp add: mutations_ok_def)
  from Cons have IH: "(fold (step_cells e) ms m s 1 i \<noteq> None \<longleftrightarrow> m s 1 i \<noteq> None \<or> RemoveVertex loc \<in> set ms) \<and>
    (RemoveVertex loc \<notin> set ms \<longrightarrow> fold (step_cells e) ms m s 0 i = fold (vertex_added loc) ms (m s 0 i))" for m
    by (simp add: mutations_ok_def)
  show ?case
    using IH [of "step_cells e x m"] ok assms(1)
    by (cases x) (auto simp: s_def i_def add_cell_other remove_cell_other)
qed simp

lemma hyperedge_cells:
  fixes e :: env and loc :: location
  assumes "loc_ok loc" "mutations_ok ms"
  defines "s \<equiv> shard_key_for_location e loc" and "i \<equiv> to_id loc"
  shows "(fold (step_cells e) ms m s 3 i \<noteq> None \<longleftrightarrow> m s 3 i \<noteq> None \<or> RemoveHyperedge loc \<in> set ms) \<and>
    (RemoveHyperedge loc \<notin> set ms \<and> m s 3 i = None \<longrightarrow> fold (step_cells e) ms m s 2 i = fold (hyperedge_added loc) ms (m s 2 i))"
  using assms(2)
proof (induction ms arbitrary: m)
  case (Cons x ms)
  then have ok: "loc_ok loc'" if "mutation_loc x = Some loc'" for loc' using that by (simp add: mutations_ok_def)
  from Cons have IH: "(fold (step_cells e) ms m s 3 i \<noteq> None \<longleftrightarrow> m s 3 i \<noteq> None \<or> RemoveHyperedge loc \<in> set ms) \<and>
    (RemoveHyperedge loc \<notin> set ms \<and> m s 3 i = None \<longrightarrow> fold (step_cells e) ms m s 2 i = fold (hyperedge_added loc) ms (m s 2 i))" for m
    by (simp add: mutations_ok_def)
  show ?case
    using IH [of "step_cells e x m"] ok assms(1)
    by (cases x) (auto simp: s_def i_def add_cell_other remove_cell_other)
qed simp

definition live_size :: "env \<Rightarrow> crdt \<Rightarrow> nat \<Rightarrow> location \<Rightarrow> int" where
  "live_size e c n loc = (case get_data e c n loc of Inr (Some b) \<Rightarrow> int (length b) | _ \<Rightarrow> 0)"

definition bucket_size :: "crdt \<Rightarrow> bytes \<Rightarrow> int" where
  "bucket_size c k = (case sub_meta c k of Some (_, z) \<Rightarrow> z | None \<Rightarrow> 0)"

text \<open>What an addition leaves in the size beyond the change of the live bytes.\<close>

definition removed :: "env \<Rightarrow> crdt \<Rightarrow> nat \<Rightarrow> location \<Rightarrow> bool" where
  "removed e c n loc \<longleftrightarrow> read_blob_checked e c (shard_key_for_location e loc) (n + 1) (to_id loc) \<noteq> Inr None"

fun size_drift :: "env \<Rightarrow> crdt \<Rightarrow> mutation \<Rightarrow> int" where
  "size_drift e c (AddVertex loc d) = (if removed e c 0 loc then int (length d) else live_size e c 0 loc)"
| "size_drift e c (AddHyperedge loc d) = (if removed e c 2 loc then 0 else live_size e c 2 loc)"
| "size_drift e c m = 0"

fun adds_phase_of :: "mutation \<Rightarrow> nat" where
  "adds_phase_of (AddVertex loc d) = 0"
| "adds_phase_of (RemoveVertex loc) = 0"
| "adds_phase_of m = 2"

lemma nonempty_length: "(case nonempty b of Some x \<Rightarrow> int (length x) | None \<Rightarrow> 0) = (case b of Some x \<Rightarrow> int (length x) | None \<Rightarrow> 0)"
  by (auto simp: nonempty_def split: option.splits list.splits)

lemma live_size_cells:
  "reads_from e base \<Longrightarrow> live_size e c n loc =
    (let m = cells base c; s = shard_key_for_location e loc; i = to_id loc in
     if m s (n + 1) i \<noteq> None then 0 else case m s n i of Some b \<Rightarrow> int (length b) | None \<Rightarrow> 0)"
  using nonempty_length by (auto simp: live_size_def get_data_live live_def Let_def split: option.splits)

lemma publish_bucket:
  assumes "publish c p = Inr c'"
  shows "bucket_size c' k = bucket_size c k + (\<Sum>(k', n, z)\<leftarrow>metadata p. if k' = k then z else 0)"
proof -
  have "next_metadata m xs = Inr m' \<Longrightarrow> (case m' k of Some (_, z) \<Rightarrow> z | None \<Rightarrow> 0) =
      (case m k of Some (_, z) \<Rightarrow> z | None \<Rightarrow> 0) + (\<Sum>(k', n, z)\<leftarrow>xs. if k' = k then z else 0)" for m m' xs
    by (induction xs arbitrary: m) (auto simp: result_iff next_entry_def split: prod.splits if_splits option.splits)
  with assms show ?thesis by (auto simp: publish_def result_iff bucket_size_def)
qed

lemma no_mutations_simps [simp]: "metadata no_mutations = []" "overlay base (blobs no_mutations) = base"
  by (simp_all add: no_mutations_def overlay_def map_add_def fun_eq_iff)

lemma l2_shard_key [simp]: "l2 (shard_key_for_location e loc) = app_address loc"
  by (simp add: shard_key_for_location_def)

lemma removed_cells: "reads_from e base \<Longrightarrow> removed e c n loc \<longleftrightarrow> cells base c (shard_key_for_location e loc) (n + 1) (to_id loc) \<noteq> None"
  by (auto simp: removed_def read_blob_cells)

lemma live_size_removed: "reads_from e base \<Longrightarrow> removed e c n loc \<Longrightarrow> live_size e c n loc = 0"
  by (simp add: live_size_cells removed_cells Let_def)

lemma add_bucket:
  assumes "reads_from e base" "prepare_add e c n loc d no_mutations = Inr p" "n = 0 \<or> n = 2"
    and "app_address loc \<noteq> PROVER_SHARD" "sub_shard_id_for c (app_address loc) (data_address loc) = Inr k"
  shows "(\<Sum>(k', n, z)\<leftarrow>metadata p. if k' = k then z else 0) = (if n = 2 \<and> removed e c n loc then 0 else int (length d))"
  using assms by (auto simp: prepare_add_def Let_def prepared_read_cells removed_cells bump_def split: if_splits)

lemma remove_bucket:
  assumes "reads_from e base" "prepare_remove e c n loc no_mutations = Inr p"
    and "app_address loc \<noteq> PROVER_SHARD" "sub_shard_id_for c (app_address loc) (data_address loc) = Inr k"
  shows "(\<Sum>(k', n, z)\<leftarrow>metadata p. if k' = k then z else 0) = - live_size e c n loc"
  using assms by (auto simp: prepare_remove_def Let_def prepared_read_cells live_size_cells bump_def split: if_splits option.splits)

lemma live_size_add:
  assumes "reads_from e base" "cells base c' = add_cell e n loc d (cells base c)"
  shows "live_size e c' n loc = (if removed e c n loc then 0 else int (length d))"
  using assms by (auto simp: live_size_cells removed_cells add_cell_def put_blob_apply Let_def)

lemma live_size_remove:
  assumes "reads_from e base" "cells base c' = remove_cell e n loc (cells base c)"
  shows "live_size e c' n loc = 0"
  using assms by (simp add: live_size_cells remove_cell_def add_cell_def put_blob_apply Let_def)

lemma batch_reads:
  assumes "reads_from e base" "mutations_ok ms" "loc_ok loc" "apply_mutations e c ms = Inr c'"
  shows "get_vertex_data_checked e c' loc =
      Inr (if removed e c 0 loc \<or> RemoveVertex loc \<in> set ms then None
           else nonempty (fold (vertex_added loc) ms (cells base c (shard_key_for_location e loc) 0 (to_id loc)))) \<and>
    get_hyperedge_data_checked e c' loc =
      Inr (if removed e c 2 loc \<or> RemoveHyperedge loc \<in> set ms then None
           else nonempty (fold (hyperedge_added loc) ms (cells base c (shard_key_for_location e loc) 2 (to_id loc))))"
proof -
  have c': "cells base c' = fold (step_cells e) ms (cells base c)"
    by (rule apply_mutations_cells [OF assms(1,4)])
  have three: "2 + 1 = (3 :: nat)" by simp
  show ?thesis
    using vertex_cells [OF assms(3,2), of e "cells base c"] hyperedge_cells [OF assms(3,2), of e "cells base c"]
    unfolding get_vertex_data_checked_def get_hyperedge_data_checked_def get_data_live [OF assms(1)] removed_cells [OF assms(1)]
      live_def c' Let_def three add_0_left
    by auto
qed

definition example_env :: env where
  "example_env = \<lparr>shake = \<lambda>_ n. word_of_nat n, load_blob = \<lambda>_ _ _. Inr None, load_record = \<lambda>_. Inr None,
    sha512 = \<lambda>b. b, sha256 = \<lambda>b. take 32 (b @ replicate 32 0), signed_int = \<lambda>_. 0\<rparr>"

definition example_crdt :: crdt where
  "example_crdt = \<lparr>pending = \<lambda>_ _ _. None, pending_blobs = \<lambda>_ _ _. None, pending_records = \<lambda>_. None, sub_meta = \<lambda>_. None,
    covered_prefix = [], app_shard_prefixes = \<lambda>_. None, app_shard_bit_paths = \<lambda>_. None\<rparr>"

definition example_loc :: "byte \<Rightarrow> location" where
  "example_loc b = \<lparr>app_address = replicate 32 1, data_address = replicate 32 b\<rparr>"

lemma example_reads: "reads_from example_env (\<lambda>_ _ _. None)"
  by (simp add: reads_from_def example_env_def)

lemma example_loc_ok: "loc_ok (example_loc b)"
  by (simp add: loc_ok_def example_loc_def)

lemma example_cells: "cells (\<lambda>_ _ _. None) example_crdt = (\<lambda>_ _ _. None)" "overlay (\<lambda>_ _ _. None) m = m"
    "app_shard_prefixes example_crdt = (\<lambda>_. None)" "sub_meta example_crdt = (\<lambda>_. None)"
  by (simp_all add: cells_def overlay_def fun_eq_iff map_add_def example_crdt_def split: option.splits)

lemma blobs_none: "blobs no_mutations = (\<lambda>_ _ _. None)"
  by (simp add: no_mutations_def)

lemma example_to_id [simp]: "to_id (example_loc b) = to_id (example_loc c) \<longleftrightarrow> b = c"
  by (simp add: to_id_def example_loc_def)

lemma example_bump:
  "app_shard_prefixes c = (\<lambda>_. None) \<Longrightarrow>
    bump c (shard_key_for_location e (example_loc b)) (example_loc b) n z p = Inr (p\<lparr>metadata := metadata p @ [(replicate 32 1, n, z)]\<rparr>)"
  by (simp add: bump_def sub_shard_id_for_def app_prefixes_def addr_path_shard_id_def PROVER_SHARD_def example_loc_def shard_key_for_location_def)

section \<open>Properties\<close>

text \<open>
  C22. A batch of mutations, once staged, leaves at every vertex and hyperedge exactly what its two
  sets say: nothing if it was removed before or anywhere in the batch, in whatever order, and
  otherwise the last value the batch added there, or what was there before it; an empty value counts
  as absent. The store's reads are assumed not to fail.
\<close>

theorem staged_batch_reads:
  fixes e :: env and loc :: location
  assumes "reads_from e base" "mutations_ok ms" "loc_ok loc" "apply_mutations e c ms = Inr c'"
  defines "s \<equiv> shard_key_for_location e loc" and "i \<equiv> to_id loc"
  shows "get_vertex_data_checked e c' loc =
      Inr (if removed e c 0 loc \<or> RemoveVertex loc \<in> set ms then None
           else nonempty (fold (vertex_added loc) ms (cells base c s 0 i))) \<and>
    get_hyperedge_data_checked e c' loc =
      Inr (if removed e c 2 loc \<or> RemoveHyperedge loc \<in> set ms then None
           else nonempty (fold (hyperedge_added loc) ms (cells base c s 2 i)))"
  using batch_reads [OF assms(1-4)] unfolding s_def i_def .

theorem staged_batch_reads_witness:
  "let ms = [AddVertex (example_loc 1) [2], RemoveVertex (example_loc 2), AddVertex (example_loc 2) [3]]
   in \<exists>c'. apply_mutations example_env example_crdt ms = Inr c' \<and>
     get_vertex_data_checked example_env c' (example_loc 1) = Inr (Some [2]) \<and>
     get_vertex_data_checked example_env c' (example_loc 2) = Inr None"
proof -
  let ?ms = "[AddVertex (example_loc 1) [2], RemoveVertex (example_loc 2), AddVertex (example_loc 2) [3]]"
  have "\<exists>c'. apply_mutations example_env example_crdt ?ms = Inr c'"
    by (simp add: apply_mutations_def prepare_add_def prepare_remove_def Let_def prepared_read_cells [OF example_reads] example_bump
        example_cells put_blob_apply blobs_none publish_def next_entry_def i128_def)
  then obtain c' where c': "apply_mutations example_env example_crdt ?ms = Inr c'" by blast
  have ok: "mutations_ok ?ms" by (auto simp: mutations_ok_def example_loc_ok)
  have "\<not> removed example_env example_crdt 0 (example_loc 1)" "example_loc 1 \<noteq> example_loc 2"
    by (simp_all add: removed_cells [OF example_reads] cells_def overlay_def example_crdt_def example_loc_def)
  with staged_batch_reads [OF example_reads ok example_loc_ok c', of 1] staged_batch_reads [OF example_reads ok example_loc_ok c', of 2]
  show ?thesis using c' unfolding Let_def by (intro exI [of _ c']) (simp add: nonempty_def)
qed

text \<open>
  C23. The size a sub-shard reports follows its live bytes, except where an addition overwrites. For one
  staged mutation at a location outside the prover shard, the change of the bucket's size is the change
  of the bytes that are live at the location plus a drift: nothing for a removal or a first addition,
  but the bytes overwritten when a live vertex or hyperedge is added again, and the bytes added when
  a removed vertex is.
\<close>

theorem bucket_size_drift:
  assumes "reads_from e base" "mutation_loc m = Some loc" "apply_mutations e c [m] = Inr c'"
    and "app_address loc \<noteq> PROVER_SHARD" "sub_shard_id_for c (app_address loc) (data_address loc) = Inr k"
  shows "bucket_size c' k - bucket_size c k =
    live_size e c' (adds_phase_of m) loc - live_size e c (adds_phase_of m) loc + size_drift e c m"
proof -
  from assms(3) obtain p where p: "prepare_one e c m no_mutations = Inr p" "publish c p = Inr c'"
    by (auto simp: apply_mutations_def result_iff)
  note bucket = publish_bucket [OF p(2), of k] and cells = apply_mutations_cells [OF assms(1,3)]
  show ?thesis
  proof (cases m)
    case (AddVertex l d)
    with assms p bucket add_bucket [of e base c 0 loc d p k] live_size_add [of e base c' 0 loc d c] cells
      live_size_removed [of e base c 0 loc] show ?thesis by auto
  next
    case (RemoveVertex l)
    with assms p bucket remove_bucket [of e base c 0 loc p k] live_size_remove [of e base c' 0 loc c] cells show ?thesis by simp
  next
    case (AddHyperedge l d)
    show ?thesis
    proof (cases "removed e c 2 loc")
      case True
      with removed_cells [OF assms(1), of c 2 loc] have "cells base c (shard_key_for_location e loc) 3 (to_id loc) \<noteq> None" by simp
      with cells AddHyperedge assms(2) have "cells base c' = cells base c" by auto
      with True have "removed e c' 2 loc" by (simp add: removed_cells [OF assms(1)])
      with True AddHyperedge assms p bucket add_bucket [of e base c 2 loc d p k] live_size_removed [OF assms(1)] show ?thesis by simp
    next
      case False
      then have "cells base c (shard_key_for_location e loc) 3 (to_id loc) = None"
        using removed_cells [OF assms(1), of c 2 loc] by simp
      with False AddHyperedge assms p bucket add_bucket [of e base c 2 loc d p k] live_size_add [of e base c' 2 loc d c] cells show ?thesis by simp
    qed
  next
    case (RemoveHyperedge l)
    with assms p bucket remove_bucket [of e base c 2 loc p k] live_size_remove [of e base c' 2 loc c] cells show ?thesis by simp
  qed (use assms(2) in simp)
qed

theorem bucket_size_drift_witness:
  "\<exists>c1 c2. apply_mutations example_env example_crdt [AddVertex (example_loc 1) [1, 2, 3]] = Inr c1 \<and>
     apply_mutations example_env c1 [AddVertex (example_loc 1) [4]] = Inr c2 \<and>
     live_size example_env c2 0 (example_loc 1) = 1 \<and> bucket_size c2 (replicate 32 1) = 4"
proof -
  let ?l = "example_loc 1" and ?e = example_env and ?k = "replicate 32 1 :: bytes"
  note evals = apply_mutations_def prepare_add_def Let_def prepared_read_cells [OF example_reads] example_bump publish_def next_entry_def i128_def
  have "\<exists>c1. apply_mutations ?e example_crdt [AddVertex ?l [1, 2, 3]] = Inr c1 \<and> app_shard_prefixes c1 = (\<lambda>_. None) \<and>
      sub_meta c1 = [?k \<mapsto> (1, 3)]"
    by (simp add: evals example_crdt_def cells_def overlay_def no_mutations_def map_add_def)
  then obtain c1 where c1: "apply_mutations ?e example_crdt [AddVertex ?l [1, 2, 3]] = Inr c1" "app_shard_prefixes c1 = (\<lambda>_. None)"
    "sub_meta c1 = [?k \<mapsto> (1, 3)]" by blast
  have "\<exists>c2. apply_mutations ?e c1 [AddVertex ?l [4]] = Inr c2" using c1(2,3) by (simp add: evals)
  then obtain c2 where c2: "apply_mutations ?e c1 [AddVertex ?l [4]] = Inr c2" by blast
  have not_removed: "\<not> removed ?e example_crdt 0 ?l" "\<not> removed ?e c1 0 ?l"
    using apply_mutations_cells [OF example_reads c1(1)]
    by (simp_all add: removed_cells [OF example_reads] add_cell_def put_blob_apply cells_def overlay_def example_crdt_def)
  have live: "live_size ?e c1 0 ?l = 3" "live_size ?e c2 0 ?l = 1"
    using live_size_add [OF example_reads, of c1 0 ?l "[1, 2, 3]" example_crdt] live_size_add [OF example_reads, of c2 0 ?l "[4]" c1]
      apply_mutations_cells [OF example_reads c1(1)] apply_mutations_cells [OF example_reads c2] not_removed by simp_all
  have k: "app_address ?l \<noteq> PROVER_SHARD" "sub_shard_id_for c1 (app_address ?l) (data_address ?l) = Inr ?k"
    using c1(2) by (simp_all add: example_loc_def PROVER_SHARD_def sub_shard_id_for_def app_prefixes_def addr_path_shard_id_def)
  have "bucket_size c2 ?k - bucket_size c1 ?k = 1 - 3 + 3"
    using bucket_size_drift [OF example_reads _ c2 k] live not_removed by simp
  with c1 c2 live show ?thesis by (auto simp: bucket_size_def)
qed

end
