(* ===== verification/StateChanges.thy ===== *)
theory StateChanges
  imports CrdtStaging
begin

text \<open>
  The changeset of an execution (\<^verbatim>\<open>quil-execution/src/hypergraph_state.rs\<close>): state changes and records
  accumulate in front of the hypergraph, are read back most recent first, can be rolled back to a
  savepoint, and are published as one batch of mutations. The hash behind the discriminators is an
  argument; the cache in front of it returns what the hash returned.
\<close>

section \<open>State\<close>

datatype state_change_event = Initialize | Create | Update | Delete

record state_change =
  change_domain :: bytes
  change_address :: bytes
  change_discriminator :: bytes
  state_change :: state_change_event
  change_value :: bytes

datatype execution_change = StateEntry state_change | RecordEntry bytes "bytes option"

record hstate =
  crdt_of :: crdt
  changeset :: "execution_change list"

definition hstate_new :: "crdt \<Rightarrow> hstate" where
  "hstate_new c = \<lparr>crdt_of = c, changeset = []\<rparr>"

text \<open>The hash to 32 bytes, beside what the hypergraph and the tree codecs call.\<close>

record exec_env = env +
  poseidon :: "bytes \<Rightarrow> bytes result"
  unsigned_bytes :: "int \<Rightarrow> bytes"

definition vertex_adds_discriminator :: "exec_env \<Rightarrow> bytes result" where
  "vertex_adds_discriminator e = poseidon e (ascii ''vertex:adds'')"

definition vertex_removes_discriminator :: "exec_env \<Rightarrow> bytes result" where
  "vertex_removes_discriminator e = poseidon e (ascii ''vertex:removes'')"

definition hyperedge_adds_discriminator :: "exec_env \<Rightarrow> bytes result" where
  "hyperedge_adds_discriminator e = poseidon e (ascii ''hyperedge:adds'')"

definition hyperedge_removes_discriminator :: "exec_env \<Rightarrow> bytes result" where
  "hyperedge_removes_discriminator e = poseidon e (ascii ''hyperedge:removes'')"

definition HYPERGRAPH_METADATA_ADDRESS :: bytes where
  "HYPERGRAPH_METADATA_ADDRESS = replicate 32 0xFF"

definition location_from_domain_address :: "bytes \<Rightarrow> bytes \<Rightarrow> location result" where
  "location_from_domain_address domain address =
    (if length domain < 32 \<or> length address < 32 then Inl InvalidArgument
     else Inr \<lparr>app_address = take 32 domain, data_address = take 32 address\<rparr>)"

section \<open>Reads\<close>

fun entry_at :: "bytes \<Rightarrow> bytes \<Rightarrow> bytes \<Rightarrow> execution_change \<Rightarrow> bytes option" where
  "entry_at domain address discriminator (StateEntry c) =
    (if change_domain c = domain \<and> change_address c = address \<and> change_discriminator c = discriminator
     then Some (change_value c) else None)"
| "entry_at domain address discriminator (RecordEntry k v) = None"

definition state_get :: "exec_env \<Rightarrow> hstate \<Rightarrow> bytes \<Rightarrow> bytes \<Rightarrow> bytes \<Rightarrow> bytes option result" where
  "state_get e st domain address discriminator =
    (case find_map (entry_at domain address discriminator) (rev (changeset st)) of
       Some v \<Rightarrow> Inr (Some v)
     | None \<Rightarrow>
         rbind (vertex_adds_discriminator e) (\<lambda>va_disc.
         rbind (hyperedge_adds_discriminator e) (\<lambda>ha_disc.
           if discriminator = va_disc then
             rbind (location_from_domain_address domain address) (get_vertex_data_checked (env.truncate e) (crdt_of st))
           else if discriminator = ha_disc then
             rbind (location_from_domain_address domain address) (get_hyperedge_data_checked (env.truncate e) (crdt_of st))
           else Inl InvalidArgument)))"

fun record_at :: "bytes \<Rightarrow> execution_change \<Rightarrow> bytes option option" where
  "record_at key (StateEntry c) = None"
| "record_at key (RecordEntry k v) = (if k = key then Some v else None)"

definition get_record :: "exec_env \<Rightarrow> hstate \<Rightarrow> bytes \<Rightarrow> bytes option result" where
  "get_record e st key =
    (case find_map (record_at key) (rev (changeset st)) of
       Some v \<Rightarrow> Inr v
     | None \<Rightarrow> read_execution_record (env.truncate e) (crdt_of st) key)"

primrec staged_over :: "execution_change list \<Rightarrow> (bytes \<Rightarrow> bytes option option) \<Rightarrow> bytes \<Rightarrow> bytes option option" where
  "staged_over [] m = m"
| "staged_over (c # cs) m = staged_over cs (case c of RecordEntry k v \<Rightarrow> m(k \<mapsto> v) | StateEntry _ \<Rightarrow> m)"

definition state_pending_records :: "hstate \<Rightarrow> bytes \<Rightarrow> bytes option option" where
  "state_pending_records st = staged_over (changeset st) (CrdtStaging.pending_records (crdt_of st))"

definition require_full_domain_coverage :: "hstate \<Rightarrow> bytes \<Rightarrow> unit result" where
  "require_full_domain_coverage st domain =
    (let p = covered_prefix (crdt_of st); path = get_full_path domain in
     if length domain * 8 div BRANCH_BITS < length p then Inl ExecutionUnavailable
     else if length path < length p then Inl Panic
     else if take (length p) path \<noteq> p then Inl ExecutionUnavailable
     else Inr ())"

fun written_by :: "bytes \<Rightarrow> bytes \<Rightarrow> execution_change \<Rightarrow> (bytes \<times> bytes) option" where
  "written_by disc domain (StateEntry c) =
    (if change_domain c = domain \<and> change_discriminator c = disc \<and> state_change c \<noteq> Delete
     then Some (change_address c, change_value c) else None)"
| "written_by disc domain (RecordEntry k v) = None"

definition pending_vertex_adds :: "exec_env \<Rightarrow> hstate \<Rightarrow> bytes \<Rightarrow> (bytes \<times> bytes) list result" where
  "pending_vertex_adds e st domain =
    rbind (vertex_adds_discriminator e) (\<lambda>disc. Inr (List.map_filter (written_by disc domain) (changeset st)))"

section \<open>Writes\<close>

definition state_push :: "execution_change list \<Rightarrow> hstate \<Rightarrow> hstate" where
  "state_push cs st = st\<lparr>changeset := changeset st @ cs\<rparr>"

definition event_of :: "bytes option \<Rightarrow> state_change_event" where
  "event_of existing = (if existing \<noteq> None then Update else Create)"

definition state_set :: "exec_env \<Rightarrow> bytes \<Rightarrow> bytes \<Rightarrow> bytes \<Rightarrow> bytes \<Rightarrow> hstate \<Rightarrow> hstate \<times> unit result" where
  "state_set e domain address discriminator val st =
    (case rbind (location_from_domain_address domain address) (\<lambda>loc.
          rbind (vertex_adds_discriminator e) (\<lambda>va_disc.
          rbind (hyperedge_adds_discriminator e) (\<lambda>ha_disc.
            if discriminator = va_disc then
              rbind (get_vertex_data_checked (env.truncate e) (crdt_of st) loc) (\<lambda>x. Inr (event_of x))
            else if discriminator = ha_disc then
              rbind (get_hyperedge_data_checked (env.truncate e) (crdt_of st) loc) (\<lambda>x. Inr (event_of x))
            else Inl InvalidArgument))) of
       Inl err \<Rightarrow> (st, Inl err)
     | Inr event \<Rightarrow>
         (state_push [StateEntry \<lparr>change_domain = domain, change_address = address, change_discriminator = discriminator,
            state_change = event, change_value = val\<rparr>] st, Inr ()))"

definition state_delete :: "bytes \<Rightarrow> bytes \<Rightarrow> bytes \<Rightarrow> hstate \<Rightarrow> hstate \<times> unit result" where
  "state_delete domain address discriminator st =
    (state_push [StateEntry \<lparr>change_domain = domain, change_address = address, change_discriminator = discriminator,
       state_change = Delete, change_value = []\<rparr>] st, Inr ())"

definition stage_records :: "(bytes \<times> bytes option) list \<Rightarrow> hstate \<Rightarrow> hstate" where
  "stage_records rs st = state_push (map (\<lambda>(k, v). RecordEntry k v) rs) st"

definition state_abort :: "hstate \<Rightarrow> hstate" where
  "state_abort st = st\<lparr>changeset := []\<rparr>"

definition rollback_to :: "nat \<Rightarrow> hstate \<Rightarrow> hstate" where
  "rollback_to savepoint st =
    (if savepoint < length (changeset st) then st\<lparr>changeset := take savepoint (changeset st)\<rparr> else st)"

definition changeset_len :: "hstate \<Rightarrow> nat" where
  "changeset_len st = length (changeset st)"

section \<open>The metadata vertex\<close>

definition tree_content_digest :: "exec_env \<Rightarrow> tree \<Rightarrow> bytes" where
  "tree_content_digest e t =
    sha512 e (concat (map (\<lambda>(k, v). u32_to_be_bytes (word_of_nat (length k)) @ k @ u32_to_be_bytes (word_of_nat (length v)) @ v)
      (tree_leaves t)))"

text \<open>Failures of the codec and of the tree are reported as internal errors.\<close>

definition internal :: "'a result \<Rightarrow> 'a result" where
  "internal r = (case r of Inl _ \<Rightarrow> Inl Internal | Inr a \<Rightarrow> Inr a)"

definition insert_entry :: "exec_env \<Rightarrow> tree \<Rightarrow> bytes \<Rightarrow> bytes \<Rightarrow> bytes \<Rightarrow> int \<Rightarrow> tree result" where
  "insert_entry e t key val ht sz =
    (case tree_insert (sha512 e) t key val ht sz of (r, t') \<Rightarrow> rbind (internal r) (\<lambda>_. Inr t'))"

definition seal_metadata_state_at_index :: "exec_env \<Rightarrow> tree \<Rightarrow> tree \<Rightarrow> byte \<Rightarrow> tree result" where
  "seal_metadata_state_at_index e public sub_data index =
    (if 63 < index then Inl InvalidArgument
     else let sub_commit = tree_content_digest e sub_data in
       rbind (internal (serialize_go_tree (unsigned_bytes e) (root sub_data))) (\<lambda>sub_bytes.
         insert_entry e public [push_bit 2 index] sub_bytes sub_commit
           (case root sub_data of Some n \<Rightarrow> node_size n | None \<Rightarrow> 0)))"

primrec seal_additional :: "exec_env \<Rightarrow> tree option list \<Rightarrow> nat \<Rightarrow> tree \<Rightarrow> tree result" where
  "seal_additional e [] index public = Inr public"
| "seal_additional e (add # rest) index public =
    (if index < 16 then
       if add \<noteq> None then Inl InvalidArgument else seal_additional e rest (index + 1) public
     else case add of
       Some t \<Rightarrow> rbind (seal_metadata_state_at_index e public t (word_of_nat index)) (seal_additional e rest (index + 1))
     | None \<Rightarrow> Inl InvalidArgument)"

definition metadata_vertex :: "exec_env \<Rightarrow> tree \<Rightarrow> tree \<Rightarrow> bytes \<Rightarrow> tree option list \<Rightarrow> bytes \<Rightarrow> bytes result" where
  "metadata_vertex e consensus_metadata sumcheck_info rdf_schema additional_data intrinsic_type =
    rbind (seal_metadata_state_at_index e tree_new consensus_metadata 0) (\<lambda>public.
    rbind (seal_metadata_state_at_index e public sumcheck_info 1) (\<lambda>public.
    rbind (insert_entry e public [push_bit 2 2] rdf_schema [] (int (length rdf_schema))) (\<lambda>public.
    rbind (seal_additional e additional_data 3 public) (\<lambda>public.
    rbind (insert_entry e public (replicate 32 0xFF) intrinsic_type [] (int (length intrinsic_type))) (\<lambda>public.
      internal (serialize_go_tree (unsigned_bytes e) (root public)))))))"

definition init_metadata_vertex ::
  "exec_env \<Rightarrow> bytes \<Rightarrow> tree \<Rightarrow> tree \<Rightarrow> bytes \<Rightarrow> tree option list \<Rightarrow> bytes \<Rightarrow> hstate \<Rightarrow> hstate \<times> unit result" where
  "init_metadata_vertex e domain consensus_metadata sumcheck_info rdf_schema additional_data intrinsic_type st =
    (if length domain \<noteq> 32 then (st, Inl InvalidArgument)
     else case rbind (metadata_vertex e consensus_metadata sumcheck_info rdf_schema additional_data intrinsic_type) (\<lambda>blob.
          rbind (vertex_adds_discriminator e) (\<lambda>va_disc. Inr (blob, va_disc))) of
       Inl err \<Rightarrow> (st, Inl err)
     | Inr (public_blob, va_disc) \<Rightarrow> state_set e domain HYPERGRAPH_METADATA_ADDRESS va_disc public_blob st)"

section \<open>Publication\<close>

definition covers :: "int list \<Rightarrow> location \<Rightarrow> bool" where
  "covers p loc \<longleftrightarrow> p = [] \<or>
    (let path = get_full_path (to_id loc) in \<not> (length path < length p \<or> take (length p) path \<noteq> p))"

fun mutation_of :: "bytes \<times> bytes \<times> bytes \<times> bytes \<Rightarrow> int list \<Rightarrow> execution_change \<Rightarrow> mutation option result" where
  "mutation_of discs p (RecordEntry k v) = Inr (Some (Record k v))"
| "mutation_of (va_disc, vr_disc, ha_disc, hr_disc) p (StateEntry c) =
    rbind (location_from_domain_address (change_domain c) (change_address c)) (\<lambda>loc. Inr
      (if \<not> covers p loc then None
       else if change_discriminator c = va_disc then
         if state_change c = Delete then None else Some (AddVertex loc (change_value c))
       else if change_discriminator c = vr_disc then Some (RemoveVertex loc)
       else if change_discriminator c = ha_disc then
         if state_change c = Delete then None else Some (AddHyperedge loc (change_value c))
       else if change_discriminator c = hr_disc then Some (RemoveHyperedge loc)
       else None))"

primrec mutations_of :: "bytes \<times> bytes \<times> bytes \<times> bytes \<Rightarrow> int list \<Rightarrow> execution_change list \<Rightarrow> mutation list result" where
  "mutations_of discs p [] = Inr []"
| "mutations_of discs p (c # cs) =
    rbind (mutation_of discs p c) (\<lambda>m. rbind (mutations_of discs p cs) (\<lambda>ms.
      Inr (case m of Some m \<Rightarrow> m # ms | None \<Rightarrow> ms)))"

definition discriminators :: "exec_env \<Rightarrow> (bytes \<times> bytes \<times> bytes \<times> bytes) result" where
  "discriminators e =
    rbind (vertex_adds_discriminator e) (\<lambda>va_disc.
    rbind (vertex_removes_discriminator e) (\<lambda>vr_disc.
    rbind (hyperedge_adds_discriminator e) (\<lambda>ha_disc.
    rbind (hyperedge_removes_discriminator e) (\<lambda>hr_disc. Inr (va_disc, vr_disc, ha_disc, hr_disc)))))"

definition state_commit :: "exec_env \<Rightarrow> hstate \<Rightarrow> hstate \<times> unit result" where
  "state_commit e st =
    (case rbind (discriminators e) (\<lambda>discs.
          rbind (mutations_of discs (covered_prefix (crdt_of st)) (changeset st))
            (apply_mutations (env.truncate e) (crdt_of st))) of
       Inl err \<Rightarrow> (st, Inl err)
     | Inr c \<Rightarrow> (st\<lparr>crdt_of := c\<rparr>, Inr ()))"

section \<open>What a changeset publishes\<close>

text \<open>The last value written at an address, not counting deletions, and whether an address was
  changed at all.\<close>

fun written :: "bytes \<Rightarrow> bytes \<Rightarrow> bytes \<Rightarrow> execution_change \<Rightarrow> bytes option \<Rightarrow> bytes option" where
  "written disc domain address (StateEntry c) v =
    (if change_domain c = domain \<and> change_address c = address \<and> change_discriminator c = disc \<and> state_change c \<noteq> Delete
     then Some (change_value c) else v)"
| "written disc domain address (RecordEntry k r) v = v"

definition last_written :: "bytes \<Rightarrow> bytes \<Rightarrow> bytes \<Rightarrow> execution_change list \<Rightarrow> bytes option" where
  "last_written disc domain address cs = fold (written disc domain address) cs None"

definition changed :: "bytes \<Rightarrow> bytes \<Rightarrow> bytes \<Rightarrow> execution_change list \<Rightarrow> bool" where
  "changed disc domain address cs \<longleftrightarrow> (\<exists>c\<in>set cs. entry_at domain address disc c \<noteq> None)"

fun entry_ok :: "execution_change \<Rightarrow> bool" where
  "entry_ok (StateEntry c) \<longleftrightarrow> length (change_domain c) = 32 \<and> length (change_address c) = 32"
| "entry_ok (RecordEntry k v) \<longleftrightarrow> True"

fun recorded :: "mutation \<Rightarrow> (bytes \<Rightarrow> bytes option option) \<Rightarrow> bytes \<Rightarrow> bytes option option" where
  "recorded (Record k v) m = m(k \<mapsto> v)"
| "recorded _ m = m"

lemma fold_written: "fold (written disc d a) cs v = (case last_written disc d a cs of Some x \<Rightarrow> Some x | None \<Rightarrow> v)"
proof (induction cs arbitrary: v rule: rev_induct)
  case (snoc c cs)
  show ?case using snoc [of v] by (cases c) (auto simp: last_written_def)
qed (simp add: last_written_def)

lemma changed_simps [simp]:
  "\<not> changed disc d a []" "changed disc d a (c # cs) \<longleftrightarrow> entry_at d a disc c \<noteq> None \<or> changed disc d a cs"
  by (simp_all add: changed_def)

lemma location_ok:
  assumes "length d = 32" "length a = 32"
  shows "location_from_domain_address d a = Inr \<lparr>app_address = d, data_address = a\<rparr>" "loc_ok \<lparr>app_address = d, data_address = a\<rparr>"
  using assms by (simp_all add: location_from_domain_address_def loc_ok_def)

lemma mutations_of_cons:
  assumes "mutations_of discs p (c # cs) = Inr ms"
  obtains m ms' where "mutation_of discs p c = Inr m" "mutations_of discs p cs = Inr ms'"
    "ms = (case m of Some m \<Rightarrow> m # ms' | None \<Rightarrow> ms')"
  using assms by (auto simp: result_iff)

lemma mutations_of_ok:
  assumes "mutations_of discs p cs = Inr ms" "list_all entry_ok cs"
  shows "mutations_ok ms"
  using assms
proof (induction cs arbitrary: ms)
  case (Cons c cs)
  from Cons.prems(1) obtain m ms' where m: "mutation_of discs p c = Inr m" "mutations_of discs p cs = Inr ms'"
    "ms = (case m of Some m \<Rightarrow> m # ms' | None \<Rightarrow> ms')" by (rule mutations_of_cons)
  have "mutations_ok ms'" using Cons.IH [OF m(2)] Cons.prems(2) by simp
  with m Cons.prems(2) show ?case
    by (cases c; cases discs) (auto simp: mutations_ok_def location_ok split: if_splits)
qed (simp add: mutations_ok_def)

lemma mutations_of_vertex:
  assumes "mutations_of (va, vr, ha, hr) p cs = Inr ms" "distinct [va, vr, ha, hr]" "list_all entry_ok cs"
    and "length d = 32" "length a = 32" "loc = \<lparr>app_address = d, data_address = a\<rparr>"
  shows "(RemoveVertex loc \<in> set ms \<longleftrightarrow> covers p loc \<and> changed vr d a cs) \<and>
    fold (vertex_added loc) ms v = (if covers p loc then fold (written va d a) cs v else v)"
  using assms(1,3)
proof (induction cs arbitrary: ms v)
  case (Cons c cs)
  from Cons.prems(1) obtain m ms' where m: "mutation_of (va, vr, ha, hr) p c = Inr m" "mutations_of (va, vr, ha, hr) p cs = Inr ms'"
    "ms = (case m of Some m \<Rightarrow> m # ms' | None \<Rightarrow> ms')" by (rule mutations_of_cons)
  note IH = Cons.IH [OF m(2)]
  show ?case
  proof (cases c)
    case (StateEntry x)
    with Cons.prems(2) m(1) assms(2,6) IH show ?thesis
      by (auto simp: m(3) location_ok split: if_splits)
  next
    case (RecordEntry k r)
    with m(1,3) IH Cons.prems(2) show ?thesis by auto
  qed
qed simp

lemma mutations_of_hyperedge:
  assumes "mutations_of (va, vr, ha, hr) p cs = Inr ms" "distinct [va, vr, ha, hr]" "list_all entry_ok cs"
    and "length d = 32" "length a = 32" "loc = \<lparr>app_address = d, data_address = a\<rparr>"
  shows "(RemoveHyperedge loc \<in> set ms \<longleftrightarrow> covers p loc \<and> changed hr d a cs) \<and>
    fold (hyperedge_added loc) ms v = (if covers p loc then fold (written ha d a) cs v else v)"
  using assms(1,3)
proof (induction cs arbitrary: ms v)
  case (Cons c cs)
  from Cons.prems(1) obtain m ms' where m: "mutation_of (va, vr, ha, hr) p c = Inr m" "mutations_of (va, vr, ha, hr) p cs = Inr ms'"
    "ms = (case m of Some m \<Rightarrow> m # ms' | None \<Rightarrow> ms')" by (rule mutations_of_cons)
  note IH = Cons.IH [OF m(2)]
  show ?case
  proof (cases c)
    case (StateEntry x)
    with Cons.prems(2) m(1) assms(2,6) IH show ?thesis
      by (auto simp: m(3) location_ok split: if_splits)
  next
    case (RecordEntry k r)
    with m(1,3) IH Cons.prems(2) show ?thesis by auto
  qed
qed simp

lemma records_stage [simp]: "records (stage e s n i b t p) = records p"
  by (simp add: stage_def split: prod.split)

lemma bump_records: "bump c s loc k z p = Inr p' \<Longrightarrow> records p' = records p"
  by (auto simp: bump_def result_iff split: if_splits)

lemma prepare_add_records: "prepare_add e c n loc d p = Inr p' \<Longrightarrow> records p' = records p"
  by (auto simp: prepare_add_def Let_def result_iff dest: bump_records split: if_splits)

lemma prepare_remove_records:
  assumes "prepare_remove e c n loc p = Inr p'"
  shows "records p' = records p"
proof -
  have bumped: "(if P then bump c s loc k z q else Inr q) = Inr p' \<Longrightarrow> records p' = records q" for P s k z q
    by (auto dest: bump_records split: if_splits)
  have staged: "records (if P then stage e s n i b t p else p) = records p" for P s n i b t by simp
  obtain a b where "prepared_read e c p (shard_key_for_location e loc) n (to_id loc) = Inr a"
    "prepared_read e c p (shard_key_for_location e loc) (n + 1) (to_id loc) = Inr b"
    using assms unfolding prepare_remove_def Let_def rbind_Inr_conv by blast
  with assms show ?thesis
    unfolding prepare_remove_def Let_def by (simp only: rbind.simps) (drule bumped, simp only: records_stage staged)
qed

lemma prepare_one_records: "prepare_one e c m p = Inr p' \<Longrightarrow> records p' = recorded m (records p)"
  by (cases m) (auto dest: prepare_add_records prepare_remove_records)

lemma prepare_all_records: "prepare_all e c ms p = Inr p' \<Longrightarrow> records p' = fold recorded ms (records p)"
  by (induction ms arbitrary: p) (auto simp: result_iff dest: prepare_one_records)

lemma apply_mutations_records:
  "apply_mutations e c ms = Inr c' \<Longrightarrow> CrdtStaging.pending_records c' = CrdtStaging.pending_records c ++ fold recorded ms Map.empty"
  using prepare_all_records [of e c ms no_mutations]
  by (auto simp: apply_mutations_def result_iff publish_def no_mutations_def)

lemma fold_recorded: "m ++ fold recorded ms r = fold recorded ms (m ++ r)"
proof (induction ms arbitrary: r)
  case (Cons x ms)
  have "m ++ recorded x r = recorded x (m ++ r)" by (cases x) auto
  with Cons show ?case by simp
qed simp

lemma mutations_of_records:
  "mutations_of discs p cs = Inr ms \<Longrightarrow> fold recorded ms r = staged_over cs r"
proof (induction cs arbitrary: ms r)
  case (Cons c cs)
  from Cons.prems obtain m ms' where m: "mutation_of discs p c = Inr m" "mutations_of discs p cs = Inr ms'"
    "ms = (case m of Some m \<Rightarrow> m # ms' | None \<Rightarrow> ms')" by (rule mutations_of_cons)
  from m Cons.IH [OF m(2)] show ?case
    by (cases c; cases discs) (auto simp: result_iff split: if_splits)
qed simp

lemma find_map_append: "find_map f (xs @ ys) = (case find_map f xs of Some y \<Rightarrow> Some y | None \<Rightarrow> find_map f ys)"
  by (induction xs) (auto split: option.splits)

lemma staged_over_get: "staged_over cs m k = (case find_map (record_at k) (rev cs) of Some v \<Rightarrow> Some v | None \<Rightarrow> m k)"
proof (induction cs arbitrary: m)
  case (Cons c cs)
  then show ?case by (cases c) (auto simp: find_map_append split: option.splits)
qed simp

definition deleted :: "bytes \<Rightarrow> bytes \<Rightarrow> bytes \<Rightarrow> execution_change list \<Rightarrow> bool" where
  "deleted disc domain address cs \<longleftrightarrow> (\<exists>c. StateEntry c \<in> set cs \<and> change_domain c = domain \<and> change_address c = address \<and>
    change_discriminator c = disc \<and> state_change c = Delete)"

lemma last_written_read:
  "\<not> deleted disc d a cs \<Longrightarrow> find_map (entry_at d a disc) (rev cs) = last_written disc d a cs"
proof (induction cs rule: rev_induct)
  case (snoc c cs)
  then have "find_map (entry_at d a disc) (rev cs) = last_written disc d a cs" by (auto simp: deleted_def)
  with snoc.prems show ?case by (cases c) (auto simp: last_written_def deleted_def)
qed (simp add: last_written_def)

lemma state_commit_apply:
  assumes "state_commit e st = (st', Inr ())" "discriminators e = Inr discs"
  obtains ms c' where "mutations_of discs (covered_prefix (crdt_of st)) (changeset st) = Inr ms"
    "apply_mutations (env.truncate e) (crdt_of st) ms = Inr c'" "st' = st\<lparr>crdt_of := c'\<rparr>"
  using assms by (auto simp: state_commit_def result_iff split: sum.splits)

text \<open>What a location holds after the changeset is published, from what it held before.\<close>

definition published :: "bool \<Rightarrow> bool \<Rightarrow> bytes option \<Rightarrow> bytes option \<Rightarrow> bytes option" where
  "published covered gone wrote old =
    (if \<not> covered then old else if gone then None else case wrote of Some v \<Rightarrow> nonempty (Some v) | None \<Rightarrow> old)"

lemma published_cells:
  "Inr (if removed e c n loc \<or> C \<and> D then None else nonempty (if C then case w of Some x \<Rightarrow> Some x | None \<Rightarrow> v else v)) =
    Inr (published C (removed e c n loc \<or> D) w (if removed e c n loc then None else nonempty v))"
  by (auto simp: published_def split: option.splits)

lemma data_cells:
  assumes "reads_from e base"
  shows "get_data e c n loc =
    Inr (if removed e c n loc then None else nonempty (cells base c (shard_key_for_location e loc) n (to_id loc)))"
  using assms by (simp add: get_data_live live_def removed_cells Let_def)

lemma commit_data:
  assumes "reads_from (env.truncate e) base" "discriminators e = Inr (va, vr, ha, hr)" "distinct [va, vr, ha, hr]"
    and "list_all entry_ok (changeset st)" "length d = 32" "length a = 32" "state_commit e st = (st', Inr ())"
    and "loc = \<lparr>app_address = d, data_address = a\<rparr>" "(add, rem, n) \<in> {(va, vr, 0), (ha, hr, 2)}"
  shows "get_data (env.truncate e) (crdt_of st') n loc =
    rbind (get_data (env.truncate e) (crdt_of st) n loc) (\<lambda>old. Inr
      (published (covers (covered_prefix (crdt_of st)) loc)
        (removed (env.truncate e) (crdt_of st) n loc \<or> changed rem d a (changeset st)) (last_written add d a (changeset st)) old))"
proof -
  from assms(7,2) obtain ms c' where ms: "mutations_of (va, vr, ha, hr) (covered_prefix (crdt_of st)) (changeset st) = Inr ms"
    and c': "apply_mutations (env.truncate e) (crdt_of st) ms = Inr c'" and st': "st' = st\<lparr>crdt_of := c'\<rparr>"
    by (rule state_commit_apply)
  have loc: "loc_ok loc" using assms(5,6,8) by (simp add: location_ok)
  note reads = batch_reads [OF assms(1) mutations_of_ok [OF ms assms(4)] loc c']
  note effect = mutations_of_vertex [OF ms assms(3-6,8)] mutations_of_hyperedge [OF ms assms(3-6,8)]
  have "get_data (env.truncate e) c' 0 loc = Inr (published (covers (covered_prefix (crdt_of st)) loc)
      (removed (env.truncate e) (crdt_of st) 0 loc \<or> changed vr d a (changeset st)) (last_written va d a (changeset st))
      (if removed (env.truncate e) (crdt_of st) 0 loc then None
       else nonempty (cells base (crdt_of st) (shard_key_for_location (env.truncate e) loc) 0 (to_id loc))))"
    using reads effect unfolding get_vertex_data_checked_def published_cells [symmetric] fold_written by simp
  moreover have "get_data (env.truncate e) c' 2 loc = Inr (published (covers (covered_prefix (crdt_of st)) loc)
      (removed (env.truncate e) (crdt_of st) 2 loc \<or> changed hr d a (changeset st)) (last_written ha d a (changeset st))
      (if removed (env.truncate e) (crdt_of st) 2 loc then None
       else nonempty (cells base (crdt_of st) (shard_key_for_location (env.truncate e) loc) 2 (to_id loc))))"
    using reads effect unfolding get_hyperedge_data_checked_def published_cells [symmetric] fold_written by simp
  ultimately show ?thesis
    using assms(9) unfolding data_cells [OF assms(1), of "crdt_of st"] st' by auto
qed

lemma commit_records:
  assumes "state_commit e st = (st', Inr ())"
  shows "get_record e (state_abort st') k = get_record e st k"
proof -
  from assms obtain discs where discs: "discriminators e = Inr discs"
    by (cases "discriminators e") (simp_all add: state_commit_def)
  from assms discs obtain ms c' where ms: "mutations_of discs (covered_prefix (crdt_of st)) (changeset st) = Inr ms"
    and c': "apply_mutations (env.truncate e) (crdt_of st) ms = Inr c'" and st': "st' = st\<lparr>crdt_of := c'\<rparr>"
    by (rule state_commit_apply)
  have "CrdtStaging.pending_records c' k =
      (case find_map (record_at k) (rev (changeset st)) of Some v \<Rightarrow> Some v | None \<Rightarrow> CrdtStaging.pending_records (crdt_of st) k)"
    using apply_mutations_records [OF c'] mutations_of_records [OF ms, of "CrdtStaging.pending_records (crdt_of st)"]
      fold_recorded [of "CrdtStaging.pending_records (crdt_of st)" ms Map.empty] staged_over_get by simp
  then show ?thesis
    by (simp add: get_record_def state_abort_def st' read_execution_record_def split: option.splits)
qed

lemma abort_get:
  assumes "discriminators e = Inr (va, vr, ha, hr)" "distinct [va, vr, ha, hr]" "length d = 32" "length a = 32"
    and "(add, rem, n) \<in> {(va, vr, 0), (ha, hr, 2)}"
  shows "state_get e (state_abort st) d a add = get_data (env.truncate e) (crdt_of st) n \<lparr>app_address = d, data_address = a\<rparr>"
  using assms by (auto simp: state_get_def state_abort_def discriminators_def result_iff location_ok
      get_vertex_data_checked_def get_hyperedge_data_checked_def)

section \<open>Savepoints\<close>

text \<open>The states that a caller reaches with the write operations, failed ones included. They only append
  to the changeset.\<close>

inductive writes :: "exec_env \<Rightarrow> hstate \<Rightarrow> hstate \<Rightarrow> bool" for e where
  none: "writes e st st"
| set: "writes e st st1 \<Longrightarrow> state_set e domain address disc val st1 = (st2, r) \<Longrightarrow> writes e st st2"
| delete: "writes e st st1 \<Longrightarrow> state_delete domain address disc st1 = (st2, r) \<Longrightarrow> writes e st st2"
| stage_records: "writes e st st1 \<Longrightarrow> writes e st (stage_records rs st1)"
| init_metadata_vertex: "writes e st st1 \<Longrightarrow> init_metadata_vertex e domain cm si rdf ad ty st1 = (st2, r) \<Longrightarrow> writes e st st2"

definition appends :: "hstate \<Rightarrow> hstate \<Rightarrow> bool" where
  "appends st st' \<longleftrightarrow> (\<exists>cs. st' = state_push cs st)"

lemma appends_refl: "appends st st"
  unfolding appends_def by (rule exI [of _ "[]"]) (simp add: state_push_def)

lemma appends_trans: "appends st st1 \<Longrightarrow> appends st1 st2 \<Longrightarrow> appends st st2"
  by (auto simp: appends_def state_push_def)

lemma appends_set: "state_set e d a disc v st = (st', r) \<Longrightarrow> appends st st'"
  using appends_refl by (auto simp: state_set_def appends_def split: sum.splits)

lemma writes_appends: "writes e st st' \<Longrightarrow> appends st st'"
proof (induction rule: writes.induct)
  case (init_metadata_vertex st st1 domain cm si rdf ad ty st2 r)
  then have "appends st1 st2"
    by (auto simp: init_metadata_vertex_def appends_refl dest: appends_set split: if_splits sum.splits)
  with init_metadata_vertex show ?case by (blast intro: appends_trans)
next
  case (delete st st1 domain address disc st2 r)
  then have "appends st1 st2" by (auto simp: state_delete_def appends_def)
  with delete show ?case by (blast intro: appends_trans)
next
  case (stage_records st st1 rs)
  have "appends st1 (StateChanges.stage_records rs st1)" by (auto simp: StateChanges.stage_records_def appends_def)
  with stage_records show ?case by (blast intro: appends_trans)
qed (auto intro: appends_refl appends_trans appends_set)

lemma rollback_appends: "appends st st' \<Longrightarrow> rollback_to (changeset_len st) st' = st"
  by (auto simp: appends_def rollback_to_def changeset_len_def state_push_def)

lemma appends_crdt: "appends st st' \<Longrightarrow> crdt_of st' = crdt_of st"
  by (auto simp: appends_def state_push_def)

definition example_exec_env :: exec_env where
  "example_exec_env = env.extend example_env (exec_env.fields (\<lambda>b. Inr b) (\<lambda>_. []))"

lemma example_exec_env [simp]:
  "env.truncate example_exec_env = example_env" "poseidon example_exec_env = Inr"
  by (simp_all add: example_exec_env_def env.defs exec_env.defs)

lemma example_labels: "discriminators example_exec_env =
    Inr (ascii ''vertex:adds'', ascii ''vertex:removes'', ascii ''hyperedge:adds'', ascii ''hyperedge:removes'')"
  "distinct [ascii ''vertex:adds'', ascii ''vertex:removes'', ascii ''hyperedge:adds'', ascii ''hyperedge:removes'']"
  by (simp_all add: discriminators_def vertex_adds_discriminator_def vertex_removes_discriminator_def
      hyperedge_adds_discriminator_def hyperedge_removes_discriminator_def ascii_def)

text \<open>A state with one vertex written on an empty hypergraph.\<close>

definition example_written :: hstate where
  "example_written = \<lparr>crdt_of = example_crdt, changeset = [StateEntry \<lparr>change_domain = replicate 32 1, change_address = replicate 32 2,
    change_discriminator = ascii ''vertex:adds'', state_change = Create, change_value = [7]\<rparr>]\<rparr>"

lemma example_absent:
  "get_data example_env example_crdt 0 \<lparr>app_address = replicate 32 1, data_address = replicate 32 2\<rparr> = Inr None"
  "\<not> removed example_env example_crdt 0 \<lparr>app_address = replicate 32 1, data_address = replicate 32 2\<rparr>"
  by (simp_all add: data_cells [OF example_reads] removed_cells [OF example_reads] example_cells nonempty_def)

lemma example_set:
  "state_set example_exec_env (replicate 32 1) (replicate 32 2) (ascii ''vertex:adds'') [7] (hstate_new example_crdt) = (example_written, Inr ())"
  using example_absent by (simp add: state_set_def hstate_new_def location_ok vertex_adds_discriminator_def hyperedge_adds_discriminator_def
      get_vertex_data_checked_def event_of_def state_push_def example_written_def)

lemma example_written:
  "crdt_of example_written = example_crdt" "list_all entry_ok (changeset example_written)"
  "last_written (ascii ''vertex:adds'') (replicate 32 1) (replicate 32 2) (changeset example_written) = Some [7]"
  "\<not> changed (ascii ''vertex:removes'') (replicate 32 1) (replicate 32 2) (changeset example_written)"
  "covers (covered_prefix (crdt_of example_written)) \<lparr>app_address = replicate 32 1, data_address = replicate 32 2\<rparr>"
  using example_labels(2) by (simp_all add: example_written_def last_written_def covers_def example_crdt_def)

lemma example_commit: "\<exists>st. state_commit example_exec_env example_written = (st, Inr ())"
proof -
  have loc: "\<lparr>app_address = replicate 32 1, data_address = replicate 32 2\<rparr> = example_loc 2" by (simp add: example_loc_def)
  have "\<exists>c'. apply_mutations example_env example_crdt [AddVertex (example_loc 2) [7]] = Inr c'"
    by (simp add: apply_mutations_def prepare_add_def Let_def prepared_read_cells [OF example_reads] example_bump
        example_cells blobs_none publish_def next_entry_def i128_def)
  then show ?thesis
    using example_labels by (auto simp: state_commit_def example_written_def covers_def example_crdt_def location_ok loc)
qed

section \<open>Properties\<close>

text \<open>
  C24. Publishing a changeset makes exactly its writes readable. After a successful commit and the
  abort that clears the changeset, an address reads, in the vertex set and in the hyperedge set, as
  it did before if the node does not cover it; as absent if it was removed earlier or the changeset
  removes it; and otherwise as the last value the changeset wrote there, an empty value being absent,
  or as before if it wrote none. So what a message read before the commit is what is read after it,
  unless the address was deleted or removed. Records read the same before and after.
\<close>

theorem commit_publishes_changes:
  assumes "reads_from (env.truncate e) base" "discriminators e = Inr (va, vr, ha, hr)" "distinct [va, vr, ha, hr]"
    and "list_all entry_ok (changeset st)" "length d = 32" "length a = 32" "state_commit e st = (st', Inr ())"
    and "(add, rem, n) \<in> {(va, vr, 0), (ha, hr, 2)}"
  shows "let loc = \<lparr>app_address = d, data_address = a\<rparr>; cs = changeset st;
      covered = covers (covered_prefix (crdt_of st)) loc;
      gone = (removed (env.truncate e) (crdt_of st) n loc \<or> changed rem d a cs) in
    state_get e (state_abort st') d a add =
      rbind (state_get e (state_abort st) d a add) (\<lambda>old. Inr (published covered gone (last_written add d a cs) old)) \<and>
    (covered \<and> \<not> gone \<and> \<not> deleted add d a cs \<longrightarrow>
      state_get e (state_abort st') d a add = rbind (state_get e st d a add) (\<lambda>v. Inr (nonempty v))) \<and>
    get_record e (state_abort st') k = get_record e st k"
proof -
  let ?loc = "\<lparr>app_address = d, data_address = a\<rparr>"
  note read = abort_get [OF assms(2,3,5,6,8)]
  note data = commit_data [OF assms(1-7) refl assms(8)]
  have same: "state_get e st d a add = (case last_written add d a (changeset st) of Some v \<Rightarrow> Inr (Some v)
      | None \<Rightarrow> state_get e (state_abort st) d a add)" if "\<not> deleted add d a (changeset st)"
    using last_written_read [OF that] by (simp add: state_get_def state_abort_def split: option.split cong: if_cong)
  show ?thesis
    unfolding Let_def read data
    using commit_records [OF assms(7)] same data_cells [OF assms(1), of "crdt_of st" n ?loc]
    by (auto simp: read published_def nonempty_def split: option.splits list.splits)
qed

theorem commit_publishes_changes_witness:
  "\<exists>st2. state_commit example_exec_env example_written = (st2, Inr ()) \<and>
     state_get example_exec_env (state_abort st2) (replicate 32 1) (replicate 32 2) (ascii ''vertex:adds'') = Inr (Some [7])"
proof -
  let ?e = example_exec_env and ?d = "replicate 32 1 :: bytes" and ?a = "replicate 32 2 :: bytes" and ?va = "ascii ''vertex:adds''"
  obtain st2 where commit: "state_commit ?e example_written = (st2, Inr ())" using example_commit by blast
  have reads: "reads_from (env.truncate ?e) (\<lambda>_ _ _. None)" using example_reads by simp
  note st = example_written
  have "state_get ?e (state_abort example_written) ?d ?a ?va = Inr None"
    using abort_get [OF example_labels, of ?d ?a ?va "ascii ''vertex:removes''" 0 example_written] example_absent(1) st(1) by simp
  with commit_publishes_changes [OF reads example_labels st(2) _ _ commit, of ?d ?a ?va "ascii ''vertex:removes''" 0 "[]"] st example_absent
  have "state_get ?e (state_abort st2) ?d ?a ?va = Inr (Some [7])"
    by (simp add: Let_def published_def nonempty_def)
  with commit show ?thesis by blast
qed

end
