(* ===== verification/Signatures.thy ===== *)
theory Signatures
  imports Canonical
begin

text \<open>
  The messages that other messages carry: \<^verbatim>\<open>addressed_signature.rs\<close>, \<^verbatim>\<open>sig_with_pop.rs\<close> and
  \<^verbatim>\<open>seniority_merge.rs\<close> of the global intrinsic. Each satisfies the contract \<open>nested_codec\<close>,
  so that it can sit behind a length in another message.
\<close>

section \<open>Addressed signatures\<close>

definition TYPE_BLS48581_ADDRESSED_SIGNATURE :: u32 where "TYPE_BLS48581_ADDRESSED_SIGNATURE = 0x011B"
definition MAX_ADDRESSED_SIG_LEN :: nat where "MAX_ADDRESSED_SIG_LEN = 4 + 4 + (666 + 516) + 4 + 32"
definition SIG_LEN_SINGLE :: nat where "SIG_LEN_SINGLE = 666"
definition SIG_LEN_AGGREGATE_1 :: nat where "SIG_LEN_AGGREGATE_1 = 666 + 516"
definition ADDRESS_LEN :: nat where "ADDRESS_LEN = 32"

lemmas sig_lens = MAX_ADDRESSED_SIG_LEN_def SIG_LEN_SINGLE_def SIG_LEN_AGGREGATE_1_def ADDRESS_LEN_def

record addressed_signature =
  as_signature :: bytes
  as_address :: bytes

definition as_to_canonical_bytes :: "addressed_signature \<Rightarrow> bytes" where
  "as_to_canonical_bytes s =
    u32_to_be_bytes TYPE_BLS48581_ADDRESSED_SIGNATURE @ put_lp (as_signature s) @ put_lp (as_address s)"

definition read_as :: "addressed_signature reader" where
  "read_as bs =
    rbind (read_type TYPE_BLS48581_ADDRESSED_SIGNATURE bs) (\<lambda>(_, bs).
    rbind (read_u32 InvalidArgument bs) (\<lambda>(sig_len, bs).
      if unat sig_len \<noteq> SIG_LEN_SINGLE \<and> unat sig_len \<noteq> SIG_LEN_AGGREGATE_1 then Inl InvalidArgument
      else
        rbind (read_bytes InvalidArgument (unat sig_len) bs) (\<lambda>(signature, bs).
        rbind (read_u32 InvalidArgument bs) (\<lambda>(addr_len, bs).
          if unat addr_len \<noteq> ADDRESS_LEN then Inl InvalidArgument
          else
            rbind (read_bytes InvalidArgument (unat addr_len) bs) (\<lambda>(address, bs).
              Inr (\<lparr>as_signature = signature, as_address = address\<rparr>, bs))))))"

definition as_from_canonical_bytes :: "bytes \<Rightarrow> addressed_signature result" where
  "as_from_canonical_bytes = whole read_as"

definition as_ok :: "addressed_signature \<Rightarrow> bool" where
  "as_ok s \<longleftrightarrow>
    (length (as_signature s) = SIG_LEN_SINGLE \<or> length (as_signature s) = SIG_LEN_AGGREGATE_1) \<and>
    length (as_address s) = ADDRESS_LEN"

lemma length_as: "length (as_to_canonical_bytes s) = 12 + length (as_signature s) + length (as_address s)"
  by (simp add: as_to_canonical_bytes_def)

lemma as_append: "as_ok s \<Longrightarrow> read_as (as_to_canonical_bytes s @ bs) = Inr (s, bs)"
  by (cases s) (auto simp: as_to_canonical_bytes_def read_as_def as_ok_def put_lp_def sig_lens)

lemma read_as_Inr:
  "read_as bs = Inr (s, bs') \<Longrightarrow> as_ok s \<and> length (as_to_canonical_bytes s) + length bs' = length bs"
  by (auto simp: read_as_def result_iff as_ok_def length_as read_u32_Inr read_type_Inr split: if_splits dest!: read_bytes_length)

interpretation asig: nested_codec as_to_canonical_bytes read_as as_ok
proof unfold_locales
  show "as_to_canonical_bytes s \<noteq> []" for s using length_as [of s] by auto
qed (auto simp: as_append dest: read_as_Inr)

section \<open>Signatures with a proof of possession\<close>

definition TYPE_BLS48581_SIG_WITH_POP :: u32 where "TYPE_BLS48581_SIG_WITH_POP = 0x011A"
definition TYPE_BLS48581_G2_PUBLIC_KEY :: u32 where "TYPE_BLS48581_G2_PUBLIC_KEY = 0x0117"
definition SIG_LEN :: nat where "SIG_LEN = 666"
definition WRAPPED_PUBKEY_LEN :: nat where "WRAPPED_PUBKEY_LEN = 901"

record signature_with_pop =
  sp_signature :: bytes
  sp_public_key :: "bytes option"
  sp_pop_signature :: bytes

definition wrap_public_key :: "bytes \<Rightarrow> bytes" where
  "wrap_public_key pk = u32_to_be_bytes TYPE_BLS48581_G2_PUBLIC_KEY @ pk"

definition sp_to_canonical_bytes :: "signature_with_pop \<Rightarrow> bytes" where
  "sp_to_canonical_bytes s =
    u32_to_be_bytes TYPE_BLS48581_SIG_WITH_POP @ put_lp (sp_signature s) @
    put_opt wrap_public_key (sp_public_key s) @ put_lp (sp_pop_signature s)"

definition read_sig_field :: "bytes reader" where
  "read_sig_field bs =
    rbind (read_u32 InvalidArgument bs) (\<lambda>(n, bs).
      if unat n \<noteq> SIG_LEN then Inl InvalidArgument else read_bytes InvalidArgument (unat n) bs)"

definition read_public_key :: "bytes option reader" where
  "read_public_key bs =
    rbind (read_u32 InvalidArgument bs) (\<lambda>(pk_len, bs).
      if 0 < unat pk_len then
        if unat pk_len \<noteq> WRAPPED_PUBKEY_LEN then Inl InvalidArgument
        else
          rbind (read_bytes InvalidArgument (unat pk_len) bs) (\<lambda>(pk_bytes, bs).
            if length pk_bytes < 4 then Inl InvalidArgument else Inr (Some (drop 4 pk_bytes), bs))
      else Inr (None, bs))"

definition read_sp :: "signature_with_pop reader" where
  "read_sp bs =
    rbind (read_type TYPE_BLS48581_SIG_WITH_POP bs) (\<lambda>(_, bs).
    rbind (read_sig_field bs) (\<lambda>(signature, bs).
    rbind (read_public_key bs) (\<lambda>(public_key, bs).
    rbind (read_sig_field bs) (\<lambda>(pop_signature, bs).
      Inr (\<lparr>sp_signature = signature, sp_public_key = public_key, sp_pop_signature = pop_signature\<rparr>, bs)))))"

definition sp_from_canonical_bytes :: "bytes \<Rightarrow> signature_with_pop result" where
  "sp_from_canonical_bytes = whole read_sp"

definition sp_ok :: "signature_with_pop \<Rightarrow> bool" where
  "sp_ok s \<longleftrightarrow> length (sp_signature s) = SIG_LEN \<and> length (sp_pop_signature s) = SIG_LEN \<and>
    pred_option (\<lambda>pk. length pk = 897) (sp_public_key s)"

lemma length_wrap_public_key [simp]: "length (wrap_public_key pk) = 4 + length pk"
  by (simp add: wrap_public_key_def)

lemma drop_wrap_public_key [simp]: "drop 4 (wrap_public_key pk) = pk"
  by (simp add: wrap_public_key_def)

lemma sig_field_append [simp]: "length b = SIG_LEN \<Longrightarrow> read_sig_field (put_lp b @ bs) = Inr (b, bs)"
  by (simp add: read_sig_field_def put_lp_def SIG_LEN_def)

lemma public_key_append [simp]:
  "pred_option (\<lambda>pk. length pk = 897) x \<Longrightarrow> read_public_key (put_opt wrap_public_key x @ bs) = Inr (x, bs)"
  by (cases x)
    (simp_all add: read_public_key_def put_opt_def put_lp_def WRAPPED_PUBKEY_LEN_def)

lemma read_sig_field_Inr: "read_sig_field bs = Inr (b, bs') \<Longrightarrow> length b = SIG_LEN \<and> length bs = 4 + length b + length bs'"
  by (auto simp: read_sig_field_def result_iff read_u32_Inr split: if_splits dest!: read_bytes_length)

lemma read_public_key_Inr:
  "read_public_key bs = Inr (x, bs') \<Longrightarrow>
    pred_option (\<lambda>pk. length pk = 897) x \<and> length bs = length (put_opt wrap_public_key x) + length bs'"
  by (auto simp: read_public_key_def result_iff read_u32_Inr put_opt_def WRAPPED_PUBKEY_LEN_def
      split: if_splits dest!: read_bytes_length)

lemma length_sp:
  "length (sp_to_canonical_bytes s) =
    12 + length (sp_signature s) + length (put_opt wrap_public_key (sp_public_key s)) + length (sp_pop_signature s)"
  by (simp add: sp_to_canonical_bytes_def)

lemma sp_append: "sp_ok s \<Longrightarrow> read_sp (sp_to_canonical_bytes s @ bs) = Inr (s, bs)"
  by (cases s) (simp add: sp_to_canonical_bytes_def read_sp_def sp_ok_def)

lemma read_sp_Inr:
  "read_sp bs = Inr (s, bs') \<Longrightarrow> sp_ok s \<and> length (sp_to_canonical_bytes s) + length bs' = length bs"
  by (auto simp: read_sp_def result_iff sp_ok_def length_sp read_type_Inr
      dest!: read_sig_field_Inr read_public_key_Inr)

interpretation spop: nested_codec sp_to_canonical_bytes read_sp sp_ok
proof unfold_locales
  show "sp_to_canonical_bytes s \<noteq> []" for s using length_sp [of s] by auto
qed (auto simp: sp_append dest: read_sp_Inr)

section \<open>Seniority merges\<close>

definition TYPE_SENIORITY_MERGE :: u32 where "TYPE_SENIORITY_MERGE = 0x0310"
definition MAX_SENIORITY_SIG_LEN :: nat where "MAX_SENIORITY_SIG_LEN = 114"
definition MAX_SENIORITY_KEY_LEN :: nat where "MAX_SENIORITY_KEY_LEN = 585"

record seniority_merge =
  sm_signature :: bytes
  sm_key_type :: u32
  sm_prover_public_key :: bytes

definition sm_to_canonical_bytes :: "seniority_merge \<Rightarrow> bytes" where
  "sm_to_canonical_bytes s =
    u32_to_be_bytes TYPE_SENIORITY_MERGE @ put_lp (sm_signature s) @
    u32_to_be_bytes (sm_key_type s) @ put_lp (sm_prover_public_key s)"

definition read_sm :: "seniority_merge reader" where
  "read_sm bs =
    rbind (read_type TYPE_SENIORITY_MERGE bs) (\<lambda>(_, bs).
    rbind (read_capped MAX_SENIORITY_SIG_LEN bs) (\<lambda>(signature, bs).
    rbind (read_u32 InvalidArgument bs) (\<lambda>(key_type, bs).
    rbind (read_capped MAX_SENIORITY_KEY_LEN bs) (\<lambda>(prover_public_key, bs).
      Inr (\<lparr>sm_signature = signature, sm_key_type = key_type, sm_prover_public_key = prover_public_key\<rparr>, bs)))))"

definition sm_from_canonical_bytes :: "bytes \<Rightarrow> seniority_merge result" where
  "sm_from_canonical_bytes = whole read_sm"

definition sm_ok :: "seniority_merge \<Rightarrow> bool" where
  "sm_ok s \<longleftrightarrow> length (sm_signature s) \<le> MAX_SENIORITY_SIG_LEN \<and>
    length (sm_prover_public_key s) \<le> MAX_SENIORITY_KEY_LEN"

lemma length_sm: "length (sm_to_canonical_bytes s) = 16 + length (sm_signature s) + length (sm_prover_public_key s)"
  by (simp add: sm_to_canonical_bytes_def)

lemma sm_append: "sm_ok s \<Longrightarrow> read_sm (sm_to_canonical_bytes s @ bs) = Inr (s, bs)"
  by (cases s)
    (simp add: sm_to_canonical_bytes_def read_sm_def sm_ok_def MAX_SENIORITY_SIG_LEN_def MAX_SENIORITY_KEY_LEN_def)

lemma read_sm_Inr:
  "read_sm bs = Inr (s, bs') \<Longrightarrow> sm_ok s \<and> length (sm_to_canonical_bytes s) + length bs' = length bs"
  by (auto simp: read_sm_def result_iff sm_ok_def length_sm read_type_Inr read_u32_Inr dest!: read_capped_length)

interpretation smrg: nested_codec sm_to_canonical_bytes read_sm sm_ok
proof unfold_locales
  show "sm_to_canonical_bytes s \<noteq> []" for s using length_sm [of s] by auto
qed (auto simp: sm_append dest: read_sm_Inr)

end
