(* ===== verification/ProverMessages.thy ===== *)
theory ProverMessages
  imports Signatures
begin

text \<open>
  The canonical encodings of the operations on the prover registry:
  \<^verbatim>\<open>prover_filter_ops.rs\<close> (leave, pause, resume), \<^verbatim>\<open>prover_ops.rs\<close> (reject, kick, update,
  seniority merge, shard split and merge; the confirmation is in the theory of leaf roots) and
  \<^verbatim>\<open>prover_join.rs\<close> of the global intrinsic. Each decoder reads its fields from the cursor and
  caps every count and length before it reads what follows.
\<close>

section \<open>Optional signatures and filter lists\<close>

definition read_opt_addr_sig :: "addressed_signature option reader" where
  "read_opt_addr_sig = read_opt MAX_ADDRESSED_SIG_LEN as_from_canonical_bytes"

definition write_opt_addr_sig :: "addressed_signature option \<Rightarrow> bytes" where
  "write_opt_addr_sig = put_opt as_to_canonical_bytes"

definition MAX_PROVER_FILTERS_COUNT :: nat where "MAX_PROVER_FILTERS_COUNT = 100"
definition MAX_PROVER_FILTER_LEN :: nat where "MAX_PROVER_FILTER_LEN = 64"

definition read_filters :: "bytes list reader" where
  "read_filters = read_list MAX_PROVER_FILTERS_COUNT (read_capped MAX_PROVER_FILTER_LEN)"

definition write_filters :: "bytes list \<Rightarrow> bytes" where
  "write_filters fs = put_list put_lp fs"

definition shards_ok :: "nat \<Rightarrow> nat \<Rightarrow> bytes list \<Rightarrow> bool" where
  "shards_ok n k fs \<longleftrightarrow> length fs \<le> n \<and> list_all (\<lambda>f. length f \<le> k) fs"

definition filters_ok :: "bytes list \<Rightarrow> bool" where
  "filters_ok = shards_ok MAX_PROVER_FILTERS_COUNT MAX_PROVER_FILTER_LEN"

interpretation osig: checked_codec write_opt_addr_sig read_opt_addr_sig "pred_option as_ok"
proof unfold_locales
  have cap: "as_ok s \<Longrightarrow> length (as_to_canonical_bytes s) \<le> MAX_ADDRESSED_SIG_LEN \<and> length (as_to_canonical_bytes s) < 2 ^ 32" for s
    by (auto simp: length_as as_ok_def sig_lens)
  show "read_opt_addr_sig (write_opt_addr_sig x @ bs) = Inr (x, bs)" if "pred_option as_ok x" for x bs
    using that cap asig.opt.dec_enc_append [of MAX_ADDRESSED_SIG_LEN x bs]
    by (cases x) (simp_all add: read_opt_addr_sig_def write_opt_addr_sig_def as_from_canonical_bytes_def)
  show "pred_option as_ok x" if "read_opt_addr_sig bs = Inr (x, bs')" for bs x bs'
    using that asig.opt.dec_ok [of MAX_ADDRESSED_SIG_LEN bs x bs']
    by (cases x) (simp_all add: read_opt_addr_sig_def as_from_canonical_bytes_def)
qed

lemma shard_list_codec:
  assumes "n < 2 ^ 32" and "k < 2 ^ 32"
  shows "shards_ok n k fs \<Longrightarrow> read_list n (read_capped k) (put_list put_lp fs @ bs) = Inr (fs, bs)"
    and "read_list n (read_capped k) bs = Inr (fs, bs') \<Longrightarrow> shards_ok n k fs"
proof -
  show "read_list n (read_capped k) (put_list put_lp fs @ bs) = Inr (fs, bs)" if "shards_ok n k fs"
    using that assms by (intro cap.list_append) (auto simp: shards_ok_def list_all_iff dest: order_le_less_trans)
  show "shards_ok n k fs" if "read_list n (read_capped k) bs = Inr (fs, bs')"
    using cap.list_ok [OF that] by (simp add: shards_ok_def list_all_iff)
qed

interpretation filters: checked_codec write_filters read_filters filters_ok
  using shard_list_codec [of MAX_PROVER_FILTERS_COUNT MAX_PROVER_FILTER_LEN]
  by unfold_locales
    (simp_all add: write_filters_def read_filters_def filters_ok_def MAX_PROVER_FILTERS_COUNT_def MAX_PROVER_FILTER_LEN_def)

lemmas shards64 = shard_list_codec [of 8 64, simplified]
lemmas shards66 = shard_list_codec [of 8 66, simplified]

section \<open>Leave, pause, resume\<close>

definition TYPE_PROVER_LEAVE :: u32 where "TYPE_PROVER_LEAVE = 0x0302"
definition TYPE_PROVER_PAUSE :: u32 where "TYPE_PROVER_PAUSE = 0x0303"
definition TYPE_PROVER_RESUME :: u32 where "TYPE_PROVER_RESUME = 0x0304"

record prover_leave =
  pl_filters :: "bytes list"
  pl_frame_number :: u64
  pl_signature :: "addressed_signature option"

record prover_pause =
  pp_filter :: bytes
  pp_frame_number :: u64
  pp_signature :: "addressed_signature option"

record prover_resume =
  pr_filter :: bytes
  pr_frame_number :: u64
  pr_signature :: "addressed_signature option"

definition leave_to_canonical_bytes :: "prover_leave \<Rightarrow> bytes" where
  "leave_to_canonical_bytes m =
    u32_to_be_bytes TYPE_PROVER_LEAVE @ write_filters (pl_filters m) @
    u64_to_be_bytes (pl_frame_number m) @ write_opt_addr_sig (pl_signature m)"

definition read_leave :: "prover_leave reader" where
  "read_leave bs =
    rbind (read_type TYPE_PROVER_LEAVE bs) (\<lambda>(_, bs).
    rbind (read_filters bs) (\<lambda>(filters, bs).
    rbind (read_u64 InvalidArgument bs) (\<lambda>(frame_number, bs).
    rbind (read_opt_addr_sig bs) (\<lambda>(sig, bs).
      Inr (\<lparr>pl_filters = filters, pl_frame_number = frame_number, pl_signature = sig\<rparr>, bs)))))"

definition leave_from_canonical_bytes :: "bytes \<Rightarrow> prover_leave result" where
  "leave_from_canonical_bytes = whole read_leave"

definition pause_to_canonical_bytes :: "prover_pause \<Rightarrow> bytes" where
  "pause_to_canonical_bytes m =
    u32_to_be_bytes TYPE_PROVER_PAUSE @ put_lp (pp_filter m) @
    u64_to_be_bytes (pp_frame_number m) @ write_opt_addr_sig (pp_signature m)"

definition read_pause :: "prover_pause reader" where
  "read_pause bs =
    rbind (read_type TYPE_PROVER_PAUSE bs) (\<lambda>(_, bs).
    rbind (read_capped MAX_PROVER_FILTER_LEN bs) (\<lambda>(filter, bs).
    rbind (read_u64 InvalidArgument bs) (\<lambda>(frame_number, bs).
    rbind (read_opt_addr_sig bs) (\<lambda>(sig, bs).
      Inr (\<lparr>pp_filter = filter, pp_frame_number = frame_number, pp_signature = sig\<rparr>, bs)))))"

definition pause_from_canonical_bytes :: "bytes \<Rightarrow> prover_pause result" where
  "pause_from_canonical_bytes = whole read_pause"

definition resume_to_canonical_bytes :: "prover_resume \<Rightarrow> bytes" where
  "resume_to_canonical_bytes m =
    u32_to_be_bytes TYPE_PROVER_RESUME @ put_lp (pr_filter m) @
    u64_to_be_bytes (pr_frame_number m) @ write_opt_addr_sig (pr_signature m)"

definition read_resume :: "prover_resume reader" where
  "read_resume bs =
    rbind (read_type TYPE_PROVER_RESUME bs) (\<lambda>(_, bs).
    rbind (read_capped MAX_PROVER_FILTER_LEN bs) (\<lambda>(filter, bs).
    rbind (read_u64 InvalidArgument bs) (\<lambda>(frame_number, bs).
    rbind (read_opt_addr_sig bs) (\<lambda>(sig, bs).
      Inr (\<lparr>pr_filter = filter, pr_frame_number = frame_number, pr_signature = sig\<rparr>, bs)))))"

definition resume_from_canonical_bytes :: "bytes \<Rightarrow> prover_resume result" where
  "resume_from_canonical_bytes = whole read_resume"

definition leave_ok :: "prover_leave \<Rightarrow> bool" where
  "leave_ok m \<longleftrightarrow> filters_ok (pl_filters m) \<and> pred_option as_ok (pl_signature m)"

definition pause_ok :: "prover_pause \<Rightarrow> bool" where
  "pause_ok m \<longleftrightarrow> length (pp_filter m) \<le> MAX_PROVER_FILTER_LEN \<and> pred_option as_ok (pp_signature m)"

definition resume_ok :: "prover_resume \<Rightarrow> bool" where
  "resume_ok m \<longleftrightarrow> length (pr_filter m) \<le> MAX_PROVER_FILTER_LEN \<and> pred_option as_ok (pr_signature m)"

lemmas field_append = osig.dec_enc_append filters.dec_enc_append
lemmas field_ok = osig.dec_ok filters.dec_ok read_capped_length

interpretation leave: checked_codec leave_to_canonical_bytes read_leave leave_ok
  by unfold_locales
    (auto simp: leave_to_canonical_bytes_def read_leave_def leave_ok_def field_append result_iff dest: field_ok)

interpretation pause: checked_codec pause_to_canonical_bytes read_pause pause_ok
  by unfold_locales
    (auto simp: pause_to_canonical_bytes_def read_pause_def pause_ok_def field_append result_iff
      MAX_PROVER_FILTER_LEN_def dest: field_ok)

interpretation resume: checked_codec resume_to_canonical_bytes read_resume resume_ok
  by unfold_locales
    (auto simp: resume_to_canonical_bytes_def read_resume_def resume_ok_def field_append result_iff
      MAX_PROVER_FILTER_LEN_def dest: field_ok)

section \<open>Reject, kick, update\<close>

definition TYPE_PROVER_REJECT :: u32 where "TYPE_PROVER_REJECT = 0x0306"
definition TYPE_PROVER_KICK :: u32 where "TYPE_PROVER_KICK = 0x0307"
definition TYPE_PROVER_UPDATE :: u32 where "TYPE_PROVER_UPDATE = 0x0308"

text \<open>
  The confirm and reject messages write a fixed 32 bytes in the place of their old filter,
  whatever the field holds, and read any filter of at most 64 bytes.
\<close>

definition RESERVED :: bytes where
  "RESERVED = concat (replicate 4 [0x72, 0x65, 0x73, 0x65, 0x72, 0x76, 0x65, 0x64])"

record prover_reject =
  rj_filter :: bytes
  rj_frame_number :: u64
  rj_signature :: "addressed_signature option"
  rj_filters :: "bytes list"

record prover_kick =
  pk_frame_number :: u64
  pk_kicked_prover_public_key :: bytes
  pk_conflicting_frame_1 :: bytes
  pk_conflicting_frame_2 :: bytes
  pk_commitment :: bytes
  pk_proof :: bytes
  pk_traversal_proof :: bytes

record prover_update =
  pu_delegate_address :: bytes
  pu_signature :: "addressed_signature option"

definition reject_to_canonical_bytes :: "prover_reject \<Rightarrow> bytes" where
  "reject_to_canonical_bytes m =
    u32_to_be_bytes TYPE_PROVER_REJECT @ u32_to_be_bytes 32 @ RESERVED @
    u64_to_be_bytes (rj_frame_number m) @ write_opt_addr_sig (rj_signature m) @ write_filters (rj_filters m)"

definition read_reject :: "prover_reject reader" where
  "read_reject bs =
    rbind (read_type TYPE_PROVER_REJECT bs) (\<lambda>(_, bs).
    rbind (read_capped 64 bs) (\<lambda>(filter, bs).
    rbind (read_u64 InvalidArgument bs) (\<lambda>(frame_number, bs).
    rbind (read_opt_addr_sig bs) (\<lambda>(sig, bs).
    rbind (read_filters bs) (\<lambda>(filters, bs).
      Inr (\<lparr>rj_filter = filter, rj_frame_number = frame_number, rj_signature = sig, rj_filters = filters\<rparr>, bs))))))"

definition reject_from_canonical_bytes :: "bytes \<Rightarrow> prover_reject result" where
  "reject_from_canonical_bytes = whole read_reject"

definition kick_to_canonical_bytes :: "prover_kick \<Rightarrow> bytes" where
  "kick_to_canonical_bytes m =
    u32_to_be_bytes TYPE_PROVER_KICK @ u64_to_be_bytes (pk_frame_number m) @
    put_lp (pk_kicked_prover_public_key m) @ put_lp (pk_conflicting_frame_1 m) @
    put_lp (pk_conflicting_frame_2 m) @ put_lp (pk_commitment m) @ put_lp (pk_proof m) @
    put_lp (pk_traversal_proof m)"

definition read_kick :: "prover_kick reader" where
  "read_kick bs =
    rbind (read_type TYPE_PROVER_KICK bs) (\<lambda>(_, bs).
    rbind (read_u64 InvalidArgument bs) (\<lambda>(frame_number, bs).
    rbind (read_capped 897 bs) (\<lambda>(kicked, bs).
    rbind (read_capped 34825 bs) (\<lambda>(cf1, bs).
    rbind (read_capped 34825 bs) (\<lambda>(cf2, bs).
    rbind (read_capped 74 bs) (\<lambda>(commitment, bs).
    rbind (read_capped 160 bs) (\<lambda>(proof, bs).
    rbind (read_capped 4000 bs) (\<lambda>(traversal_proof, bs).
      Inr (\<lparr>pk_frame_number = frame_number, pk_kicked_prover_public_key = kicked,
        pk_conflicting_frame_1 = cf1, pk_conflicting_frame_2 = cf2, pk_commitment = commitment,
        pk_proof = proof, pk_traversal_proof = traversal_proof\<rparr>, bs)))))))))"

definition kick_from_canonical_bytes :: "bytes \<Rightarrow> prover_kick result" where
  "kick_from_canonical_bytes = whole read_kick"

definition update_to_canonical_bytes :: "prover_update \<Rightarrow> bytes" where
  "update_to_canonical_bytes m =
    u32_to_be_bytes TYPE_PROVER_UPDATE @ put_lp (pu_delegate_address m) @ write_opt_addr_sig (pu_signature m)"

definition read_update :: "prover_update reader" where
  "read_update bs =
    rbind (read_type TYPE_PROVER_UPDATE bs) (\<lambda>(_, bs).
    rbind (read_capped 32 bs) (\<lambda>(delegate_address, bs).
    rbind (read_opt_addr_sig bs) (\<lambda>(sig, bs).
      Inr (\<lparr>pu_delegate_address = delegate_address, pu_signature = sig\<rparr>, bs))))"

definition update_from_canonical_bytes :: "bytes \<Rightarrow> prover_update result" where
  "update_from_canonical_bytes = whole read_update"

definition reject_ok :: "prover_reject \<Rightarrow> bool" where
  "reject_ok m \<longleftrightarrow> pred_option as_ok (rj_signature m) \<and> filters_ok (rj_filters m)"

definition kick_ok :: "prover_kick \<Rightarrow> bool" where
  "kick_ok m \<longleftrightarrow> length (pk_kicked_prover_public_key m) \<le> 897 \<and>
    length (pk_conflicting_frame_1 m) \<le> 34825 \<and> length (pk_conflicting_frame_2 m) \<le> 34825 \<and>
    length (pk_commitment m) \<le> 74 \<and> length (pk_proof m) \<le> 160 \<and> length (pk_traversal_proof m) \<le> 4000"

definition update_ok :: "prover_update \<Rightarrow> bool" where
  "update_ok m \<longleftrightarrow> length (pu_delegate_address m) \<le> 32 \<and> pred_option as_ok (pu_signature m)"

lemma reserved_lp: "u32_to_be_bytes 32 @ RESERVED @ bs = put_lp RESERVED @ bs"
  by (simp add: put_lp_def RESERVED_def numeral_eq_Suc)

lemma length_RESERVED [simp]: "length RESERVED = 32"
  by (simp add: RESERVED_def numeral_eq_Suc)

interpretation kick: checked_codec kick_to_canonical_bytes read_kick kick_ok
  by unfold_locales
    (auto simp: kick_to_canonical_bytes_def read_kick_def kick_ok_def result_iff dest!: read_capped_length)

interpretation update: checked_codec update_to_canonical_bytes read_update update_ok
  by unfold_locales
    (auto simp: update_to_canonical_bytes_def read_update_def update_ok_def field_append result_iff dest: field_ok)

lemma reject_append:
  "reject_ok m \<Longrightarrow> read_reject (reject_to_canonical_bytes m @ bs) = Inr (m\<lparr>rj_filter := RESERVED\<rparr>, bs)"
  by (cases m) (simp add: reject_to_canonical_bytes_def read_reject_def reject_ok_def field_append reserved_lp)

lemma read_reject_ok: "read_reject bs = Inr (m, bs') \<Longrightarrow> reject_ok m \<and> length (rj_filter m) \<le> 64"
  by (auto simp: read_reject_def reject_ok_def result_iff dest: field_ok)

section \<open>Seniority merge, shard split, shard merge\<close>

definition TYPE_PROVER_SENIORITY_MERGE :: u32 where "TYPE_PROVER_SENIORITY_MERGE = 0x031A"
definition TYPE_SHARD_SPLIT :: u32 where "TYPE_SHARD_SPLIT = 0x031E"
definition TYPE_SHARD_MERGE :: u32 where "TYPE_SHARD_MERGE = 0x031F"

record prover_seniority_merge =
  ps_frame_number :: u64
  ps_signature :: "addressed_signature option"
  ps_merge_targets :: "seniority_merge list"

record shard_split =
  ss_shard_address :: bytes
  ss_proposed_shards :: "bytes list"
  ss_frame_number :: u64
  ss_signature :: "addressed_signature option"

record shard_merge =
  sg_shard_addresses :: "bytes list"
  sg_parent_address :: bytes
  sg_frame_number :: u64
  sg_signature :: "addressed_signature option"

definition ps_to_canonical_bytes :: "prover_seniority_merge \<Rightarrow> bytes" where
  "ps_to_canonical_bytes m =
    u32_to_be_bytes TYPE_PROVER_SENIORITY_MERGE @ u64_to_be_bytes (ps_frame_number m) @
    write_opt_addr_sig (ps_signature m) @ put_list (\<lambda>t. put_lp (sm_to_canonical_bytes t)) (ps_merge_targets m)"

definition read_ps :: "prover_seniority_merge reader" where
  "read_ps bs =
    rbind (read_type TYPE_PROVER_SENIORITY_MERGE bs) (\<lambda>(_, bs).
    rbind (read_u64 InvalidArgument bs) (\<lambda>(frame_number, bs).
    rbind (read_opt_addr_sig bs) (\<lambda>(sig, bs).
    rbind (read_list 100 (read_item 1000 sm_from_canonical_bytes) bs) (\<lambda>(merge_targets, bs).
      Inr (\<lparr>ps_frame_number = frame_number, ps_signature = sig, ps_merge_targets = merge_targets\<rparr>, bs)))))"

definition ps_from_canonical_bytes :: "bytes \<Rightarrow> prover_seniority_merge result" where
  "ps_from_canonical_bytes = whole read_ps"

definition split_to_canonical_bytes :: "shard_split \<Rightarrow> bytes" where
  "split_to_canonical_bytes m =
    u32_to_be_bytes TYPE_SHARD_SPLIT @ put_lp (ss_shard_address m) @ put_list put_lp (ss_proposed_shards m) @
    u64_to_be_bytes (ss_frame_number m) @ write_opt_addr_sig (ss_signature m)"

definition read_split :: "shard_split reader" where
  "read_split bs =
    rbind (read_type TYPE_SHARD_SPLIT bs) (\<lambda>(_, bs).
    rbind (read_capped 64 bs) (\<lambda>(shard_address, bs).
    rbind (read_list 8 (read_capped 66) bs) (\<lambda>(proposed_shards, bs).
    rbind (read_u64 InvalidArgument bs) (\<lambda>(frame_number, bs).
    rbind (read_opt_addr_sig bs) (\<lambda>(sig, bs).
      Inr (\<lparr>ss_shard_address = shard_address, ss_proposed_shards = proposed_shards,
        ss_frame_number = frame_number, ss_signature = sig\<rparr>, bs))))))"

definition split_from_canonical_bytes :: "bytes \<Rightarrow> shard_split result" where
  "split_from_canonical_bytes = whole read_split"

definition merge_to_canonical_bytes :: "shard_merge \<Rightarrow> bytes" where
  "merge_to_canonical_bytes m =
    u32_to_be_bytes TYPE_SHARD_MERGE @ put_list put_lp (sg_shard_addresses m) @ put_lp (sg_parent_address m) @
    u64_to_be_bytes (sg_frame_number m) @ write_opt_addr_sig (sg_signature m)"

definition read_merge :: "shard_merge reader" where
  "read_merge bs =
    rbind (read_type TYPE_SHARD_MERGE bs) (\<lambda>(_, bs).
    rbind (read_list 8 (read_capped 64) bs) (\<lambda>(shard_addresses, bs).
    rbind (read_capped 64 bs) (\<lambda>(parent_address, bs).
    rbind (read_u64 InvalidArgument bs) (\<lambda>(frame_number, bs).
    rbind (read_opt_addr_sig bs) (\<lambda>(sig, bs).
      Inr (\<lparr>sg_shard_addresses = shard_addresses, sg_parent_address = parent_address,
        sg_frame_number = frame_number, sg_signature = sig\<rparr>, bs))))))"

definition merge_from_canonical_bytes :: "bytes \<Rightarrow> shard_merge result" where
  "merge_from_canonical_bytes = whole read_merge"

text \<open>A merge target is at most 715 bytes long, below the 1,000 a target may have here.\<close>

definition ps_ok :: "prover_seniority_merge \<Rightarrow> bool" where
  "ps_ok m \<longleftrightarrow> pred_option as_ok (ps_signature m) \<and> length (ps_merge_targets m) \<le> 100 \<and> list_all sm_ok (ps_merge_targets m)"

definition split_ok :: "shard_split \<Rightarrow> bool" where
  "split_ok m \<longleftrightarrow> length (ss_shard_address m) \<le> 64 \<and> shards_ok 8 66 (ss_proposed_shards m) \<and>
    pred_option as_ok (ss_signature m)"

definition merge_ok :: "shard_merge \<Rightarrow> bool" where
  "merge_ok m \<longleftrightarrow> shards_ok 8 64 (sg_shard_addresses m) \<and> length (sg_parent_address m) \<le> 64 \<and>
    pred_option as_ok (sg_signature m)"

lemma sm_ok_length: "sm_ok t \<Longrightarrow> length (sm_to_canonical_bytes t) \<le> 715"
  by (simp add: sm_ok_def length_sm MAX_SENIORITY_SIG_LEN_def MAX_SENIORITY_KEY_LEN_def)

lemma targets_append:
  assumes "length ts \<le> 100" and "list_all sm_ok ts"
  shows "read_list 100 (read_item 1000 sm_from_canonical_bytes) (put_list (\<lambda>t. put_lp (sm_to_canonical_bytes t)) ts @ bs) =
    Inr (ts, bs)"
  unfolding sm_from_canonical_bytes_def using assms
  by (intro smrg.itm.list_append) (auto simp: list_all_iff dest!: sm_ok_length bspec)

lemma targets_ok:
  assumes "read_list 100 (read_item 1000 sm_from_canonical_bytes) bs = Inr (ts, bs')"
  shows "length ts \<le> 100 \<and> list_all sm_ok ts"
  using smrg.itm.list_ok [OF assms [unfolded sm_from_canonical_bytes_def]] by (simp add: list_all_iff)

interpretation psm: checked_codec ps_to_canonical_bytes read_ps ps_ok
  by unfold_locales
    (auto simp: ps_to_canonical_bytes_def read_ps_def ps_ok_def field_append targets_append result_iff
      dest: field_ok targets_ok)

interpretation split: checked_codec split_to_canonical_bytes read_split split_ok
  by unfold_locales
    (auto simp: split_to_canonical_bytes_def read_split_def split_ok_def field_append shards66(1) result_iff
      dest: field_ok shards66(2))

interpretation merge: checked_codec merge_to_canonical_bytes read_merge merge_ok
  by unfold_locales
    (auto simp: merge_to_canonical_bytes_def read_merge_def merge_ok_def field_append shards64(1) result_iff
      dest: field_ok shards64(2))

section \<open>Join\<close>

definition TYPE_PROVER_JOIN :: u32 where "TYPE_PROVER_JOIN = 0x0301"
definition MAX_SIG_LEN :: nat where "MAX_SIG_LEN = 2249"
definition MAX_DELEGATE_ADDR_LEN :: nat where "MAX_DELEGATE_ADDR_LEN = 32"
definition MAX_MERGE_TARGET_LEN :: nat where "MAX_MERGE_TARGET_LEN = 675"
definition MAX_PROOF_LEN :: nat where "MAX_PROOF_LEN = 51600"

lemmas join_limits = MAX_SIG_LEN_def MAX_DELEGATE_ADDR_LEN_def MAX_MERGE_TARGET_LEN_def MAX_PROOF_LEN_def

record prover_join =
  pj_filters :: "bytes list"
  pj_frame_number :: u64
  pj_signature :: "signature_with_pop option"
  pj_delegate_address :: bytes
  pj_merge_targets :: "seniority_merge list"
  pj_proof :: bytes

definition join_to_canonical_bytes :: "prover_join \<Rightarrow> bytes" where
  "join_to_canonical_bytes m =
    u32_to_be_bytes TYPE_PROVER_JOIN @ put_list put_lp (pj_filters m) @ u64_to_be_bytes (pj_frame_number m) @
    put_opt sp_to_canonical_bytes (pj_signature m) @ put_lp (pj_delegate_address m) @
    put_list (\<lambda>t. put_lp (sm_to_canonical_bytes t)) (pj_merge_targets m) @ put_lp (pj_proof m)"

text \<open>The number of merge targets is not capped.\<close>

definition read_merge_targets :: "seniority_merge list reader" where
  "read_merge_targets bs =
    rbind (read_u32 InvalidArgument bs) (\<lambda>(mtc, bs).
      read_many (unat mtc) (read_item MAX_MERGE_TARGET_LEN sm_from_canonical_bytes) bs)"

definition read_join :: "prover_join reader" where
  "read_join bs =
    rbind (read_type TYPE_PROVER_JOIN bs) (\<lambda>(_, bs).
    rbind (read_list MAX_PROVER_FILTERS_COUNT (read_capped MAX_PROVER_FILTER_LEN) bs) (\<lambda>(filters, bs).
    rbind (read_u64 InvalidArgument bs) (\<lambda>(frame_number, bs).
    rbind (read_opt MAX_SIG_LEN sp_from_canonical_bytes bs) (\<lambda>(sig, bs).
    rbind (read_capped MAX_DELEGATE_ADDR_LEN bs) (\<lambda>(delegate_address, bs).
    rbind (read_merge_targets bs) (\<lambda>(merge_targets, bs).
    rbind (read_capped MAX_PROOF_LEN bs) (\<lambda>(proof, bs).
      Inr (\<lparr>pj_filters = filters, pj_frame_number = frame_number, pj_signature = sig,
        pj_delegate_address = delegate_address, pj_merge_targets = merge_targets, pj_proof = proof\<rparr>, bs))))))))"

definition join_from_canonical_bytes :: "bytes \<Rightarrow> prover_join result" where
  "join_from_canonical_bytes = whole read_join"

definition target_ok :: "seniority_merge \<Rightarrow> bool" where
  "target_ok t \<longleftrightarrow> sm_ok t \<and> length (sm_to_canonical_bytes t) \<le> MAX_MERGE_TARGET_LEN"

definition join_ok :: "prover_join \<Rightarrow> bool" where
  "join_ok m \<longleftrightarrow> filters_ok (pj_filters m) \<and> pred_option sp_ok (pj_signature m) \<and>
    length (pj_delegate_address m) \<le> MAX_DELEGATE_ADDR_LEN \<and>
    length (pj_merge_targets m) < 2 ^ 32 \<and> list_all target_ok (pj_merge_targets m) \<and>
    length (pj_proof m) \<le> MAX_PROOF_LEN"

lemma length_sp_ok: "sp_ok s \<Longrightarrow> length (sp_to_canonical_bytes s) \<le> MAX_SIG_LEN"
  by (cases "sp_public_key s") (auto simp: length_sp sp_ok_def SIG_LEN_def MAX_SIG_LEN_def put_opt_def)

interpretation opop: checked_codec "put_opt sp_to_canonical_bytes" "read_opt MAX_SIG_LEN sp_from_canonical_bytes" "pred_option sp_ok"
proof unfold_locales
  have len: "sp_ok s \<Longrightarrow> length (sp_to_canonical_bytes s) \<le> MAX_SIG_LEN \<and> length (sp_to_canonical_bytes s) < 2 ^ 32" for s
    using length_sp_ok [of s] by (simp add: MAX_SIG_LEN_def)
  show "read_opt MAX_SIG_LEN sp_from_canonical_bytes (put_opt sp_to_canonical_bytes x @ bs) = Inr (x, bs)"
    if "pred_option sp_ok x" for x bs
    using that len spop.opt.dec_enc_append [of MAX_SIG_LEN x bs]
    by (cases x) (simp_all add: sp_from_canonical_bytes_def)
  show "pred_option sp_ok x" if "read_opt MAX_SIG_LEN sp_from_canonical_bytes bs = Inr (x, bs')" for bs x bs'
    using that spop.opt.dec_ok [of MAX_SIG_LEN bs x bs'] by (cases x) (simp_all add: sp_from_canonical_bytes_def)
qed

interpretation tgts: checked_codec "put_list (\<lambda>t. put_lp (sm_to_canonical_bytes t))" read_merge_targets
    "\<lambda>ts. length ts < 2 ^ 32 \<and> list_all target_ok ts"
proof unfold_locales
  show "read_merge_targets (put_list (\<lambda>t. put_lp (sm_to_canonical_bytes t)) ts @ bs) = Inr (ts, bs)"
    if "length ts < 2 ^ 32 \<and> list_all target_ok ts" for ts bs
  proof -
    have "list_all (\<lambda>t. sm_ok t \<and> length (sm_to_canonical_bytes t) \<le> MAX_MERGE_TARGET_LEN \<and>
        length (sm_to_canonical_bytes t) < 2 ^ 32) ts"
      using that by (auto simp: list_all_iff target_ok_def dest!: sm_ok_length bspec)
    from smrg.itm.many_append [OF this] that show ?thesis
      by (simp add: read_merge_targets_def put_list_def sm_from_canonical_bytes_def)
  qed
  show "length ts < 2 ^ 32 \<and> list_all target_ok ts" if "read_merge_targets bs = Inr (ts, bs')" for bs ts bs'
    using that
    by (auto simp: read_merge_targets_def result_iff sm_from_canonical_bytes_def list_all_iff target_ok_def
        dest!: smrg.itm.many_ok)
qed

interpretation join: checked_codec join_to_canonical_bytes read_join join_ok
  by unfold_locales
    (auto simp: join_to_canonical_bytes_def read_join_def join_ok_def result_iff
      filters.dec_enc_append [unfolded write_filters_def read_filters_def] opop.dec_enc_append tgts.dec_enc_append
      MAX_DELEGATE_ADDR_LEN_def MAX_PROOF_LEN_def
      dest: filters.dec_ok [unfolded read_filters_def] opop.dec_ok tgts.dec_ok read_capped_length)

section \<open>What survives the wire\<close>

lemmas from_defs = leave_from_canonical_bytes_def pause_from_canonical_bytes_def resume_from_canonical_bytes_def
  reject_from_canonical_bytes_def kick_from_canonical_bytes_def update_from_canonical_bytes_def
  ps_from_canonical_bytes_def split_from_canonical_bytes_def merge_from_canonical_bytes_def join_from_canonical_bytes_def

text \<open>
  C18. A leave, pause, resume, kick, update, seniority merge, shard split, shard merge or join message
  decodes from its own encoding exactly when every field is within the limits of its decoder, such
  as at most 100 filters of at most 64 bytes and a signature of 666 or 1,182 bytes with a 32-byte
  address, if there is one. For a join this includes that every merge target encodes to at most 675
  bytes, which is less than a seniority merge may have on its own.
\<close>

theorem prover_messages_roundtrip:
  "(leave_from_canonical_bytes (leave_to_canonical_bytes l) = Inr l \<longleftrightarrow> leave_ok l) \<and>
   (pause_from_canonical_bytes (pause_to_canonical_bytes p) = Inr p \<longleftrightarrow> pause_ok p) \<and>
   (resume_from_canonical_bytes (resume_to_canonical_bytes r) = Inr r \<longleftrightarrow> resume_ok r) \<and>
   (kick_from_canonical_bytes (kick_to_canonical_bytes k) = Inr k \<longleftrightarrow> kick_ok k) \<and>
   (update_from_canonical_bytes (update_to_canonical_bytes u) = Inr u \<longleftrightarrow> update_ok u) \<and>
   (ps_from_canonical_bytes (ps_to_canonical_bytes s) = Inr s \<longleftrightarrow> ps_ok s) \<and>
   (split_from_canonical_bytes (split_to_canonical_bytes t) = Inr t \<longleftrightarrow> split_ok t) \<and>
   (merge_from_canonical_bytes (merge_to_canonical_bytes g) = Inr g \<longleftrightarrow> merge_ok g) \<and>
   (join_from_canonical_bytes (join_to_canonical_bytes j) = Inr j \<longleftrightarrow> join_ok j)"
  by (simp add: from_defs leave.whole_enc_iff pause.whole_enc_iff resume.whole_enc_iff kick.whole_enc_iff
      update.whole_enc_iff psm.whole_enc_iff split.whole_enc_iff merge.whole_enc_iff join.whole_enc_iff)

lemma join_example_ok:
  "join_ok \<lparr>pj_filters = [[7, 8]], pj_frame_number = 9, pj_signature = None, pj_delegate_address = [],
    pj_merge_targets = [\<lparr>sm_signature = [1], sm_key_type = 2, sm_prover_public_key = [3]\<rparr>], pj_proof = [4, 5]\<rparr>"
  by (simp add: join_ok_def filters_ok_def shards_ok_def target_ok_def sm_ok_def length_sm join_limits
      MAX_PROVER_FILTERS_COUNT_def MAX_PROVER_FILTER_LEN_def MAX_SENIORITY_SIG_LEN_def MAX_SENIORITY_KEY_LEN_def)

text \<open>
  C19. Whatever bytes the join decoder accepts, the message it returns is within the limits, and
  writing it and reading it again gives the same message; bytes after the message are ignored.
\<close>

theorem join_decoded_ok:
  assumes "join_from_canonical_bytes bs = Inr m"
  shows "join_ok m \<and> join_from_canonical_bytes (join_to_canonical_bytes m @ rest) = Inr m"
  using assms join.whole_ok join.whole_enc_append by (auto simp: from_defs)

theorem join_decoded_ok_witness:
  "let m = \<lparr>pj_filters = [[7, 8]], pj_frame_number = 9, pj_signature = None, pj_delegate_address = [],
      pj_merge_targets = [\<lparr>sm_signature = [1], sm_key_type = 2, sm_prover_public_key = [3]\<rparr>], pj_proof = [4, 5]\<rparr>
   in join_from_canonical_bytes (join_to_canonical_bytes m) = Inr m \<and>
     join_ok m \<and> join_from_canonical_bytes (join_to_canonical_bytes m @ [1, 2, 3]) = Inr m"
proof -
  define m where "m = \<lparr>pj_filters = [[7, 8]], pj_frame_number = 9, pj_signature = None, pj_delegate_address = [],
      pj_merge_targets = [\<lparr>sm_signature = [1], sm_key_type = 2, sm_prover_public_key = [3]\<rparr>], pj_proof = [4, 5]\<rparr>"
  have "join_from_canonical_bytes (join_to_canonical_bytes m) = Inr m"
    using join_example_ok by (simp add: m_def from_defs join.whole_enc)
  from this join_decoded_ok [OF this, of "[1, 2, 3]"] show ?thesis by (simp add: Let_def m_def [symmetric])
qed

end
