(* ===== verification/ConfirmMessages.thy ===== *)
theory ConfirmMessages
  imports ProverMessages "HOL-Library.List_Lexorder"
begin

text \<open>
  Confirmations of the global intrinsic: \<^verbatim>\<open>leaf_root_registration.rs\<close> (the storage leaf roots a
  prover registers, their identifiers, and the shards a confirmation may pre-register),
  \<^verbatim>\<open>prover_release.rs\<close> (the release a confirmation carries and the eligibility schedule) and the
  confirm message of \<^verbatim>\<open>prover_ops.rs\<close>. The frame from which confirmations carry a release and
  the schedule are settings of the process, and arguments here.
\<close>

section \<open>Leaf roots\<close>

definition TYPE_LEAF_ROOT_REGISTRATION :: u32 where "TYPE_LEAF_ROOT_REGISTRATION = 0x0320"
definition MAX_SHARD_FILTER_LEN :: nat where "MAX_SHARD_FILTER_LEN = 64"
definition MAX_PREFIX_LEN :: nat where "MAX_PREFIX_LEN = 256"
definition MAX_LEAF_ROOT_LEN :: nat where "MAX_LEAF_ROOT_LEN = 128"

lemmas leaf_limits = MAX_SHARD_FILTER_LEN_def MAX_PREFIX_LEN_def MAX_LEAF_ROOT_LEN_def

record leaf_root_entry =
  le_prefix :: "u32 list"
  le_leaf_root :: bytes
  le_num_blocks :: u64

record confirm_leaf_roots =
  cl_filter :: bytes
  cl_entries :: "leaf_root_entry list"

definition put_entry :: "leaf_root_entry \<Rightarrow> bytes" where
  "put_entry e = put_list u32_to_be_bytes (le_prefix e) @ put_lp (le_leaf_root e) @ u64_to_be_bytes (le_num_blocks e)"

definition read_entry :: "leaf_root_entry reader" where
  "read_entry bs =
    rbind (read_list MAX_PREFIX_LEN (read_u32 InvalidArgument) bs) (\<lambda>(prefix, bs).
    rbind (read_capped MAX_LEAF_ROOT_LEN bs) (\<lambda>(leaf_root, bs).
    rbind (read_u64 InvalidArgument bs) (\<lambda>(num_blocks, bs).
      Inr (\<lparr>le_prefix = prefix, le_leaf_root = leaf_root, le_num_blocks = num_blocks\<rparr>, bs))))"

definition put_group :: "confirm_leaf_roots \<Rightarrow> bytes" where
  "put_group g = put_lp (cl_filter g) @ put_list put_entry (cl_entries g)"

definition read_group :: "confirm_leaf_roots reader" where
  "read_group bs =
    rbind (read_capped MAX_SHARD_FILTER_LEN bs) (\<lambda>(filter, bs).
    rbind (read_list MAX_PREFIX_LEN read_entry bs) (\<lambda>(entries, bs).
      Inr (\<lparr>cl_filter = filter, cl_entries = entries\<rparr>, bs)))"

text \<open>An empty set is not written at all, and nothing left to read is an empty set.\<close>

definition append_confirm_leaf_roots :: "confirm_leaf_roots list \<Rightarrow> bytes" where
  "append_confirm_leaf_roots groups = (if groups = [] then [] else put_list put_group groups)"

definition read_confirm_leaf_roots :: "confirm_leaf_roots list reader" where
  "read_confirm_leaf_roots bs = (if bs = [] then Inr ([], []) else read_list MAX_PREFIX_LEN read_group bs)"

definition entry_ok :: "leaf_root_entry \<Rightarrow> bool" where
  "entry_ok e \<longleftrightarrow> length (le_prefix e) \<le> MAX_PREFIX_LEN \<and> length (le_leaf_root e) \<le> MAX_LEAF_ROOT_LEN"

definition group_ok :: "confirm_leaf_roots \<Rightarrow> bool" where
  "group_ok g \<longleftrightarrow> length (cl_filter g) \<le> MAX_SHARD_FILTER_LEN \<and>
    length (cl_entries g) \<le> MAX_PREFIX_LEN \<and> list_all entry_ok (cl_entries g)"

definition groups_ok :: "confirm_leaf_roots list \<Rightarrow> bool" where
  "groups_ok gs \<longleftrightarrow> length gs \<le> MAX_PREFIX_LEN \<and> list_all group_ok gs"

interpretation entry: checked_codec put_entry read_entry entry_ok
  by unfold_locales
    (auto simp: put_entry_def read_entry_def entry_ok_def u32k.list_append leaf_limits result_iff list_all_iff
      dest!: u32k.list_ok read_capped_length)

interpretation group: checked_codec put_group read_group group_ok
  by unfold_locales
    (auto simp: put_group_def read_group_def group_ok_def entry.list_append leaf_limits result_iff
      dest!: entry.list_ok read_capped_length)

lemma put_list_nonempty [simp]: "put_list enc xs \<noteq> []"
proof
  assume "put_list enc xs = []"
  then have "length (put_list enc xs) = 0" by simp
  then show False by (simp add: put_list_def)
qed

lemma empty_leaf_roots [simp]:
  "read_confirm_leaf_roots [] = Inr ([], [])" "append_confirm_leaf_roots [] = []"
  by (simp_all add: read_confirm_leaf_roots_def append_confirm_leaf_roots_def)

lemma confirm_leaf_roots_append:
  "groups_ok gs \<Longrightarrow> gs \<noteq> [] \<Longrightarrow> read_confirm_leaf_roots (append_confirm_leaf_roots gs @ bs) = Inr (gs, bs)"
  by (auto simp: read_confirm_leaf_roots_def append_confirm_leaf_roots_def groups_ok_def group.list_append leaf_limits)

lemma no_leaf_roots: "read_confirm_leaf_roots (u32_to_be_bytes 0 @ bs) = Inr ([], bs)"
  using group.list_append [of "[]" MAX_PREFIX_LEN bs]
  by (simp add: read_confirm_leaf_roots_def put_list_def)

lemma read_confirm_leaf_roots_ok: "read_confirm_leaf_roots bs = Inr (gs, bs') \<Longrightarrow> groups_ok gs"
  by (auto simp: read_confirm_leaf_roots_def groups_ok_def split: if_splits dest: group.list_ok)

section \<open>Leaf root registrations\<close>

record leaf_root_registration =
  lr_shard_filter :: bytes
  lr_prefix :: "u32 list"
  lr_epoch :: u64
  lr_leaf_root :: bytes
  lr_num_blocks :: u64
  lr_frame_number :: u64
  lr_signature :: "signature_with_pop option"

definition lr_to_canonical_bytes :: "leaf_root_registration \<Rightarrow> bytes" where
  "lr_to_canonical_bytes m =
    u32_to_be_bytes TYPE_LEAF_ROOT_REGISTRATION @ put_lp (lr_shard_filter m) @
    put_list u32_to_be_bytes (lr_prefix m) @ u64_to_be_bytes (lr_epoch m) @ put_lp (lr_leaf_root m) @
    u64_to_be_bytes (lr_num_blocks m) @ u64_to_be_bytes (lr_frame_number m) @
    put_opt sp_to_canonical_bytes (lr_signature m)"

definition read_lr :: "leaf_root_registration reader" where
  "read_lr bs =
    rbind (read_type TYPE_LEAF_ROOT_REGISTRATION bs) (\<lambda>(_, bs).
    rbind (read_capped MAX_SHARD_FILTER_LEN bs) (\<lambda>(shard_filter, bs).
    rbind (read_list MAX_PREFIX_LEN (read_u32 InvalidArgument) bs) (\<lambda>(prefix, bs).
    rbind (read_u64 InvalidArgument bs) (\<lambda>(epoch, bs).
    rbind (read_capped MAX_LEAF_ROOT_LEN bs) (\<lambda>(leaf_root, bs).
    rbind (read_u64 InvalidArgument bs) (\<lambda>(num_blocks, bs).
    rbind (read_u64 InvalidArgument bs) (\<lambda>(frame_number, bs).
    rbind (read_opt MAX_SIG_LEN sp_from_canonical_bytes bs) (\<lambda>(sig, bs).
      Inr (\<lparr>lr_shard_filter = shard_filter, lr_prefix = prefix, lr_epoch = epoch, lr_leaf_root = leaf_root,
        lr_num_blocks = num_blocks, lr_frame_number = frame_number, lr_signature = sig\<rparr>, bs)))))))))"

definition lr_from_canonical_bytes :: "bytes \<Rightarrow> leaf_root_registration result" where
  "lr_from_canonical_bytes = whole read_lr"

definition lr_ok :: "leaf_root_registration \<Rightarrow> bool" where
  "lr_ok m \<longleftrightarrow> length (lr_shard_filter m) \<le> MAX_SHARD_FILTER_LEN \<and> length (lr_prefix m) \<le> MAX_PREFIX_LEN \<and>
    length (lr_leaf_root m) \<le> MAX_LEAF_ROOT_LEN \<and> pred_option sp_ok (lr_signature m)"

interpretation lreg: checked_codec lr_to_canonical_bytes read_lr lr_ok
  by unfold_locales
    (auto simp: lr_to_canonical_bytes_def read_lr_def lr_ok_def u32k.list_append opop.dec_enc_append leaf_limits
      result_iff list_all_iff dest!: u32k.list_ok opop.dec_ok read_capped_length)

section \<open>Leaf identifiers\<close>

definition leaf_id_bytes :: "bytes \<Rightarrow> u32 list \<Rightarrow> bytes" where
  "leaf_id_bytes shard_filter nibbles = shard_filter @ 0xFF # concat (map u32_to_be_bytes nibbles)"

definition leaf_id :: "leaf_root_registration \<Rightarrow> bytes" where
  "leaf_id m = leaf_id_bytes (lr_shard_filter m) (lr_prefix m)"

lemma split_last_eq:
  "xs @ a # ys = xs' @ a # ys' \<Longrightarrow> a \<notin> set ys \<Longrightarrow> a \<notin> set ys' \<Longrightarrow> xs = xs' \<and> ys = ys'"
  by (induction xs arbitrary: xs') (auto simp: Cons_eq_append_conv append_eq_Cons_conv)

lemma nibble_bytes: "n < 64 \<Longrightarrow> be_bytes 4 n = [0, 0, 0, word_of_nat n]"
proof -
  have "(4 :: nat) = Suc (Suc (Suc (Suc 0)))" by simp
  then show "n < 64 \<Longrightarrow> be_bytes 4 n = [0, 0, 0, word_of_nat n]" by (simp only: be_bytes.simps) simp
qed

lemma nibble_neq_separator: "n < 64 \<Longrightarrow> (0xFF :: byte) \<noteq> word_of_nat n"
proof
  assume "n < 64" and "(0xFF :: byte) = word_of_nat n"
  then have "unat (0xFF :: byte) = unat (word_of_nat n :: byte)" by (simp only:)
  with \<open>n < 64\<close> show False by (simp add: unat_of_nat)
qed

lemma nibble_no_separator: "unat w < 64 \<Longrightarrow> 0xFF \<notin> set (u32_to_be_bytes w)"
  using nibble_neq_separator [of "unat w"] unfolding u32_to_be_bytes_def
  by (simp only: nibble_bytes set_simps) simp

lemma length_concat_u32: "length (concat (map u32_to_be_bytes ws)) = 4 * length ws"
  by (induction ws) simp_all

lemma concat_u32_inj:
  assumes eq: "concat (map u32_to_be_bytes ws) = concat (map u32_to_be_bytes ws')"
  shows "ws = ws'"
proof -
  have len: "length ws = length ws'" using arg_cong [OF eq, of length] by (simp add: length_concat_u32)
  show ?thesis
    using u32c.many_append [of ws InvalidArgument "[]"] u32c.many_append [of ws' InvalidArgument "[]"] by (simp add: eq len list_all_iff)
qed

lemma leaf_id_inj:
  assumes "list_all (\<lambda>p. unat p < 64) ps" and "list_all (\<lambda>p. unat p < 64) ps'"
    and "leaf_id_bytes f ps = leaf_id_bytes f' ps'"
  shows "f = f' \<and> ps = ps'"
proof -
  have sep: "0xFF \<notin> set (concat (map u32_to_be_bytes ws))" if "list_all (\<lambda>p. unat p < 64) ws" for ws
    using that by (auto simp: list_all_iff dest: nibble_no_separator)
  from split_last_eq [OF assms(3) [unfolded leaf_id_bytes_def] sep [OF assms(1)] sep [OF assms(2)]]
  show ?thesis using concat_u32_inj by blast
qed

section \<open>Shards to register before a change applies\<close>

datatype shard_change_kind = Split | Merge

record pending_shard_change =
  sc_kind :: shard_change_kind
  sc_parent :: bytes
  sc_children :: "bytes list"
  sc_effective_epoch :: u64
  sc_proposed_frame :: u64

definition affects_shard :: "pending_shard_change \<Rightarrow> bytes \<Rightarrow> bool" where
  "affects_shard c shard \<longleftrightarrow> sc_parent c = shard \<or> list_ex (\<lambda>s. s = shard) (sc_children c)"

definition change_targets :: "bytes list \<Rightarrow> pending_shard_change \<Rightarrow> bytes list" where
  "change_targets confirmed c =
    (case sc_kind c of
      Split \<Rightarrow> if List.member confirmed (sc_parent c) then sc_children c else []
    | Merge \<Rightarrow> if list_ex (List.member confirmed) (sc_children c) then [sc_parent c] else [])"

definition pre_registration_targets :: "pending_shard_change list \<Rightarrow> bytes list \<Rightarrow> u64 \<Rightarrow> bytes list" where
  "pre_registration_targets changes confirmed epoch =
    remdups_adj (sort
      (filter (\<lambda>t. t \<noteq> [] \<and> \<not> List.member confirmed t)
        (concat (map (change_targets confirmed) (filter (\<lambda>c. sc_effective_epoch c = epoch) changes)))))"

text \<open>What the targets should be: the shards a change of that epoch creates from a confirmed one.\<close>

definition creates_from :: "bytes set \<Rightarrow> pending_shard_change \<Rightarrow> bytes set" where
  "creates_from confirmed c =
    (if sc_kind c = Split then (if sc_parent c \<in> confirmed then set (sc_children c) else {})
     else (if set (sc_children c) \<inter> confirmed \<noteq> {} then {sc_parent c} else {}))"

lemma set_change_targets: "set (change_targets confirmed c) = creates_from (set confirmed) c"
  by (auto simp: change_targets_def creates_from_def list_ex_iff split: shard_change_kind.split)

lemma set_targets:
  "set (pre_registration_targets changes confirmed epoch) =
    (\<Union>c\<in>{c\<in>set changes. sc_effective_epoch c = epoch}. creates_from (set confirmed) c) - set confirmed - {[]}"
  by (auto simp: pre_registration_targets_def set_change_targets [symmetric])

lemma distinct_remdups_adj: "sorted xs \<Longrightarrow> distinct (remdups_adj xs)"
  by (induction xs rule: remdups_adj.induct) (auto simp: order_le_less)

lemma sorted_distinct_targets:
  "sorted (pre_registration_targets changes confirmed epoch) \<and> distinct (pre_registration_targets changes confirmed epoch)"
  by (simp add: pre_registration_targets_def sorted_remdups_adj distinct_remdups_adj)

section \<open>Releases\<close>

text \<open>A release is \<open>version.patch.subpatch\<close> with a version of three bytes, in the order of its fields.\<close>

datatype release = Release (version: "byte \<times> byte \<times> byte") (patch: byte) (subpatch: "16 word")

definition release_key :: "release \<Rightarrow> nat list" where
  "release_key r =
    (case r of Release (a, b, c) p s \<Rightarrow> [unat a, unat b, unat c, unat p, unat s])"

lemma release_key_inj: "release_key r = release_key s \<Longrightarrow> r = s"
  by (cases r; cases s) (auto simp: release_key_def split: prod.splits dest!: unsigned_word_eqI)

instantiation release :: linorder
begin

definition less_eq_release :: "release \<Rightarrow> release \<Rightarrow> bool" where
  "less_eq_release r s \<longleftrightarrow> release_key r \<le> release_key s"

definition less_release :: "release \<Rightarrow> release \<Rightarrow> bool" where
  "less_release r s \<longleftrightarrow> release_key r < release_key s"

instance
  by standard (auto simp: less_eq_release_def less_release_def dest: release_key_inj)

end

definition ENCODED_LEN :: nat where "ENCODED_LEN = 6"

definition release_to_bytes :: "release \<Rightarrow> bytes" where
  "release_to_bytes r =
    (case r of Release (a, b, c) p s \<Rightarrow> [a, b, c, p] @ be_bytes 2 (unat s))"

definition release_from_bytes :: "bytes \<Rightarrow> release option" where
  "release_from_bytes bs =
    (case bs of
      [a, b, c, p, s0, s1] \<Rightarrow> Some (Release (a, b, c) p (word_of_nat (be_nat [s0, s1])))
    | _ \<Rightarrow> None)"

record release_minimum =
  rm_from_frame :: u64
  rm_minimum :: release

text \<open>The first pair of neighbours that is not in ascending order, if there is one, is the error.\<close>

fun validate_schedule :: "release_minimum list \<Rightarrow> (u64 \<times> u64) + unit" where
  "validate_schedule (s # t # ss) =
    (if rm_from_frame t \<le> rm_from_frame s then Inl (rm_from_frame s, rm_from_frame t)
     else validate_schedule (t # ss))"
| "validate_schedule _ = Inr ()"

definition minimum_release_at :: "release_minimum list \<Rightarrow> u64 \<Rightarrow> release option" where
  "minimum_release_at schedule frame =
    (case rev (takeWhile (\<lambda>s. rm_from_frame s \<le> frame) schedule) of
      [] \<Rightarrow> None
    | s # _ \<Rightarrow> Some (rm_minimum s))"

definition seat_eligible :: "release_minimum list \<Rightarrow> release option \<Rightarrow> u64 \<Rightarrow> bool" where
  "seat_eligible schedule recorded frame =
    (case minimum_release_at schedule frame of
      None \<Rightarrow> True
    | Some minimum \<Rightarrow> (case recorded of None \<Rightarrow> False | Some r \<Rightarrow> minimum \<le> r))"

definition release_for_confirm :: "u64 \<Rightarrow> release \<Rightarrow> u64 \<Rightarrow> release option" where
  "release_for_confirm release_frame current frame_number =
    (if release_frame \<le> frame_number then Some current else None)"

definition signed_release :: "u64 \<Rightarrow> u64 \<Rightarrow> release option \<Rightarrow> release option" where
  "signed_release release_frame frame_number release =
    (if release_frame \<le> frame_number then release else None)"

lemma length_release_to_bytes [simp]: "length (release_to_bytes r) = ENCODED_LEN"
  by (simp add: release_to_bytes_def ENCODED_LEN_def split: release.split prod.split)

lemma be_bytes_2: "\<exists>s0 s1. be_bytes 2 n = [s0, s1]"
  by (simp add: numeral_2_eq_2)

lemma release_from_to_bytes [simp]: "release_from_bytes (release_to_bytes r) = Some r"
proof -
  obtain a b c p s where r: "r = Release (a, b, c) p s" by (metis prod_cases3 release.exhaust)
  obtain s0 s1 where s: "be_bytes 2 (unat s) = [s0, s1]" using be_bytes_2 by blast
  have "be_nat [s0, s1] = unat s mod 256 ^ 2" using be_nat_be_bytes [of 2 "unat s"] s by simp
  moreover have "unat s < 256 ^ 2" using unsigned_less [of s, where ?'a = nat] by simp
  ultimately have "word_of_nat (be_nat [s0, s1]) = s" by simp
  with r s show ?thesis by (simp add: release_to_bytes_def release_from_bytes_def)
qed

section \<open>Confirm\<close>

definition TYPE_PROVER_CONFIRM :: u32 where "TYPE_PROVER_CONFIRM = 0x0305"

record prover_confirm =
  pc_filter :: bytes
  pc_frame_number :: u64
  pc_signature :: "addressed_signature option"
  pc_filters :: "bytes list"
  pc_leaf_roots :: "confirm_leaf_roots list"
  pc_release :: "release option"

definition confirm_to_canonical_bytes :: "prover_confirm \<Rightarrow> bytes" where
  "confirm_to_canonical_bytes m =
    u32_to_be_bytes TYPE_PROVER_CONFIRM @ u32_to_be_bytes 32 @ RESERVED @ u64_to_be_bytes (pc_frame_number m) @
    write_opt_addr_sig (pc_signature m) @ write_filters (pc_filters m) @
    append_confirm_leaf_roots (pc_leaf_roots m) @
    (case pc_release m of
      None \<Rightarrow> []
    | Some r \<Rightarrow> (if pc_leaf_roots m = [] then u32_to_be_bytes 0 else []) @ release_to_bytes r)"

text \<open>A tail that is too short carries no release, and before the release frame none does.\<close>

definition tail_release :: "u64 \<Rightarrow> u64 \<Rightarrow> bytes \<Rightarrow> release option" where
  "tail_release release_frame frame_number tail =
    (if release_frame \<le> frame_number \<and> ENCODED_LEN \<le> length tail
     then release_from_bytes (take ENCODED_LEN tail) else None)"

definition confirm_from_canonical_bytes :: "u64 \<Rightarrow> bytes \<Rightarrow> prover_confirm result" where
  "confirm_from_canonical_bytes release_frame bs =
    rbind (read_type TYPE_PROVER_CONFIRM bs) (\<lambda>(_, bs).
    rbind (read_capped 64 bs) (\<lambda>(filter, bs).
    rbind (read_u64 InvalidArgument bs) (\<lambda>(frame_number, bs).
    rbind (read_opt_addr_sig bs) (\<lambda>(sig, bs).
    rbind (read_filters bs) (\<lambda>(filters, bs).
    rbind (read_confirm_leaf_roots bs) (\<lambda>(leaf_roots, bs).
      Inr \<lparr>pc_filter = filter, pc_frame_number = frame_number, pc_signature = sig, pc_filters = filters,
        pc_leaf_roots = leaf_roots, pc_release = tail_release release_frame frame_number bs\<rparr>))))))"

definition confirmed_release :: "u64 \<Rightarrow> prover_confirm \<Rightarrow> release option" where
  "confirmed_release release_frame m = signed_release release_frame (pc_frame_number m) (pc_release m)"

definition confirm_ok :: "prover_confirm \<Rightarrow> bool" where
  "confirm_ok m \<longleftrightarrow> pred_option as_ok (pc_signature m) \<and> filters_ok (pc_filters m) \<and> groups_ok (pc_leaf_roots m)"

lemma tail_release_append: "tail_release rf n (release_to_bytes r) = (if rf \<le> n then Some r else None)"
  by (simp add: tail_release_def)

lemma confirm_from_to:
  assumes "confirm_ok m"
  shows "confirm_from_canonical_bytes rf (confirm_to_canonical_bytes m) =
    Inr (m\<lparr>pc_filter := RESERVED, pc_release := confirmed_release rf m\<rparr>)"
proof -
  define tail where "tail = append_confirm_leaf_roots (pc_leaf_roots m) @
    (case pc_release m of None \<Rightarrow> [] | Some r \<Rightarrow> (if pc_leaf_roots m = [] then u32_to_be_bytes 0 else []) @ release_to_bytes r)"
  have "rbind (read_confirm_leaf_roots tail) (\<lambda>(gs, bs). Inr (gs, tail_release rf (pc_frame_number m) bs)) =
    Inr (pc_leaf_roots m, confirmed_release rf m)"
  proof (cases "pc_leaf_roots m = [] \<and> pc_release m \<noteq> None")
    case True
    then show ?thesis
      by (auto simp: tail_def append_confirm_leaf_roots_def no_leaf_roots tail_release_append confirmed_release_def signed_release_def)
  next
    case False
    with assms confirm_leaf_roots_append [of "pc_leaf_roots m" "[]"] show ?thesis
      by (cases "pc_leaf_roots m = []")
        (auto simp: tail_def confirm_ok_def confirm_leaf_roots_append tail_release_append confirmed_release_def
          signed_release_def tail_release_def ENCODED_LEN_def split: option.split)
  qed
  then obtain bs where tail: "read_confirm_leaf_roots tail = Inr (pc_leaf_roots m, bs)"
    and rel: "tail_release rf (pc_frame_number m) bs = confirmed_release rf m"
    by (auto simp: result_iff)
  have "confirm_to_canonical_bytes m =
    u32_to_be_bytes TYPE_PROVER_CONFIRM @ put_lp RESERVED @ u64_to_be_bytes (pc_frame_number m) @
    write_opt_addr_sig (pc_signature m) @ write_filters (pc_filters m) @ tail"
    by (simp add: confirm_to_canonical_bytes_def tail_def reserved_lp)
  with assms tail rel show ?thesis
    by (cases m) (simp add: confirm_from_canonical_bytes_def confirm_ok_def field_append)
qed

lemma confirm_decoded:
  "confirm_from_canonical_bytes rf bs = Inr m \<Longrightarrow>
    confirm_ok m \<and> length (pc_filter m) \<le> 64 \<and> confirmed_release rf m = pc_release m"
  by (auto simp: confirm_from_canonical_bytes_def confirm_ok_def confirmed_release_def signed_release_def
      tail_release_def result_iff dest: field_ok read_confirm_leaf_roots_ok)

section \<open>Properties\<close>

text \<open>
  A confirmation within the limits of the decoder decodes from its own encoding to itself,
  except that the unused filter becomes the reserved 32 bytes and a release is kept only from the
  release frame on. Whatever the decoder accepts is within the limits, so decoding, encoding and
  decoding again changes nothing but that filter.
\<close>

theorem confirm_roundtrip:
  "(confirm_ok m \<longrightarrow> confirm_from_canonical_bytes rf (confirm_to_canonical_bytes m) =
      Inr (m\<lparr>pc_filter := RESERVED, pc_release := confirmed_release rf m\<rparr>)) \<and>
   (confirm_from_canonical_bytes rf bs = Inr n \<longrightarrow>
      confirm_ok n \<and> confirm_from_canonical_bytes rf (confirm_to_canonical_bytes n) = Inr (n\<lparr>pc_filter := RESERVED\<rparr>))"
proof -
  have "n\<lparr>pc_filter := RESERVED, pc_release := pc_release n\<rparr> = n\<lparr>pc_filter := RESERVED\<rparr>" by simp
  then show ?thesis using confirm_from_to confirm_decoded by metis
qed

definition example_confirm :: prover_confirm where
  "example_confirm = \<lparr>pc_filter = [1], pc_frame_number = 7, pc_signature = None, pc_filters = [[2, 3]],
    pc_leaf_roots = [\<lparr>cl_filter = [2, 3], cl_entries = [\<lparr>le_prefix = [5, 63], le_leaf_root = [9], le_num_blocks = 4\<rparr>]\<rparr>],
    pc_release = Some (Release (2, 1, 0) 22 3)\<rparr>"

lemma example_confirm_ok: "confirm_ok example_confirm"
  by (simp add: confirm_ok_def example_confirm_def filters_ok_def shards_ok_def groups_ok_def group_ok_def entry_ok_def
      leaf_limits MAX_PROVER_FILTERS_COUNT_def MAX_PROVER_FILTER_LEN_def)

theorem confirm_roundtrip_witness:
  "confirm_ok example_confirm \<and>
   confirm_from_canonical_bytes 7 (confirm_to_canonical_bytes example_confirm) = Inr (example_confirm\<lparr>pc_filter := RESERVED\<rparr>) \<and>
   confirm_from_canonical_bytes 8 (confirm_to_canonical_bytes example_confirm) =
     Inr (example_confirm\<lparr>pc_filter := RESERVED, pc_release := None\<rparr>)"
  using example_confirm_ok confirm_roundtrip [of example_confirm 7] confirm_roundtrip [of example_confirm 8]
  by (simp add: confirmed_release_def signed_release_def example_confirm_def)

lemma leaf_id_collision: "leaf_id_bytes f [255] = leaf_id_bytes (f @ [0xFF, 0, 0, 0]) []"
proof -
  have "be_bytes 4 255 = [0, 0, 0, 0xFF]" by code_simp
  then show ?thesis by (simp add: leaf_id_bytes_def u32_to_be_bytes_def)
qed

text \<open>
  C21. A leaf root registration decodes from its own encoding exactly when it is within the
  limits, and as long as path entries are 6-bit nibbles the identifier of a leaf determines the
  shard filter and the path. Nothing limits a path entry to six bits, and then identifiers
  collide: the path of one entry 255 below a filter has the identifier of the empty path below
  that filter extended by a separator and three zero bytes.
\<close>

theorem registration_wire_and_id:
  "(lr_from_canonical_bytes (lr_to_canonical_bytes m) = Inr m \<longleftrightarrow> lr_ok m) \<and>
   (list_all (\<lambda>p. unat p < 64) (lr_prefix m) \<longrightarrow> list_all (\<lambda>p. unat p < 64) (lr_prefix n) \<longrightarrow>
     leaf_id m = leaf_id n \<longrightarrow> lr_shard_filter m = lr_shard_filter n \<and> lr_prefix m = lr_prefix n) \<and>
   leaf_id_bytes f [255] = leaf_id_bytes (f @ [0xFF, 0, 0, 0]) []"
  using leaf_id_inj [of "lr_prefix m" "lr_prefix n"] leaf_id_collision
  by (simp add: lr_from_canonical_bytes_def lreg.whole_enc_iff leaf_id_def)

theorem registration_wire_and_id_witness:
  "let m = \<lparr>lr_shard_filter = [0xFF, 0, 0, 0], lr_prefix = [1, 63], lr_epoch = 2, lr_leaf_root = [3],
       lr_num_blocks = 4, lr_frame_number = 5, lr_signature = None\<rparr>;
       n = m\<lparr>lr_epoch := 6\<rparr>
   in list_all (\<lambda>p. unat p < 64) (lr_prefix m) \<and> leaf_id m = leaf_id n \<and>
     lr_from_canonical_bytes (lr_to_canonical_bytes m) = Inr m \<and> lr_prefix m = lr_prefix n"
proof -
  define m where "m = \<lparr>lr_shard_filter = [0xFF, 0, 0, 0], lr_prefix = [1, 63], lr_epoch = 2, lr_leaf_root = [3],
       lr_num_blocks = 4, lr_frame_number = 5, lr_signature = None\<rparr>"
  have "lr_ok m" by (simp add: m_def lr_ok_def leaf_limits)
  moreover have "list_all (\<lambda>p. unat p < 64) (lr_prefix m)" by (simp add: m_def)
  ultimately show ?thesis
    using registration_wire_and_id [of m "m\<lparr>lr_epoch := 6\<rparr>"]
    by (simp add: Let_def m_def [symmetric] leaf_id_def)
qed

text \<open>
  The shards to pre-register are exactly the non-empty ones that a change recorded for that
  epoch creates from a confirmed shard (every child of a split, the target of a merge) and that
  are not confirmed themselves, in ascending order and without repetition.
\<close>

theorem pre_registration_targets_correct:
  "set (pre_registration_targets changes confirmed epoch) =
    (\<Union>c\<in>{c\<in>set changes. sc_effective_epoch c = epoch}. creates_from (set confirmed) c) - set confirmed - {[]} \<and>
   sorted (pre_registration_targets changes confirmed epoch) \<and>
   distinct (pre_registration_targets changes confirmed epoch)"
  using set_targets sorted_distinct_targets by blast

section \<open>The eligibility schedule\<close>

abbreviation ascending :: "release_minimum list \<Rightarrow> bool" where
  "ascending ss \<equiv> sorted_wrt (\<lambda>s t. rm_from_frame s < rm_from_frame t) ss"

lemma validate_schedule_iff: "validate_schedule ss = Inr () \<longleftrightarrow> ascending ss"
  by (induction ss rule: validate_schedule.induct) (auto simp: not_le dest: order.strict_trans)

lemma takeWhile_ascending:
  "ascending ss \<Longrightarrow> takeWhile (\<lambda>s. rm_from_frame s \<le> frame) ss = filter (\<lambda>s. rm_from_frame s \<le> frame) ss"
proof (induction ss)
  case (Cons s ss)
  have "filter (\<lambda>t. rm_from_frame t \<le> frame) ss = []" if "frame < rm_from_frame s"
    using Cons.prems that by (fastforce simp: filter_empty_conv not_le)
  with Cons show ?case by (auto simp: not_le)
qed simp

text \<open>The step in force at a frame: the one with the greatest frame not after it.\<close>

definition in_force :: "release_minimum list \<Rightarrow> u64 \<Rightarrow> release_minimum \<Rightarrow> bool" where
  "in_force ss frame s \<longleftrightarrow> s \<in> set ss \<and> rm_from_frame s \<le> frame \<and>
    (\<forall>t\<in>set ss. rm_from_frame t \<le> frame \<longrightarrow> rm_from_frame t \<le> rm_from_frame s)"

lemma minimum_release_at_in_force:
  assumes "ascending ss"
  shows "minimum_release_at ss frame = None \<Longrightarrow> \<not> in_force ss frame s"
    and "minimum_release_at ss frame = Some r \<Longrightarrow> \<exists>s. in_force ss frame s \<and> rm_minimum s = r \<and> (\<forall>t. in_force ss frame t \<longrightarrow> t = s)"
proof -
  define fs where "fs = filter (\<lambda>s. rm_from_frame s \<le> frame) ss"
  have eq: "minimum_release_at ss frame = (case rev fs of [] \<Rightarrow> None | s # _ \<Rightarrow> Some (rm_minimum s))"
    by (simp add: minimum_release_at_def takeWhile_ascending [OF assms] fs_def)
  show "\<not> in_force ss frame s" if "minimum_release_at ss frame = None"
    using that eq by (auto simp: in_force_def fs_def filter_empty_conv split: list.splits)
  show "\<exists>s. in_force ss frame s \<and> rm_minimum s = r \<and> (\<forall>t. in_force ss frame t \<longrightarrow> t = s)"
    if some: "minimum_release_at ss frame = Some r"
  proof -
    from some eq obtain s rest where rev: "rev fs = s # rest" and r: "rm_minimum s = r"
      by (auto split: list.splits)
    from rev have fs: "fs = rev rest @ [s]" by (metis rev.simps(2) rev_rev_ident)
    have "ascending fs" using assms by (simp add: fs_def sorted_wrt_filter)
    then have last: "\<And>t. t \<in> set fs \<Longrightarrow> t = s \<or> rm_from_frame t < rm_from_frame s" by (auto simp: fs sorted_wrt_append)
    have mem: "\<And>t. t \<in> set fs \<longleftrightarrow> t \<in> set ss \<and> rm_from_frame t \<le> frame" by (auto simp: fs_def)
    have "s \<in> set fs" by (simp add: fs)
    with last mem have "in_force ss frame s" by (auto simp: in_force_def intro: less_imp_le)
    moreover have "t = s" if "in_force ss frame t" for t
      using that last [of t] mem [of t] mem [of s] \<open>s \<in> set fs\<close> by (auto simp: in_force_def not_le [symmetric])
    ultimately show ?thesis using r by blast
  qed
qed

text \<open>
  C20. With a schedule that validates, an allocation may be seated at a frame exactly when it
  meets the minimum of the step in force there: before the first step everyone may, and once a
  step applies an allocation without a recorded release may not.
\<close>

theorem seat_eligible_correct:
  assumes "validate_schedule ss = Inr ()"
  shows "seat_eligible ss recorded frame \<longleftrightarrow>
    (\<forall>s. in_force ss frame s \<longrightarrow> (\<exists>r. recorded = Some r \<and> rm_minimum s \<le> r))"
proof (cases "minimum_release_at ss frame")
  case None
  with minimum_release_at_in_force(1) [OF _ None] assms show ?thesis
    by (simp add: validate_schedule_iff seat_eligible_def)
next
  case (Some r)
  from assms have "ascending ss" by (simp add: validate_schedule_iff)
  from minimum_release_at_in_force(2) [OF this Some]
  obtain s where "in_force ss frame s" "rm_minimum s = r" "\<forall>t. in_force ss frame t \<longrightarrow> t = s" by blast
  then have "in_force ss frame t \<longleftrightarrow> t = s" for t by blast
  with Some \<open>rm_minimum s = r\<close> show ?thesis by (cases recorded) (simp_all add: seat_eligible_def)
qed

theorem seat_eligible_correct_witness:
  "let ss = [\<lparr>rm_from_frame = 10, rm_minimum = Release (2, 1, 0) 1 0\<rparr>, \<lparr>rm_from_frame = 20, rm_minimum = Release (2, 1, 0) 2 0\<rparr>]
   in validate_schedule ss = Inr () \<and> seat_eligible ss None 9 \<and> \<not> seat_eligible ss None 10 \<and>
     seat_eligible ss (Some (Release (2, 1, 0) 1 7)) 19 \<and> \<not> seat_eligible ss (Some (Release (2, 1, 0) 1 7)) 20 \<and>
     (\<forall>s. in_force ss 20 s \<longrightarrow> \<not> rm_minimum s \<le> Release (2, 1, 0) 1 7)"
proof -
  define ss where "ss = [\<lparr>rm_from_frame = 10, rm_minimum = Release (2, 1, 0) 1 0\<rparr>, \<lparr>rm_from_frame = 20, rm_minimum = Release (2, 1, 0) 2 0\<rparr>]"
  have ok: "validate_schedule ss = Inr ()" by (simp add: ss_def)
  have ev: "seat_eligible ss None 9 \<and> \<not> seat_eligible ss None 10 \<and>
     seat_eligible ss (Some (Release (2, 1, 0) 1 7)) 19 \<and> \<not> seat_eligible ss (Some (Release (2, 1, 0) 1 7)) 20"
    unfolding ss_def by code_simp
  have "in_force ss 20 s \<longrightarrow> s = \<lparr>rm_from_frame = 20, rm_minimum = Release (2, 1, 0) 2 0\<rparr>" for s
    by (auto simp: in_force_def ss_def)
  with ok ev seat_eligible_correct [OF ok, of "Some (Release (2, 1, 0) 1 7)" 20] show ?thesis
    unfolding Let_def ss_def [symmetric] by auto
qed

end
