(* ===== verification/FrameHeaders.thy ===== *)
theory FrameHeaders
  imports Canonical
begin

text \<open>
  The frame headers of \<^verbatim>\<open>frame_header.rs\<close> of the global intrinsic: the header of a global frame,
  and the header of a shard frame with its optional trailing fields (storage attestation, relay
  block). The fields that follow the old layout are written only when they are set, and a decoder
  that finds nothing left takes their defaults.
\<close>

section \<open>Arrays of byte strings\<close>

definition small :: "bytes \<Rightarrow> bool" where "small b \<longleftrightarrow> length b < 2 ^ 32"

definition array_ok :: "bytes list \<Rightarrow> bool" where
  "array_ok xs \<longleftrightarrow> length xs < 2 ^ 32 \<and> list_all small xs"

interpretation lps: checked_codec put_lp read_lp small
  by unfold_locales (auto simp: small_def dest: read_lp_length)

interpretation arr: checked_codec write_array read_array array_ok
  by unfold_locales
    (auto simp: write_array_def read_array_def array_ok_def result_iff lps.many_append dest!: lps.many_ok)

interpretation i64k: checked_codec put_i64 read_i64 "\<lambda>_. True"
  by unfold_locales simp_all

lemmas header_append = lps.dec_enc_append arr.dec_enc_append
lemmas header_ok = lps.dec_ok arr.dec_ok

section \<open>Global frame headers\<close>

definition TYPE_GLOBAL_FRAME_HEADER :: u32 where "TYPE_GLOBAL_FRAME_HEADER = 0x0309"
definition TYPE_FRAME_HEADER :: u32 where "TYPE_FRAME_HEADER = 0x030A"

record global_frame_header =
  gh_frame_number :: u64
  gh_rank :: u64
  gh_timestamp :: i64
  gh_difficulty :: u32
  gh_output :: bytes
  gh_parent_selector :: bytes
  gh_global_commitments :: "bytes list"
  gh_prover_tree_commitment :: bytes
  gh_prover_tree_aux_roots :: "bytes list"
  gh_requests_root :: bytes
  gh_prover :: bytes
  gh_signature :: bytes
  gh_world_state_size :: u64

definition put_trailing_u64 :: "u64 \<Rightarrow> bytes" where
  "put_trailing_u64 w = (if w \<noteq> 0 then u64_to_be_bytes w else [])"

definition gh_to_canonical_bytes :: "global_frame_header \<Rightarrow> bytes" where
  "gh_to_canonical_bytes h =
    u32_to_be_bytes TYPE_GLOBAL_FRAME_HEADER @ u64_to_be_bytes (gh_frame_number h) @ u64_to_be_bytes (gh_rank h) @
    put_i64 (gh_timestamp h) @ u32_to_be_bytes (gh_difficulty h) @ put_lp (gh_output h) @
    put_lp (gh_parent_selector h) @ write_array (gh_global_commitments h) @
    put_lp (gh_prover_tree_commitment h) @ put_lp (gh_requests_root h) @
    write_array (gh_prover_tree_aux_roots h) @ put_lp (gh_prover h) @ put_lp (gh_signature h) @
    put_trailing_u64 (gh_world_state_size h)"

definition read_trailing_u64 :: "u64 reader" where
  "read_trailing_u64 bs = (if bs \<noteq> [] then read_u64 InvalidArgument bs else Inr (0, []))"

definition gh_from_canonical_bytes :: "bytes \<Rightarrow> global_frame_header result" where
  "gh_from_canonical_bytes bs =
    rbind (read_type TYPE_GLOBAL_FRAME_HEADER bs) (\<lambda>(_, bs).
    rbind (read_u64 InvalidArgument bs) (\<lambda>(frame_number, bs).
    rbind (read_u64 InvalidArgument bs) (\<lambda>(rank, bs).
    rbind (read_i64 bs) (\<lambda>(timestamp, bs).
    rbind (read_u32 InvalidArgument bs) (\<lambda>(difficulty, bs).
    rbind (read_lp bs) (\<lambda>(output, bs).
    rbind (read_lp bs) (\<lambda>(parent_selector, bs).
    rbind (read_array bs) (\<lambda>(global_commitments, bs).
    rbind (read_lp bs) (\<lambda>(prover_tree_commitment, bs).
    rbind (read_lp bs) (\<lambda>(requests_root, bs).
    rbind (read_array bs) (\<lambda>(aux_roots, bs).
    rbind (read_lp bs) (\<lambda>(prover, bs).
    rbind (read_lp bs) (\<lambda>(sig, bs).
    rbind (read_trailing_u64 bs) (\<lambda>(world_state_size, bs).
      Inr \<lparr>gh_frame_number = frame_number, gh_rank = rank, gh_timestamp = timestamp, gh_difficulty = difficulty,
        gh_output = output, gh_parent_selector = parent_selector, gh_global_commitments = global_commitments,
        gh_prover_tree_commitment = prover_tree_commitment, gh_prover_tree_aux_roots = aux_roots,
        gh_requests_root = requests_root, gh_prover = prover, gh_signature = sig,
        gh_world_state_size = world_state_size\<rparr>))))))))))))))"

definition gh_ok :: "global_frame_header \<Rightarrow> bool" where
  "gh_ok h \<longleftrightarrow> small (gh_output h) \<and> small (gh_parent_selector h) \<and> array_ok (gh_global_commitments h) \<and>
    small (gh_prover_tree_commitment h) \<and> small (gh_requests_root h) \<and> array_ok (gh_prover_tree_aux_roots h) \<and>
    small (gh_prover h) \<and> small (gh_signature h)"

lemma u64_to_be_bytes_nonempty [simp]: "u64_to_be_bytes w \<noteq> []"
  by (metis length_u64_to_be_bytes list.size(3) zero_neq_numeral)

lemma trailing_u64:
  "read_trailing_u64 (put_trailing_u64 w) = Inr (w, [])"
  using read_u64_append [of InvalidArgument w "[]"] by (simp add: read_trailing_u64_def put_trailing_u64_def)

lemma gh_from_to: "gh_ok h \<Longrightarrow> gh_from_canonical_bytes (gh_to_canonical_bytes h) = Inr h"
  by (cases h) (simp add: gh_from_canonical_bytes_def gh_to_canonical_bytes_def gh_ok_def header_append trailing_u64)

lemma gh_decoded_ok: "gh_from_canonical_bytes bs = Inr h \<Longrightarrow> gh_ok h"
  by (auto simp: gh_from_canonical_bytes_def gh_ok_def result_iff dest: header_ok)

section \<open>Shard frame headers\<close>

record frame_header =
  fh_address :: bytes
  fh_frame_number :: u64
  fh_rank :: u64
  fh_timestamp :: i64
  fh_difficulty :: u32
  fh_output :: bytes
  fh_parent_selector :: bytes
  fh_requests_root :: bytes
  fh_state_roots :: "bytes list"
  fh_prover :: bytes
  fh_fee_multiplier_vote :: i64
  fh_signature :: bytes
  fh_storage_attestation_root :: bytes
  fh_global_frame_number :: u64
  fh_storage_attestation :: bytes
  fh_fee_total :: bytes
  fh_settlements :: bytes
  fh_accumulator :: bytes
  fh_spends :: bytes

definition fee_total_from_bytes :: "bytes \<Rightarrow> 128 word" where
  "fee_total_from_bytes bs = (if length bs = 16 then word_of_nat (be_nat bs) else 0)"

definition fee_total_to_bytes :: "128 word \<Rightarrow> bytes" where
  "fee_total_to_bytes t = be_bytes 16 (unat t)"

definition fee_total_field :: "128 word \<Rightarrow> bytes" where
  "fee_total_field t = (if t = 0 then [] else fee_total_to_bytes t)"

definition fee_total_value :: "frame_header \<Rightarrow> 128 word" where
  "fee_total_value h = fee_total_from_bytes (fh_fee_total h)"

definition RELAY_BLOCK_TAG :: byte where "RELAY_BLOCK_TAG = 0xFF"

definition has_relay :: "frame_header \<Rightarrow> bool" where
  "has_relay h \<longleftrightarrow> fee_total_value h \<noteq> 0 \<or> fh_settlements h \<noteq> [] \<or> fh_accumulator h \<noteq> [] \<or> fh_spends h \<noteq> []"

definition put_legacy_header :: "frame_header \<Rightarrow> bytes" where
  "put_legacy_header h =
    u32_to_be_bytes TYPE_FRAME_HEADER @ put_lp (fh_address h) @ u64_to_be_bytes (fh_frame_number h) @
    u64_to_be_bytes (fh_rank h) @ put_i64 (fh_timestamp h) @ u32_to_be_bytes (fh_difficulty h) @
    put_lp (fh_output h) @ put_lp (fh_parent_selector h) @ put_lp (fh_requests_root h) @
    write_array (fh_state_roots h) @ put_lp (fh_prover h) @ put_i64 (fh_fee_multiplier_vote h) @
    put_lp (fh_signature h)"

definition put_relay_block :: "frame_header \<Rightarrow> bytes" where
  "put_relay_block h =
    (if has_relay h
     then RELAY_BLOCK_TAG # fee_total_to_bytes (fee_total_value h) @ put_lp (fh_settlements h) @
       put_lp (fh_accumulator h) @ put_lp (fh_spends h)
     else [])"

definition fh_to_canonical_bytes :: "frame_header \<Rightarrow> bytes" where
  "fh_to_canonical_bytes h =
    put_legacy_header h @ put_lp (fh_storage_attestation_root h) @ u64_to_be_bytes (fh_global_frame_number h) @
    put_relay_block h @
    (if fh_storage_attestation h \<noteq> [] then put_lp (fh_storage_attestation h) else [])"

definition read_legacy_header :: "frame_header reader" where
  "read_legacy_header bs =
    rbind (read_type TYPE_FRAME_HEADER bs) (\<lambda>(_, bs).
    rbind (read_lp bs) (\<lambda>(address, bs).
    rbind (read_u64 InvalidArgument bs) (\<lambda>(frame_number, bs).
    rbind (read_u64 InvalidArgument bs) (\<lambda>(rank, bs).
    rbind (read_i64 bs) (\<lambda>(timestamp, bs).
    rbind (read_u32 InvalidArgument bs) (\<lambda>(difficulty, bs).
    rbind (read_lp bs) (\<lambda>(output, bs).
    rbind (read_lp bs) (\<lambda>(parent_selector, bs).
    rbind (read_lp bs) (\<lambda>(requests_root, bs).
    rbind (read_array bs) (\<lambda>(state_roots, bs).
    rbind (read_lp bs) (\<lambda>(prover, bs).
    rbind (read_i64 bs) (\<lambda>(fee_multiplier_vote, bs).
    rbind (read_lp bs) (\<lambda>(sig, bs).
      Inr (\<lparr>fh_address = address, fh_frame_number = frame_number, fh_rank = rank, fh_timestamp = timestamp,
        fh_difficulty = difficulty, fh_output = output, fh_parent_selector = parent_selector,
        fh_requests_root = requests_root, fh_state_roots = state_roots, fh_prover = prover,
        fh_fee_multiplier_vote = fee_multiplier_vote, fh_signature = sig,
        fh_storage_attestation_root = [], fh_global_frame_number = 0, fh_storage_attestation = [],
        fh_fee_total = [], fh_settlements = [], fh_accumulator = [], fh_spends = []\<rparr>, bs))))))))))))))"

definition relay_fee_total :: "bytes \<Rightarrow> bytes" where
  "relay_fee_total t = (if list_ex (\<lambda>b. b \<noteq> 0) t then t else [])"

text \<open>The relay block, if the tag announces one. A block in which nothing is set is refused.\<close>

definition read_relay_block :: "frame_header \<Rightarrow> frame_header reader" where
  "read_relay_block h bs =
    (if bs \<noteq> [] \<and> hd bs = RELAY_BLOCK_TAG then
       rbind (read_bytes InvalidArgument 16 (tl bs)) (\<lambda>(total, bs).
       rbind (read_lp bs) (\<lambda>(settlements, bs).
       rbind (read_lp bs) (\<lambda>(accumulator, bs).
       rbind (read_lp bs) (\<lambda>(spends, bs).
         if relay_fee_total total = [] \<and> settlements = [] \<and> accumulator = [] \<and> spends = [] then Inl InvalidArgument
         else Inr (h\<lparr>fh_fee_total := relay_fee_total total, fh_settlements := settlements, fh_accumulator := accumulator,
              fh_spends := spends\<rparr>, bs)))))
     else Inr (h, bs))"

definition fh_from_canonical_bytes :: "bytes \<Rightarrow> frame_header result" where
  "fh_from_canonical_bytes bs =
    rbind (read_legacy_header bs) (\<lambda>(h, bs).
      if bs \<noteq> [] then
        rbind (read_lp bs) (\<lambda>(root, bs).
        rbind (read_u64 InvalidArgument bs) (\<lambda>(global_frame_number, bs).
        rbind (read_relay_block (h\<lparr>fh_storage_attestation_root := root, fh_global_frame_number := global_frame_number\<rparr>) bs) (\<lambda>(h, bs).
          if bs \<noteq> [] then rbind (read_lp bs) (\<lambda>(att, bs). Inr (h\<lparr>fh_storage_attestation := att\<rparr>)) else Inr h)))
      else Inr h)"

section \<open>Round trip of shard frame headers\<close>

definition fh_legacy_ok :: "frame_header \<Rightarrow> bool" where
  "fh_legacy_ok h \<longleftrightarrow> small (fh_address h) \<and> small (fh_output h) \<and> small (fh_parent_selector h) \<and>
    small (fh_requests_root h) \<and> array_ok (fh_state_roots h) \<and> small (fh_prover h) \<and> small (fh_signature h)"

text \<open>
  Without a relay block, an attestation of \<open>0xFF000000\<close> bytes or more would start with the tag
  byte of a relay block.
\<close>

definition fh_ok :: "frame_header \<Rightarrow> bool" where
  "fh_ok h \<longleftrightarrow> fh_legacy_ok h \<and> small (fh_storage_attestation_root h) \<and> small (fh_storage_attestation h) \<and>
    small (fh_settlements h) \<and> small (fh_accumulator h) \<and> small (fh_spends h) \<and>
    (has_relay h \<or> length (fh_storage_attestation h) < 0xFF000000)"

definition fh_canonical :: "frame_header \<Rightarrow> frame_header" where
  "fh_canonical h = h\<lparr>fh_fee_total := fee_total_field (fee_total_value h)\<rparr>"

lemma legacy_append:
  "fh_legacy_ok h \<Longrightarrow> read_legacy_header (put_legacy_header h @ bs) =
    Inr (h\<lparr>fh_storage_attestation_root := [], fh_global_frame_number := 0, fh_storage_attestation := [],
      fh_fee_total := [], fh_settlements := [], fh_accumulator := [], fh_spends := []\<rparr>, bs)"
  by (cases h) (simp add: read_legacy_header_def put_legacy_header_def fh_legacy_ok_def header_append)

lemma read_legacy_ok:
  "read_legacy_header bs = Inr (h, bs') \<Longrightarrow>
    fh_legacy_ok h \<and> fh_storage_attestation_root h = [] \<and> fh_storage_attestation h = [] \<and>
    fh_fee_total h = [] \<and> fh_settlements h = [] \<and> fh_accumulator h = [] \<and> fh_spends h = []"
  by (auto simp: read_legacy_header_def fh_legacy_ok_def result_iff dest: header_ok)

lemma length_fee_total_to_bytes [simp]: "length (fee_total_to_bytes t) = 16"
  by (simp add: fee_total_to_bytes_def)

lemma fee_total_from_to [simp]: "fee_total_from_bytes (fee_total_to_bytes t) = t"
proof -
  have "unat t < 256 ^ 16" using unsigned_less [of t, where ?'a = nat] by simp
  then show ?thesis by (simp add: fee_total_from_bytes_def fee_total_to_bytes_def be_nat_be_bytes)
qed

lemma fee_total_to_from: "length bs = 16 \<Longrightarrow> fee_total_to_bytes (fee_total_from_bytes bs) = bs"
  using be_nat_bound [of bs] be_bytes_be_nat [of bs]
  by (simp add: fee_total_from_bytes_def fee_total_to_bytes_def unat_of_nat)

lemma be_nat_eq_0: "be_nat bs = 0 \<longleftrightarrow> list_all (\<lambda>b. b = 0) bs"
  by (induction bs rule: rev_induct) (auto simp: unsigned_eq_0_iff)

lemma nonzero_total: "list_ex (\<lambda>b. b \<noteq> 0) (fee_total_to_bytes t) \<longleftrightarrow> t \<noteq> 0"
proof -
  have "list_ex (\<lambda>b. b \<noteq> 0) (fee_total_to_bytes t) \<longleftrightarrow> be_nat (fee_total_to_bytes t) \<noteq> 0"
    by (auto simp: be_nat_eq_0 list_ex_iff list_all_iff)
  moreover have "be_nat (fee_total_to_bytes t) = unat t"
    using unsigned_less [of t, where ?'a = nat] by (simp add: fee_total_to_bytes_def be_nat_be_bytes)
  ultimately show ?thesis by (simp add: unat_eq_zero)
qed

lemma be_nat_Cons: "be_nat (b # bs) = unat b * 256 ^ length bs + be_nat bs"
  by (induction bs rule: rev_induct) (simp_all add: be_nat_def algebra_simps)

lemma length_tag:
  assumes "length bs = 4"
  shows "hd bs = RELAY_BLOCK_TAG \<longleftrightarrow> 0xFF000000 \<le> be_nat bs"
proof -
  from assms obtain b r where bs: "bs = b # r" and r: "length r = 3" by (cases bs) auto
  have "be_nat r < 16777216" using be_nat_bound [of r] by (simp add: r)
  moreover from unat_byte_lt [of b] have "unat b \<le> 254 \<or> unat b = 255" by linarith
  ultimately have "unat b = 255 \<longleftrightarrow> 0xFF000000 \<le> unat b * 16777216 + be_nat r" by auto
  moreover have "b = RELAY_BLOCK_TAG \<longleftrightarrow> unat b = 255"
    by (simp add: RELAY_BLOCK_TAG_def word_unat_eq_iff)
  ultimately show ?thesis by (simp add: bs be_nat_Cons r)
qed

lemma u32_to_be_bytes_nonempty [simp]: "u32_to_be_bytes w \<noteq> []"
  by (metis length_u32_to_be_bytes list.size(3) zero_neq_numeral)

lemma relay_append:
  assumes "fh_ok h" and "h' = h\<lparr>fh_storage_attestation := [], fh_fee_total := [], fh_settlements := [], fh_accumulator := [], fh_spends := []\<rparr>"
    and "bs = [] \<or> bs = put_lp (fh_storage_attestation h)"
  shows "read_relay_block h' (put_relay_block h @ bs) = Inr ((fh_canonical h)\<lparr>fh_storage_attestation := []\<rparr>, bs)"
proof (cases "has_relay h")
  case True
  have "read_bytes InvalidArgument 16 (fee_total_to_bytes t @ xs) = Inr (fee_total_to_bytes t, xs)" for t xs by simp
  moreover have "fee_total_to_bytes t \<noteq> []" for t by (metis length_fee_total_to_bytes list.size(3) zero_neq_numeral)
  ultimately show ?thesis
    using True assms(1)
    by (cases h)
      (auto simp: assms(2) read_relay_block_def put_relay_block_def fh_ok_def header_append fh_canonical_def
        fee_total_field_def nonzero_total has_relay_def fee_total_value_def relay_fee_total_def)
next
  case False
  then have "\<not> (bs \<noteq> [] \<and> hd bs = RELAY_BLOCK_TAG)"
  proof -
    have "hd (u32_to_be_bytes (word_of_nat n)) \<noteq> RELAY_BLOCK_TAG" if "n < 0xFF000000" for n
      using that by (simp add: length_tag be_nat_be_bytes u32_to_be_bytes_def)
    with False assms(1,3) show ?thesis
      by (auto simp: fh_ok_def put_lp_def hd_append)
  qed
  with False show ?thesis
    by (cases h)
      (auto simp: assms(2) read_relay_block_def put_relay_block_def fh_canonical_def fee_total_field_def has_relay_def
        fee_total_value_def)
qed

lemma fh_from_to:
  assumes "fh_ok h"
  shows "fh_from_canonical_bytes (fh_to_canonical_bytes h) = Inr (fh_canonical h)"
proof -
  define h' where "h' = h\<lparr>fh_storage_attestation := [], fh_fee_total := [], fh_settlements := [], fh_accumulator := [], fh_spends := []\<rparr>"
  define bs where "bs = (if fh_storage_attestation h \<noteq> [] then put_lp (fh_storage_attestation h) else [])"
  have att: "(if bs \<noteq> [] then rbind (read_lp bs) (\<lambda>(att, bs). Inr (g\<lparr>fh_storage_attestation := att\<rparr>)) else Inr g) =
      Inr (g\<lparr>fh_storage_attestation := fh_storage_attestation h\<rparr>)" if "fh_storage_attestation g = []" for g
    using that assms lps.dec_enc [of "fh_storage_attestation h"] by (cases g) (simp add: bs_def fh_ok_def)
  have rel: "read_relay_block h' (put_relay_block h @ bs) = Inr ((fh_canonical h)\<lparr>fh_storage_attestation := []\<rparr>, bs)"
    using relay_append [OF assms h'_def, of bs] by (auto simp: bs_def)
  have "(fh_canonical h)\<lparr>fh_storage_attestation := fh_storage_attestation h\<rparr> = fh_canonical h"
    by (cases h) (simp add: fh_canonical_def fee_total_value_def)
  with att [of "(fh_canonical h)\<lparr>fh_storage_attestation := []\<rparr>"] rel assms show ?thesis
    by (simp add: fh_from_canonical_bytes_def fh_to_canonical_bytes_def legacy_append fh_ok_def header_append
        bs_def [symmetric] h'_def)
qed

lemma nonzero_bytes:
  assumes "length b = 16" and "list_ex (\<lambda>b. b \<noteq> 0) b"
  shows "fee_total_from_bytes b \<noteq> 0" and "fee_total_field (fee_total_from_bytes b) = b"
  using nonzero_total [of "fee_total_from_bytes b"] fee_total_to_from [OF assms(1)] assms(2)
  by (simp_all add: fee_total_field_def)

lemma read_relay_cases:
  assumes "read_relay_block g bs = Inr (h, bs')"
  obtains (none) "h = g" "bs' = bs" "bs = [] \<or> hd bs \<noteq> RELAY_BLOCK_TAG"
  | (block) t s a p where
      "h = g\<lparr>fh_fee_total := relay_fee_total t, fh_settlements := s, fh_accumulator := a, fh_spends := p\<rparr>"
      "length t = 16" "small s" "small a" "small p" "relay_fee_total t \<noteq> [] \<or> s \<noteq> [] \<or> a \<noteq> [] \<or> p \<noteq> []"
proof (cases "bs \<noteq> [] \<and> hd bs = RELAY_BLOCK_TAG")
  case True
  with assms obtain t s a p bs1 bs2 bs3 where "read_bytes InvalidArgument 16 (tl bs) = Inr (t, bs1)"
    "read_lp bs1 = Inr (s, bs2)" "read_lp bs2 = Inr (a, bs3)" "read_lp bs3 = Inr (p, bs')"
    "h = g\<lparr>fh_fee_total := relay_fee_total t, fh_settlements := s, fh_accumulator := a, fh_spends := p\<rparr>"
    "relay_fee_total t \<noteq> [] \<or> s \<noteq> [] \<or> a \<noteq> [] \<or> p \<noteq> []"
    by (auto simp: read_relay_block_def result_iff split: if_split_asm)
  with read_bytes_length [OF this(1)] lps.dec_ok [OF this(2)] lps.dec_ok [OF this(3)] lps.dec_ok [OF this(4)]
  show ?thesis by (intro block [of p a s t]) simp_all
next
  case False
  with assms none show ?thesis by (auto simp: read_relay_block_def)
qed

lemma read_lp_untagged:
  assumes "read_lp bs = Inr (att, bs')" and "bs = [] \<or> hd bs \<noteq> RELAY_BLOCK_TAG"
  shows "length att < 0xFF000000"
proof -
  from assms(1) have len: "4 \<le> length bs" and att: "length att = unat (u32_from_be_bytes (take 4 bs))"
    by (auto simp: read_lp_def result_iff read_u32_Inr dest: read_bytes_length)
  from len have "hd (take 4 bs) = hd bs" by (cases bs) auto
  with assms(2) len have "be_nat (take 4 bs) < 0xFF000000" using length_tag [of "take 4 bs"] by (auto simp: min_def)
  with att show ?thesis by (simp add: u32_from_be_bytes_def unat_of_nat)
qed

lemma small_nil [simp]: "small []"
  by (simp add: small_def)

lemma canonical_no_fee: "fh_fee_total h = [] \<Longrightarrow> fh_canonical h = h"
  by (cases h) (simp add: fh_canonical_def fee_total_field_def fee_total_value_def fee_total_from_bytes_def)

lemma fh_decoded:
  assumes "fh_from_canonical_bytes bs = Inr h"
  shows "fh_ok h \<and> fh_canonical h = h"
proof -
  from assms obtain g bs1 where g: "read_legacy_header bs = Inr (g, bs1)"
    and rest: "bs1 = [] \<and> h = g \<or>
      (\<exists>root bs2 n bs3 k bs4. read_lp bs1 = Inr (root, bs2) \<and> read_u64 InvalidArgument bs2 = Inr (n, bs3) \<and>
        read_relay_block (g\<lparr>fh_storage_attestation_root := root, fh_global_frame_number := n\<rparr>) bs3 = Inr (k, bs4) \<and>
        (bs4 = [] \<and> h = k \<or> (\<exists>att bs5. read_lp bs4 = Inr (att, bs5) \<and> h = k\<lparr>fh_storage_attestation := att\<rparr>)))"
    by (auto simp: fh_from_canonical_bytes_def result_iff split: if_splits)
  note base = read_legacy_ok [OF g]
  from rest consider "h = g"
    | root n bs3 k bs4 where "small root"
      "read_relay_block (g\<lparr>fh_storage_attestation_root := root, fh_global_frame_number := n\<rparr>) bs3 = Inr (k, bs4)"
      "bs4 = [] \<and> h = k \<or> (\<exists>att bs5. read_lp bs4 = Inr (att, bs5) \<and> h = k\<lparr>fh_storage_attestation := att\<rparr>)"
    using lps.dec_ok by blast
  then show ?thesis
  proof cases
    case 1
    with base show ?thesis by (simp add: fh_ok_def canonical_no_fee small_def)
  next
    case (2 root n bs3 k bs4)
    from 2(2) show ?thesis
    proof (cases rule: read_relay_cases)
      case none
      have "fh_ok k" "fh_canonical k = k" using none(1) 2(1) base
        by (simp_all add: fh_ok_def fh_legacy_ok_def canonical_no_fee small_nil)
      moreover have "fh_ok (k\<lparr>fh_storage_attestation := att\<rparr>)" "fh_canonical (k\<lparr>fh_storage_attestation := att\<rparr>) = k\<lparr>fh_storage_attestation := att\<rparr>"
        if "read_lp bs4 = Inr (att, bs5)" for att bs5
        using \<open>fh_ok k\<close> lps.dec_ok [OF that] read_lp_untagged [of bs3 att bs5] none that base
        by (simp_all add: fh_ok_def fh_legacy_ok_def canonical_no_fee has_relay_def fee_total_value_def)
      ultimately show ?thesis using 2(3) by blast
    next
      case (block t s a p)
      have fee: "fee_total_field (fee_total_value k) = fh_fee_total k" and rel: "has_relay k"
        using block nonzero_bytes [of t]
        by (auto simp: has_relay_def relay_fee_total_def fee_total_value_def fee_total_field_def fee_total_from_bytes_def)
      have "fh_ok k" "fh_canonical k = k" using rel fee block(1,3-5) 2(1) base
        by (simp_all add: fh_ok_def fh_legacy_ok_def small_nil fh_canonical_def)
      moreover have "fh_ok (k\<lparr>fh_storage_attestation := att\<rparr>)" "fh_canonical (k\<lparr>fh_storage_attestation := att\<rparr>) = k\<lparr>fh_storage_attestation := att\<rparr>"
        if "read_lp bs4 = Inr (att, bs5)" for att bs5
        using \<open>fh_ok k\<close> lps.dec_ok [OF that] rel fee
        by (cases k; simp add: fh_ok_def fh_legacy_ok_def has_relay_def fee_total_value_def fh_canonical_def)+
      ultimately show ?thesis using 2(3) by blast
    qed
  qed
qed

section \<open>Properties\<close>

text \<open>
  A global frame header decodes from its own encoding exactly when its fields have 32-bit
  lengths; in particular a zero world-state size, which is not written, is read back as zero. A
  shard frame header decodes from its own encoding exactly when its fields have 32-bit lengths,
  its fee total is in canonical form (empty for zero, 16 bytes otherwise), and without a relay
  block its attestation is shorter than \<open>0xFF000000\<close> bytes; and every shard header the decoder
  returns, whatever the bytes and whichever trailing fields are present, has these properties.
\<close>

theorem frame_header_roundtrip:
  "(gh_from_canonical_bytes (gh_to_canonical_bytes k) = Inr k \<longleftrightarrow> gh_ok k) \<and>
   (fh_from_canonical_bytes (fh_to_canonical_bytes h) = Inr h \<longleftrightarrow> fh_ok h \<and> fh_canonical h = h) \<and>
   (fh_from_canonical_bytes bs = Inr g \<longrightarrow> fh_from_canonical_bytes (fh_to_canonical_bytes g) = Inr g)"
  using fh_from_to fh_decoded gh_from_to gh_decoded_ok by metis

definition example_header :: frame_header where
  "example_header = \<lparr>fh_address = [1], fh_frame_number = 2, fh_rank = 3, fh_timestamp = 4, fh_difficulty = 5,
    fh_output = [6], fh_parent_selector = [7], fh_requests_root = [8], fh_state_roots = [[9], []], fh_prover = [10],
    fh_fee_multiplier_vote = - 1, fh_signature = [11], fh_storage_attestation_root = [12], fh_global_frame_number = 13,
    fh_storage_attestation = [14], fh_fee_total = [], fh_settlements = [15], fh_accumulator = [], fh_spends = []\<rparr>"

theorem frame_header_roundtrip_witness:
  "fh_from_canonical_bytes (fh_to_canonical_bytes example_header) = Inr example_header \<and>
   fh_from_canonical_bytes (fh_to_canonical_bytes (example_header\<lparr>fh_settlements := []\<rparr>)) = Inr (example_header\<lparr>fh_settlements := []\<rparr>)"
proof -
  have "fh_ok example_header \<and> fh_canonical example_header = example_header"
    by (simp add: fh_ok_def fh_legacy_ok_def small_def array_ok_def has_relay_def canonical_no_fee example_header_def)
  then have enc: "fh_from_canonical_bytes (fh_to_canonical_bytes example_header) = Inr example_header"
    using frame_header_roundtrip by blast
  moreover have "fh_ok (example_header\<lparr>fh_settlements := []\<rparr>) \<and> fh_canonical (example_header\<lparr>fh_settlements := []\<rparr>) = example_header\<lparr>fh_settlements := []\<rparr>"
    by (simp add: fh_ok_def fh_legacy_ok_def small_def array_ok_def has_relay_def canonical_no_fee example_header_def)
  ultimately show ?thesis using frame_header_roundtrip by blast
qed

end
