(* ===== verification/ConsensusMessages.thy ===== *)
theory ConsensusMessages
  imports FrameHeaders
begin

text \<open>
  The canonical encodings of \<^verbatim>\<open>proof_types.rs\<close> and \<^verbatim>\<open>consensus_types.rs\<close> of the global intrinsic:
  proofs, paths, proposals, quorum and timeout certificates. None of them caps a length beyond the
  32 bits it is written with.
\<close>

definition read_u64s :: "u64 list reader" where
  "read_u64s bs =
    rbind (read_u32 InvalidArgument bs) (\<lambda>(n, bs). read_many (unat n) (read_u64 InvalidArgument) bs)"

interpretation u64l: checked_codec "put_list u64_to_be_bytes" read_u64s "\<lambda>xs. length xs < 2 ^ 32"
  using u64c.many_append u64k.many_ok
  by unfold_locales (auto simp: put_list_def read_u64s_def result_iff list_all_iff)

lemmas wire_append = lps.dec_enc_append arr.dec_enc_append u64l.dec_enc_append
lemmas wire_ok = lps.dec_ok arr.dec_ok u64l.dec_ok

section \<open>Proof types\<close>

definition TYPE_MULTIPROOF :: u32 where "TYPE_MULTIPROOF = 0x0313"

record canonical_multiproof =
  cm_multicommitment :: bytes
  cm_proof :: bytes

definition cm_to_canonical_bytes :: "canonical_multiproof \<Rightarrow> bytes" where
  "cm_to_canonical_bytes m =
    u32_to_be_bytes TYPE_MULTIPROOF @ put_lp (cm_multicommitment m) @ put_lp (cm_proof m)"

definition read_cm :: "canonical_multiproof reader" where
  "read_cm bs =
    rbind (read_type TYPE_MULTIPROOF bs) (\<lambda>(_, bs).
    rbind (read_lp bs) (\<lambda>(multicommitment, bs).
    rbind (read_lp bs) (\<lambda>(proof, bs).
      Inr (\<lparr>cm_multicommitment = multicommitment, cm_proof = proof\<rparr>, bs))))"

definition cm_from_canonical_bytes :: "bytes \<Rightarrow> canonical_multiproof result" where
  "cm_from_canonical_bytes = whole read_cm"

definition cm_ok :: "canonical_multiproof \<Rightarrow> bool" where
  "cm_ok m \<longleftrightarrow> small (cm_multicommitment m) \<and> small (cm_proof m)"

interpretation cm: checked_codec cm_to_canonical_bytes read_cm cm_ok
  by unfold_locales
    (auto simp: cm_to_canonical_bytes_def read_cm_def cm_ok_def wire_append result_iff dest: wire_ok)

definition TYPE_PATH :: u32 where "TYPE_PATH = 0x0314"

record canonical_path =
  cp_indices :: "u64 list"

definition cp_to_canonical_bytes :: "canonical_path \<Rightarrow> bytes" where
  "cp_to_canonical_bytes m =
    u32_to_be_bytes TYPE_PATH @ put_list u64_to_be_bytes (cp_indices m)"

definition read_cp :: "canonical_path reader" where
  "read_cp bs =
    rbind (read_type TYPE_PATH bs) (\<lambda>(_, bs).
    rbind (read_u64s bs) (\<lambda>(indices, bs).
      Inr (\<lparr>cp_indices = indices\<rparr>, bs)))"

definition cp_from_canonical_bytes :: "bytes \<Rightarrow> canonical_path result" where
  "cp_from_canonical_bytes = whole read_cp"

definition cp_ok :: "canonical_path \<Rightarrow> bool" where
  "cp_ok m \<longleftrightarrow> length (cp_indices m) < 2 ^ 32"

interpretation cp: checked_codec cp_to_canonical_bytes read_cp cp_ok
  by unfold_locales
    (auto simp: cp_to_canonical_bytes_def read_cp_def cp_ok_def wire_append result_iff dest: wire_ok)

definition TYPE_TRAVERSAL_SUB_PROOF :: u32 where "TYPE_TRAVERSAL_SUB_PROOF = 0x0315"

record canonical_traversal_sub_proof =
  cs_commits :: "bytes list"
  cs_ys :: "bytes list"
  cs_paths :: "bytes list"

definition cs_to_canonical_bytes :: "canonical_traversal_sub_proof \<Rightarrow> bytes" where
  "cs_to_canonical_bytes m =
    u32_to_be_bytes TYPE_TRAVERSAL_SUB_PROOF @ write_array (cs_commits m) @ write_array (cs_ys m) @
    write_array (cs_paths m)"

definition read_cs :: "canonical_traversal_sub_proof reader" where
  "read_cs bs =
    rbind (read_type TYPE_TRAVERSAL_SUB_PROOF bs) (\<lambda>(_, bs).
    rbind (read_array bs) (\<lambda>(commits, bs).
    rbind (read_array bs) (\<lambda>(ys, bs).
    rbind (read_array bs) (\<lambda>(paths, bs).
      Inr (\<lparr>cs_commits = commits, cs_ys = ys, cs_paths = paths\<rparr>, bs)))))"

definition cs_from_canonical_bytes :: "bytes \<Rightarrow> canonical_traversal_sub_proof result" where
  "cs_from_canonical_bytes = whole read_cs"

definition cs_ok :: "canonical_traversal_sub_proof \<Rightarrow> bool" where
  "cs_ok m \<longleftrightarrow> array_ok (cs_commits m) \<and> array_ok (cs_ys m) \<and> array_ok (cs_paths m)"

interpretation cs: checked_codec cs_to_canonical_bytes read_cs cs_ok
  by unfold_locales
    (auto simp: cs_to_canonical_bytes_def read_cs_def cs_ok_def wire_append result_iff dest: wire_ok)

definition TYPE_TRAVERSAL_PROOF :: u32 where "TYPE_TRAVERSAL_PROOF = 0x0316"

record canonical_traversal_proof =
  ct_multiproof :: bytes
  ct_sub_proofs :: "bytes list"

definition ct_to_canonical_bytes :: "canonical_traversal_proof \<Rightarrow> bytes" where
  "ct_to_canonical_bytes m =
    u32_to_be_bytes TYPE_TRAVERSAL_PROOF @ put_lp (ct_multiproof m) @ write_array (ct_sub_proofs m)"

definition read_ct :: "canonical_traversal_proof reader" where
  "read_ct bs =
    rbind (read_type TYPE_TRAVERSAL_PROOF bs) (\<lambda>(_, bs).
    rbind (read_lp bs) (\<lambda>(multiproof, bs).
    rbind (read_array bs) (\<lambda>(sub_proofs, bs).
      Inr (\<lparr>ct_multiproof = multiproof, ct_sub_proofs = sub_proofs\<rparr>, bs))))"

definition ct_from_canonical_bytes :: "bytes \<Rightarrow> canonical_traversal_proof result" where
  "ct_from_canonical_bytes = whole read_ct"

definition ct_ok :: "canonical_traversal_proof \<Rightarrow> bool" where
  "ct_ok m \<longleftrightarrow> small (ct_multiproof m) \<and> array_ok (ct_sub_proofs m)"

interpretation ct: checked_codec ct_to_canonical_bytes read_ct ct_ok
  by unfold_locales
    (auto simp: ct_to_canonical_bytes_def read_ct_def ct_ok_def wire_append result_iff dest: wire_ok)

section \<open>Consensus types\<close>

definition TYPE_ALT_SHARD_UPDATE :: u32 where "TYPE_ALT_SHARD_UPDATE = 0x0319"

record alt_shard_update =
  au_public_key :: bytes
  au_frame_number :: u64
  au_vertex_adds_root :: bytes
  au_vertex_removes_root :: bytes
  au_hyperedge_adds_root :: bytes
  au_hyperedge_removes_root :: bytes
  au_signature :: bytes

definition au_to_canonical_bytes :: "alt_shard_update \<Rightarrow> bytes" where
  "au_to_canonical_bytes m =
    u32_to_be_bytes TYPE_ALT_SHARD_UPDATE @ put_lp (au_public_key m) @
    u64_to_be_bytes (au_frame_number m) @ put_lp (au_vertex_adds_root m) @
    put_lp (au_vertex_removes_root m) @ put_lp (au_hyperedge_adds_root m) @
    put_lp (au_hyperedge_removes_root m) @ put_lp (au_signature m)"

definition read_au :: "alt_shard_update reader" where
  "read_au bs =
    rbind (read_type TYPE_ALT_SHARD_UPDATE bs) (\<lambda>(_, bs).
    rbind (read_lp bs) (\<lambda>(public_key, bs).
    rbind (read_u64 InvalidArgument bs) (\<lambda>(frame_number, bs).
    rbind (read_lp bs) (\<lambda>(vertex_adds_root, bs).
    rbind (read_lp bs) (\<lambda>(vertex_removes_root, bs).
    rbind (read_lp bs) (\<lambda>(hyperedge_adds_root, bs).
    rbind (read_lp bs) (\<lambda>(hyperedge_removes_root, bs).
    rbind (read_lp bs) (\<lambda>(signature, bs).
      Inr (\<lparr>au_public_key = public_key, au_frame_number = frame_number,
        au_vertex_adds_root = vertex_adds_root, au_vertex_removes_root = vertex_removes_root,
        au_hyperedge_adds_root = hyperedge_adds_root,
        au_hyperedge_removes_root = hyperedge_removes_root, au_signature = signature\<rparr>, bs)))))))))"

definition au_from_canonical_bytes :: "bytes \<Rightarrow> alt_shard_update result" where
  "au_from_canonical_bytes = whole read_au"

definition au_ok :: "alt_shard_update \<Rightarrow> bool" where
  "au_ok m \<longleftrightarrow> small (au_public_key m) \<and> small (au_vertex_adds_root m) \<and>
    small (au_vertex_removes_root m) \<and> small (au_hyperedge_adds_root m) \<and>
    small (au_hyperedge_removes_root m) \<and> small (au_signature m)"

interpretation au: checked_codec au_to_canonical_bytes read_au au_ok
  by unfold_locales
    (auto simp: au_to_canonical_bytes_def read_au_def au_ok_def wire_append result_iff dest: wire_ok)

definition TYPE_GLOBAL_PROPOSAL :: u32 where "TYPE_GLOBAL_PROPOSAL = 0x0317"

record global_proposal =
  gp_state :: bytes
  gp_parent_quorum_certificate :: bytes
  gp_prior_rank_timeout_certificate :: bytes
  gp_vote :: bytes

definition gp_to_canonical_bytes :: "global_proposal \<Rightarrow> bytes" where
  "gp_to_canonical_bytes m =
    u32_to_be_bytes TYPE_GLOBAL_PROPOSAL @ put_lp (gp_state m) @
    put_lp (gp_parent_quorum_certificate m) @ put_lp (gp_prior_rank_timeout_certificate m) @
    put_lp (gp_vote m)"

definition read_gp :: "global_proposal reader" where
  "read_gp bs =
    rbind (read_type TYPE_GLOBAL_PROPOSAL bs) (\<lambda>(_, bs).
    rbind (read_lp bs) (\<lambda>(state, bs).
    rbind (read_lp bs) (\<lambda>(parent_quorum_certificate, bs).
    rbind (read_lp bs) (\<lambda>(prior_rank_timeout_certificate, bs).
    rbind (read_lp bs) (\<lambda>(vote, bs).
      Inr (\<lparr>gp_state = state, gp_parent_quorum_certificate = parent_quorum_certificate,
        gp_prior_rank_timeout_certificate = prior_rank_timeout_certificate, gp_vote = vote\<rparr>, bs))))))"

definition gp_from_canonical_bytes :: "bytes \<Rightarrow> global_proposal result" where
  "gp_from_canonical_bytes = whole read_gp"

definition gp_ok :: "global_proposal \<Rightarrow> bool" where
  "gp_ok m \<longleftrightarrow> small (gp_state m) \<and> small (gp_parent_quorum_certificate m) \<and>
    small (gp_prior_rank_timeout_certificate m) \<and> small (gp_vote m)"

interpretation gp: checked_codec gp_to_canonical_bytes read_gp gp_ok
  by unfold_locales
    (auto simp: gp_to_canonical_bytes_def read_gp_def gp_ok_def wire_append result_iff dest: wire_ok)

definition TYPE_APP_SHARD_PROPOSAL :: u32 where "TYPE_APP_SHARD_PROPOSAL = 0x0318"

record app_shard_proposal =
  ap_state :: bytes
  ap_parent_quorum_certificate :: bytes
  ap_prior_rank_timeout_certificate :: bytes
  ap_vote :: bytes

definition ap_to_canonical_bytes :: "app_shard_proposal \<Rightarrow> bytes" where
  "ap_to_canonical_bytes m =
    u32_to_be_bytes TYPE_APP_SHARD_PROPOSAL @ put_lp (ap_state m) @
    put_lp (ap_parent_quorum_certificate m) @ put_lp (ap_prior_rank_timeout_certificate m) @
    put_lp (ap_vote m)"

definition read_ap :: "app_shard_proposal reader" where
  "read_ap bs =
    rbind (read_type TYPE_APP_SHARD_PROPOSAL bs) (\<lambda>(_, bs).
    rbind (read_lp bs) (\<lambda>(state, bs).
    rbind (read_lp bs) (\<lambda>(parent_quorum_certificate, bs).
    rbind (read_lp bs) (\<lambda>(prior_rank_timeout_certificate, bs).
    rbind (read_lp bs) (\<lambda>(vote, bs).
      Inr (\<lparr>ap_state = state, ap_parent_quorum_certificate = parent_quorum_certificate,
        ap_prior_rank_timeout_certificate = prior_rank_timeout_certificate, ap_vote = vote\<rparr>, bs))))))"

definition ap_from_canonical_bytes :: "bytes \<Rightarrow> app_shard_proposal result" where
  "ap_from_canonical_bytes = whole read_ap"

definition ap_ok :: "app_shard_proposal \<Rightarrow> bool" where
  "ap_ok m \<longleftrightarrow> small (ap_state m) \<and> small (ap_parent_quorum_certificate m) \<and>
    small (ap_prior_rank_timeout_certificate m) \<and> small (ap_vote m)"

interpretation ap: checked_codec ap_to_canonical_bytes read_ap ap_ok
  by unfold_locales
    (auto simp: ap_to_canonical_bytes_def read_ap_def ap_ok_def wire_append result_iff dest: wire_ok)

definition TYPE_QUORUM_CERTIFICATE :: u32 where "TYPE_QUORUM_CERTIFICATE = 0x030D"

record quorum_certificate =
  qc_filter :: bytes
  qc_rank :: u64
  qc_frame_number :: u64
  qc_selector :: bytes
  qc_timestamp :: u64
  qc_aggregate_signature :: bytes

definition qc_to_canonical_bytes :: "quorum_certificate \<Rightarrow> bytes" where
  "qc_to_canonical_bytes m =
    u32_to_be_bytes TYPE_QUORUM_CERTIFICATE @ put_lp (qc_filter m) @ u64_to_be_bytes (qc_rank m) @
    u64_to_be_bytes (qc_frame_number m) @ put_lp (qc_selector m) @ u64_to_be_bytes (qc_timestamp m) @
    put_lp (qc_aggregate_signature m)"

definition read_qc :: "quorum_certificate reader" where
  "read_qc bs =
    rbind (read_type TYPE_QUORUM_CERTIFICATE bs) (\<lambda>(_, bs).
    rbind (read_lp bs) (\<lambda>(filter, bs).
    rbind (read_u64 InvalidArgument bs) (\<lambda>(rank, bs).
    rbind (read_u64 InvalidArgument bs) (\<lambda>(frame_number, bs).
    rbind (read_lp bs) (\<lambda>(selector, bs).
    rbind (read_u64 InvalidArgument bs) (\<lambda>(timestamp, bs).
    rbind (read_lp bs) (\<lambda>(aggregate_signature, bs).
      Inr (\<lparr>qc_filter = filter, qc_rank = rank, qc_frame_number = frame_number, qc_selector = selector,
        qc_timestamp = timestamp, qc_aggregate_signature = aggregate_signature\<rparr>, bs))))))))"

definition qc_from_canonical_bytes :: "bytes \<Rightarrow> quorum_certificate result" where
  "qc_from_canonical_bytes = whole read_qc"

definition qc_ok :: "quorum_certificate \<Rightarrow> bool" where
  "qc_ok m \<longleftrightarrow> small (qc_filter m) \<and> small (qc_selector m) \<and> small (qc_aggregate_signature m)"

interpretation qc: checked_codec qc_to_canonical_bytes read_qc qc_ok
  by unfold_locales
    (auto simp: qc_to_canonical_bytes_def read_qc_def qc_ok_def wire_append result_iff dest: wire_ok)

definition TYPE_TIMEOUT_STATE :: u32 where "TYPE_TIMEOUT_STATE = 0x031C"

record timeout_state =
  ts_latest_quorum_certificate :: bytes
  ts_prior_rank_timeout_certificate :: bytes
  ts_vote :: bytes
  ts_timeout_tick :: u64
  ts_timestamp :: u64

definition ts_to_canonical_bytes :: "timeout_state \<Rightarrow> bytes" where
  "ts_to_canonical_bytes m =
    u32_to_be_bytes TYPE_TIMEOUT_STATE @ put_lp (ts_latest_quorum_certificate m) @
    put_lp (ts_prior_rank_timeout_certificate m) @ put_lp (ts_vote m) @
    u64_to_be_bytes (ts_timeout_tick m) @ u64_to_be_bytes (ts_timestamp m)"

definition read_ts :: "timeout_state reader" where
  "read_ts bs =
    rbind (read_type TYPE_TIMEOUT_STATE bs) (\<lambda>(_, bs).
    rbind (read_lp bs) (\<lambda>(latest_quorum_certificate, bs).
    rbind (read_lp bs) (\<lambda>(prior_rank_timeout_certificate, bs).
    rbind (read_lp bs) (\<lambda>(vote, bs).
    rbind (read_u64 InvalidArgument bs) (\<lambda>(timeout_tick, bs).
    rbind (read_u64 InvalidArgument bs) (\<lambda>(timestamp, bs).
      Inr (\<lparr>ts_latest_quorum_certificate = latest_quorum_certificate,
        ts_prior_rank_timeout_certificate = prior_rank_timeout_certificate, ts_vote = vote,
        ts_timeout_tick = timeout_tick, ts_timestamp = timestamp\<rparr>, bs)))))))"

definition ts_from_canonical_bytes :: "bytes \<Rightarrow> timeout_state result" where
  "ts_from_canonical_bytes = whole read_ts"

definition ts_ok :: "timeout_state \<Rightarrow> bool" where
  "ts_ok m \<longleftrightarrow> small (ts_latest_quorum_certificate m) \<and> small (ts_prior_rank_timeout_certificate m) \<and>
    small (ts_vote m)"

interpretation ts: checked_codec ts_to_canonical_bytes read_ts ts_ok
  by unfold_locales
    (auto simp: ts_to_canonical_bytes_def read_ts_def ts_ok_def wire_append result_iff dest: wire_ok)

definition TYPE_TIMEOUT_CERTIFICATE :: u32 where "TYPE_TIMEOUT_CERTIFICATE = 0x031D"

record timeout_certificate =
  tc_filter :: bytes
  tc_rank :: u64
  tc_latest_ranks :: "u64 list"
  tc_latest_quorum_certificate :: bytes
  tc_timestamp :: u64
  tc_aggregate_signature :: bytes

definition tc_to_canonical_bytes :: "timeout_certificate \<Rightarrow> bytes" where
  "tc_to_canonical_bytes m =
    u32_to_be_bytes TYPE_TIMEOUT_CERTIFICATE @ put_lp (tc_filter m) @ u64_to_be_bytes (tc_rank m) @
    put_list u64_to_be_bytes (tc_latest_ranks m) @ put_lp (tc_latest_quorum_certificate m) @
    u64_to_be_bytes (tc_timestamp m) @ put_lp (tc_aggregate_signature m)"

definition read_tc :: "timeout_certificate reader" where
  "read_tc bs =
    rbind (read_type TYPE_TIMEOUT_CERTIFICATE bs) (\<lambda>(_, bs).
    rbind (read_lp bs) (\<lambda>(filter, bs).
    rbind (read_u64 InvalidArgument bs) (\<lambda>(rank, bs).
    rbind (read_u64s bs) (\<lambda>(latest_ranks, bs).
    rbind (read_lp bs) (\<lambda>(latest_quorum_certificate, bs).
    rbind (read_u64 InvalidArgument bs) (\<lambda>(timestamp, bs).
    rbind (read_lp bs) (\<lambda>(aggregate_signature, bs).
      Inr (\<lparr>tc_filter = filter, tc_rank = rank, tc_latest_ranks = latest_ranks,
        tc_latest_quorum_certificate = latest_quorum_certificate, tc_timestamp = timestamp,
        tc_aggregate_signature = aggregate_signature\<rparr>, bs))))))))"

definition tc_from_canonical_bytes :: "bytes \<Rightarrow> timeout_certificate result" where
  "tc_from_canonical_bytes = whole read_tc"

definition tc_ok :: "timeout_certificate \<Rightarrow> bool" where
  "tc_ok m \<longleftrightarrow> small (tc_filter m) \<and> length (tc_latest_ranks m) < 2 ^ 32 \<and>
    small (tc_latest_quorum_certificate m) \<and> small (tc_aggregate_signature m)"

interpretation tc: checked_codec tc_to_canonical_bytes read_tc tc_ok
  by unfold_locales
    (auto simp: tc_to_canonical_bytes_def read_tc_def tc_ok_def wire_append result_iff dest: wire_ok)

section \<open>Properties\<close>

text \<open>
  Each of the ten proof and consensus messages decodes from its own encoding exactly when its
  fields have 32-bit lengths.
\<close>

theorem consensus_messages_roundtrip:
  "(cm_from_canonical_bytes (cm_to_canonical_bytes m) = Inr m \<longleftrightarrow> cm_ok m) \<and>
   (cp_from_canonical_bytes (cp_to_canonical_bytes p) = Inr p \<longleftrightarrow> cp_ok p) \<and>
   (cs_from_canonical_bytes (cs_to_canonical_bytes s) = Inr s \<longleftrightarrow> cs_ok s) \<and>
   (ct_from_canonical_bytes (ct_to_canonical_bytes t) = Inr t \<longleftrightarrow> ct_ok t) \<and>
   (au_from_canonical_bytes (au_to_canonical_bytes u) = Inr u \<longleftrightarrow> au_ok u) \<and>
   (gp_from_canonical_bytes (gp_to_canonical_bytes g) = Inr g \<longleftrightarrow> gp_ok g) \<and>
   (ap_from_canonical_bytes (ap_to_canonical_bytes a) = Inr a \<longleftrightarrow> ap_ok a) \<and>
   (qc_from_canonical_bytes (qc_to_canonical_bytes q) = Inr q \<longleftrightarrow> qc_ok q) \<and>
   (ts_from_canonical_bytes (ts_to_canonical_bytes w) = Inr w \<longleftrightarrow> ts_ok w) \<and>
   (tc_from_canonical_bytes (tc_to_canonical_bytes c) = Inr c \<longleftrightarrow> tc_ok c)"
  by (simp add: cm_from_canonical_bytes_def cp_from_canonical_bytes_def cs_from_canonical_bytes_def ct_from_canonical_bytes_def au_from_canonical_bytes_def
      gp_from_canonical_bytes_def ap_from_canonical_bytes_def qc_from_canonical_bytes_def ts_from_canonical_bytes_def tc_from_canonical_bytes_def
      cm.whole_enc_iff cp.whole_enc_iff cs.whole_enc_iff ct.whole_enc_iff au.whole_enc_iff gp.whole_enc_iff ap.whole_enc_iff qc.whole_enc_iff ts.whole_enc_iff tc.whole_enc_iff)

end
