(* ===== verification/Envelope.thy ===== *)
theory Envelope
  imports Canonical
begin

text \<open>
  The message envelopes of \<^verbatim>\<open>message_envelope.rs\<close>: a request wraps the canonical bytes of one
  operation and is tagged with their type prefix, and a bundle is a timestamped list of requests,
  some of which may be absent.
\<close>

section \<open>Requests\<close>

definition TYPE_MESSAGE_REQUEST :: u32 where "TYPE_MESSAGE_REQUEST = 0x0311"
definition TYPE_MESSAGE_BUNDLE :: u32 where "TYPE_MESSAGE_BUNDLE = 0x0312"

record canonical_message_request =
  mr_inner_type_prefix :: u32
  mr_inner_bytes :: bytes

definition mr_to_canonical_bytes :: "canonical_message_request \<Rightarrow> bytes" where
  "mr_to_canonical_bytes r = u32_to_be_bytes TYPE_MESSAGE_REQUEST @ put_lp (mr_inner_bytes r)"

definition read_mr :: "canonical_message_request reader" where
  "read_mr bs =
    rbind (read_type TYPE_MESSAGE_REQUEST bs) (\<lambda>(_, bs).
    rbind (read_lp bs) (\<lambda>(inner_bytes, bs).
      if inner_bytes = [] then Inl InvalidArgument
      else if length inner_bytes < 4 then Inl InvalidArgument
      else Inr (\<lparr>mr_inner_type_prefix = u32_from_be_bytes (take 4 inner_bytes), mr_inner_bytes = inner_bytes\<rparr>, bs)))"

definition mr_from_canonical_bytes :: "bytes \<Rightarrow> canonical_message_request result" where
  "mr_from_canonical_bytes = whole read_mr"

definition mr_wrap :: "bytes \<Rightarrow> canonical_message_request result" where
  "mr_wrap inner_bytes =
    (if length inner_bytes < 4 then Inl InvalidArgument
     else Inr \<lparr>mr_inner_type_prefix = u32_from_be_bytes (take 4 inner_bytes), mr_inner_bytes = inner_bytes\<rparr>)"

definition mr_ok :: "canonical_message_request \<Rightarrow> bool" where
  "mr_ok r \<longleftrightarrow> 4 \<le> length (mr_inner_bytes r) \<and> length (mr_inner_bytes r) < 2 ^ 32 \<and>
    mr_inner_type_prefix r = u32_from_be_bytes (take 4 (mr_inner_bytes r))"

lemma length_mr [simp]: "length (mr_to_canonical_bytes r) = 8 + length (mr_inner_bytes r)"
  by (simp add: mr_to_canonical_bytes_def)

lemma mr_append: "mr_ok r \<Longrightarrow> read_mr (mr_to_canonical_bytes r @ bs) = Inr (r, bs)"
  by (cases r) (auto simp: mr_to_canonical_bytes_def read_mr_def mr_ok_def)

lemma read_mr_Inr: "read_mr bs = Inr (r, bs') \<Longrightarrow> mr_ok r \<and> length (mr_to_canonical_bytes r) + length bs' = length bs"
  by (auto simp: read_mr_def mr_ok_def result_iff read_type_Inr split: if_splits dest!: read_lp_length)

interpretation mreq: nested_codec mr_to_canonical_bytes read_mr mr_ok
proof unfold_locales
  show "mr_to_canonical_bytes r \<noteq> []" for r using length_mr [of r] by (metis add_is_0 list.size(3) zero_neq_numeral)
qed (auto simp: mr_append dest: read_mr_Inr simp del: length_mr)

lemma mr_wrap_ok: "mr_wrap inner = Inr r \<Longrightarrow> length inner < 2 ^ 32 \<Longrightarrow> mr_ok r \<and> mr_inner_bytes r = inner"
  by (auto simp: mr_wrap_def mr_ok_def split: if_splits)

section \<open>Bundles\<close>

record canonical_message_bundle =
  mb_requests :: "canonical_message_request option list"
  mb_timestamp :: i64

definition mb_to_canonical_bytes :: "canonical_message_bundle \<Rightarrow> bytes" where
  "mb_to_canonical_bytes b =
    u32_to_be_bytes TYPE_MESSAGE_BUNDLE @ put_list (put_opt mr_to_canonical_bytes) (mb_requests b) @
    put_i64 (mb_timestamp b)"

definition read_bundle_entry :: "canonical_message_request option reader" where
  "read_bundle_entry bs =
    rbind (read_u32 InvalidArgument bs) (\<lambda>(req_len, bs).
      if 0 < unat req_len then
        rbind (read_bytes InvalidArgument (unat req_len) bs) (\<lambda>(req_bytes, bs).
        rbind (mr_from_canonical_bytes req_bytes) (\<lambda>r. Inr (Some r, bs)))
      else Inr (None, bs))"

definition read_mb :: "canonical_message_bundle reader" where
  "read_mb bs =
    rbind (read_type TYPE_MESSAGE_BUNDLE bs) (\<lambda>(_, bs).
    rbind (read_u32 InvalidArgument bs) (\<lambda>(num_requests, bs).
    rbind (read_many (unat num_requests) read_bundle_entry bs) (\<lambda>(requests, bs).
    rbind (read_i64 bs) (\<lambda>(timestamp, bs).
      Inr (\<lparr>mb_requests = requests, mb_timestamp = timestamp\<rparr>, bs)))))"

definition mb_from_canonical_bytes :: "bytes \<Rightarrow> canonical_message_bundle result" where
  "mb_from_canonical_bytes = whole read_mb"

definition mb_entry_ok :: "canonical_message_request option \<Rightarrow> bool" where
  "mb_entry_ok x \<longleftrightarrow> pred_option (\<lambda>r. mr_ok r \<and> length (mr_to_canonical_bytes r) < 2 ^ 32) x"

definition mb_ok :: "canonical_message_bundle \<Rightarrow> bool" where
  "mb_ok b \<longleftrightarrow> length (mb_requests b) < 2 ^ 32 \<and> list_all mb_entry_ok (mb_requests b)"

text \<open>A bundle entry is an optional nested message whose length is capped by its 32 bits only.\<close>

lemma read_bundle_entry_opt: "read_bundle_entry bs = read_opt (2 ^ 32) mr_from_canonical_bytes bs"
proof -
  have "\<not> 2 ^ 32 < unat (n :: u32)" for n using less_imp_le [OF unat_u32_lt [of n]] by simp
  then show ?thesis
    unfolding read_bundle_entry_def read_opt_def
    by (intro arg_cong [where f = "rbind _"]) (auto simp: fun_eq_iff unat_gt_0)
qed

interpretation mbent: checked_codec "put_opt mr_to_canonical_bytes" read_bundle_entry mb_entry_ok
proof unfold_locales
  show "read_bundle_entry (put_opt mr_to_canonical_bytes x @ bs) = Inr (x, bs)" if "mb_entry_ok x" for x bs
    using that mreq.opt.dec_enc_append [of "2 ^ 32" x bs]
    by (cases x) (simp_all add: read_bundle_entry_opt mb_entry_ok_def mr_from_canonical_bytes_def)
  show "mb_entry_ok x" if "read_bundle_entry bs = Inr (x, bs')" for bs x bs'
    using that mreq.opt.dec_ok [of "2 ^ 32" bs x bs']
    by (cases x) (simp_all add: read_bundle_entry_opt mb_entry_ok_def mr_from_canonical_bytes_def)
qed

interpretation bndl: checked_codec mb_to_canonical_bytes read_mb mb_ok
  by unfold_locales
    (auto simp: mb_to_canonical_bytes_def read_mb_def mb_ok_def put_list_def mbent.many_append result_iff
      dest!: mbent.many_ok)

section \<open>Properties\<close>

text \<open>
  A request decodes from its own encoding exactly when its payload has at least four bytes, a
  32-bit length, and the type prefix it is tagged with; a bundle decodes from its own encoding
  exactly when all its requests do and still fit 32-bit lengths. Whatever a bundle decoder
  returns satisfies this.
\<close>

theorem envelope_roundtrip:
  "(mr_from_canonical_bytes (mr_to_canonical_bytes r) = Inr r \<longleftrightarrow> mr_ok r) \<and>
   (mb_from_canonical_bytes (mb_to_canonical_bytes b) = Inr b \<longleftrightarrow> mb_ok b) \<and>
   (mb_from_canonical_bytes bs = Inr b \<longrightarrow> mb_ok b)"
  using bndl.whole_ok
  by (auto simp: mr_from_canonical_bytes_def mb_from_canonical_bytes_def mreq.whole_enc_iff bndl.whole_enc_iff)

theorem envelope_roundtrip_witness:
  "let r = \<lparr>mr_inner_type_prefix = 0x0302, mr_inner_bytes = [0, 0, 3, 2, 9]\<rparr>;
       b = \<lparr>mb_requests = [Some r, None], mb_timestamp = - 5\<rparr>
   in mr_from_canonical_bytes (mr_to_canonical_bytes r) = Inr r \<and>
     mb_from_canonical_bytes (mb_to_canonical_bytes b) = Inr b \<and> mb_ok b"
proof -
  define r where "r = \<lparr>mr_inner_type_prefix = 0x0302, mr_inner_bytes = [0, 0, 3, 2, 9]\<rparr>"
  define b where "b = \<lparr>mb_requests = [Some r, None], mb_timestamp = - 5\<rparr>"
  have "u32_from_be_bytes [0, 0, 3, 2] = 0x0302" by code_simp
  then have "mr_ok r" by (simp add: mr_ok_def r_def)
  moreover from this have "mb_ok b" by (simp add: mb_ok_def b_def mb_entry_ok_def) (simp add: r_def)
  ultimately have "mr_from_canonical_bytes (mr_to_canonical_bytes r) = Inr r \<and>
     mb_from_canonical_bytes (mb_to_canonical_bytes b) = Inr b \<and> mb_ok b"
    using envelope_roundtrip [of r b "mb_to_canonical_bytes b"] by blast
  then show ?thesis by (simp add: Let_def b_def r_def)
qed

end
