(* ===== verification/PresenceReports.thy ===== *)
theory PresenceReports
  imports HandoffRecords FrameHeaders
begin

text \<open>
  The presence reports of \<^verbatim>\<open>global_intrinsic/handoff_presence.rs\<close>: notarize votes of the members of
  a session, grouped by the proposal they sign, with the frame header of each proposal. The
  decoder accepts one encoding of each header only and validates the report it has read.
\<close>

section \<open>Reports\<close>

definition TYPE_PRESENCE_REPORT :: u32 where "TYPE_PRESENCE_REPORT = 0x0322"
definition MAX_PRESENCE_PROPOSALS :: nat where "MAX_PRESENCE_PROPOSALS = 4"
definition MAX_PRESENCE_VOTES :: nat where "MAX_PRESENCE_VOTES = 64"
definition PRESENCE_VERSION :: byte where "PRESENCE_VERSION = 1"
definition SIGNATURE_BYTES :: nat where "SIGNATURE_BYTES = 666"

record notarize_vote =
  nv_signer :: u32
  nv_signature :: bytes

record presence_proposal =
  pz_header :: frame_header
  pz_epoch :: u64
  pz_view :: u64
  pz_parent :: u64
  pz_payload :: bytes
  pz_votes :: "notarize_vote list"

record presence_report =
  rp_session :: bytes
  rp_filter :: bytes
  rp_proposals :: "presence_proposal list"

definition vote_count :: "presence_report \<Rightarrow> nat" where
  "vote_count r = sum_list (map (\<lambda>p. length (pz_votes p)) (rp_proposals r))"

text \<open>The validation of a report, with the set of signers seen so far.\<close>

fun check_votes :: "u32 set \<Rightarrow> notarize_vote list \<Rightarrow> u32 set result" where
  "check_votes signers [] = Inr signers"
| "check_votes signers (v # vs) =
    (if length (nv_signature v) \<noteq> SIGNATURE_BYTES then Inl InvalidArgument
     else if nv_signer v \<in> signers then Inl InvalidArgument
     else check_votes (insert (nv_signer v) signers) vs)"

fun check_proposals :: "u32 set \<Rightarrow> presence_proposal list \<Rightarrow> unit result" where
  "check_proposals signers [] = Inr ()"
| "check_proposals signers (p # ps) =
    (if pz_votes p = [] then Inl InvalidArgument
     else if fh_signature (pz_header p) \<noteq> [] \<or> fh_storage_attestation (pz_header p) \<noteq> [] then Inl InvalidArgument
     else
       rbind (check_votes signers (pz_votes p)) (\<lambda>signers.
         if any_neighbours (\<lambda>a b. nv_signer b \<le> nv_signer a) (pz_votes p) then Inl InvalidArgument
         else check_proposals signers ps))"

definition report_validate :: "presence_report \<Rightarrow> unit result" where
  "report_validate r =
    (if \<not> (32 \<le> length (rp_filter r) \<and> length (rp_filter r) \<le> MAX_FILTER_BYTES) then Inl InvalidArgument
     else if rp_proposals r = [] \<or> MAX_PRESENCE_PROPOSALS < length (rp_proposals r) then Inl InvalidArgument
     else if any_neighbours (\<lambda>p q. pz_view q \<le> pz_view p) (rp_proposals r) then Inl InvalidArgument
     else if MAX_PRESENCE_VOTES < vote_count r then Inl InvalidArgument
     else check_proposals {} (rp_proposals r))"

definition put_vote :: "notarize_vote \<Rightarrow> bytes" where
  "put_vote v = u32_to_be_bytes (nv_signer v) @ nv_signature v"

fun put_proposals :: "bytes \<Rightarrow> presence_proposal list \<Rightarrow> bytes result" where
  "put_proposals out [] = Inr out"
| "put_proposals out (p # ps) =
    rbind (handoff_put_bytes (fh_to_canonical_bytes (pz_header p))) (\<lambda>header.
      let out = out @ header @ u64_to_be_bytes (pz_epoch p) @ u64_to_be_bytes (pz_view p) @ u64_to_be_bytes (pz_parent p) @
        pz_payload p @ u32_to_be_bytes (word_of_nat (length (pz_votes p))) @ concat (map put_vote (pz_votes p))
      in if MAX_RECORD_BYTES < length out then Inl InvalidArgument else put_proposals out ps)"

definition report_to_canonical_bytes :: "presence_report \<Rightarrow> bytes result" where
  "report_to_canonical_bytes r =
    rbind (report_validate r) (\<lambda>_.
    rbind (handoff_put_bytes (rp_filter r)) (\<lambda>filter_bytes.
      put_proposals (u32_to_be_bytes TYPE_PRESENCE_REPORT @ [PRESENCE_VERSION] @ rp_session r @ filter_bytes @
        u32_to_be_bytes (word_of_nat (length (rp_proposals r)))) (rp_proposals r)))"

definition read_vote :: "notarize_vote reader" where
  "read_vote bs =
    rbind (cursor_u32 bs) (\<lambda>(signer, bs).
    rbind (cursor_take SIGNATURE_BYTES bs) (\<lambda>(signature, bs).
      Inr (\<lparr>nv_signer = signer, nv_signature = signature\<rparr>, bs)))"

text \<open>The header decoder tolerates other layouts; a report admits one encoding of each header.\<close>

definition read_header :: "frame_header reader" where
  "read_header bs =
    rbind (cursor_bytes MAX_RECORD_BYTES bs) (\<lambda>(encoded, bs).
    rbind (fh_from_canonical_bytes encoded) (\<lambda>header.
      if fh_to_canonical_bytes header \<noteq> encoded then Inl InvalidArgument else Inr (header, bs)))"

definition read_proposal :: "presence_proposal reader" where
  "read_proposal bs =
    rbind (read_header bs) (\<lambda>(header, bs).
    rbind (cursor_u64 bs) (\<lambda>(epoch, bs).
    rbind (cursor_u64 bs) (\<lambda>(view, bs).
    rbind (cursor_u64 bs) (\<lambda>(parent, bs).
    rbind (cursor_take 32 bs) (\<lambda>(payload, bs).
    rbind (cursor_count MAX_PRESENCE_VOTES (4 + SIGNATURE_BYTES) bs) (\<lambda>(m, bs).
    rbind (read_many m read_vote bs) (\<lambda>(votes, bs).
      Inr (\<lparr>pz_header = header, pz_epoch = epoch, pz_view = view, pz_parent = parent, pz_payload = payload,
        pz_votes = votes\<rparr>, bs))))))))"

definition read_version :: "unit reader" where
  "read_version bs =
    rbind (cursor_u8 bs) (\<lambda>(v, bs). if v \<noteq> PRESENCE_VERSION then Inl InvalidArgument else Inr ((), bs))"

definition read_report :: "presence_report reader" where
  "read_report bs =
    rbind (cursor_magic (u32_to_be_bytes TYPE_PRESENCE_REPORT) bs) (\<lambda>(_, bs).
    rbind (read_version bs) (\<lambda>(_, bs).
    rbind (cursor_take 32 bs) (\<lambda>(session, bs).
    rbind (cursor_bytes MAX_FILTER_BYTES bs) (\<lambda>(filt, bs).
    rbind (cursor_count MAX_PRESENCE_PROPOSALS (4 + 3 * 8 + 32 + 4) bs) (\<lambda>(n, bs).
    rbind (read_many n read_proposal bs) (\<lambda>(proposals, bs).
      Inr (\<lparr>rp_session = session, rp_filter = filt, rp_proposals = proposals\<rparr>, bs)))))))"

definition report_from_canonical_bytes :: "bytes \<Rightarrow> presence_report result" where
  "report_from_canonical_bytes bs =
    rbind (decode_record read_report bs) (\<lambda>r. rbind (report_validate r) (\<lambda>_. Inr r))"

section \<open>What validation means\<close>

text \<open>The members that vote in a report, proposal by proposal.\<close>

definition report_signers :: "presence_proposal list \<Rightarrow> u32 list" where
  "report_signers ps = concat (map (\<lambda>p. map nv_signer (pz_votes p)) ps)"

definition proposal_valid :: "presence_proposal \<Rightarrow> bool" where
  "proposal_valid p \<longleftrightarrow> pz_votes p \<noteq> [] \<and> fh_signature (pz_header p) = [] \<and> fh_storage_attestation (pz_header p) = [] \<and>
    list_all (\<lambda>v. length (nv_signature v) = SIGNATURE_BYTES) (pz_votes p) \<and> sorted_wrt (<) (map nv_signer (pz_votes p))"

definition report_valid :: "presence_report \<Rightarrow> bool" where
  "report_valid r \<longleftrightarrow> 32 \<le> length (rp_filter r) \<and> length (rp_filter r) \<le> MAX_FILTER_BYTES \<and>
    rp_proposals r \<noteq> [] \<and> length (rp_proposals r) \<le> MAX_PRESENCE_PROPOSALS \<and>
    sorted_wrt (<) (map pz_view (rp_proposals r)) \<and> length (report_signers (rp_proposals r)) \<le> MAX_PRESENCE_VOTES \<and>
    distinct (report_signers (rp_proposals r)) \<and> list_all proposal_valid (rp_proposals r)"

lemma neighbours_map: "any_neighbours (\<lambda>a b. P (f a) (f b)) xs = any_neighbours P (map f xs)"
  by (induction P "map f xs" arbitrary: xs rule: any_neighbours.induct) auto

lemma neighbours_map_sorted: "\<not> any_neighbours (\<lambda>a b. f b \<le> f a) xs \<longleftrightarrow> sorted_wrt (<) (map f xs)"
  for f :: "'a \<Rightarrow> 'b::linorder"
  using neighbours_map [of "\<lambda>a b. b \<le> a" f xs] neighbours_sorted [of "map f xs"] by simp

lemma check_votes_iff:
  "check_votes S vs = Inr S' \<longleftrightarrow> list_all (\<lambda>v. length (nv_signature v) = SIGNATURE_BYTES) vs \<and>
    distinct (map nv_signer vs) \<and> set (map nv_signer vs) \<inter> S = {} \<and> S' = S \<union> set (map nv_signer vs)"
  by (induction vs arbitrary: S) auto

lemma check_proposals_iff:
  "check_proposals S ps = Inr () \<longleftrightarrow> list_all proposal_valid ps \<and> distinct (report_signers ps) \<and> set (report_signers ps) \<inter> S = {}"
proof (induction ps arbitrary: S)
  case Nil
  then show ?case by (simp add: report_signers_def)
next
  case (Cons p ps)
  have "sorted_wrt (<) (map nv_signer (pz_votes p)) \<Longrightarrow> distinct (map nv_signer (pz_votes p))"
    by (simp add: strict_sorted_iff)
  moreover have "report_signers (p # ps) = map nv_signer (pz_votes p) @ report_signers ps" by (simp add: report_signers_def)
  ultimately show ?case
    using Cons.IH neighbours_map_sorted [of nv_signer "pz_votes p"]
    by (auto simp: result_iff check_votes_iff proposal_valid_def Int_Un_distrib Int_Un_distrib2 Int_commute simp del: list_all_iff)
qed

lemma vote_count_signers: "vote_count r = length (report_signers (rp_proposals r))"
  by (simp add: vote_count_def report_signers_def length_concat comp_def)

lemma report_validate_iff: "report_validate r = Inr () \<longleftrightarrow> report_valid r"
  using neighbours_map_sorted [of pz_view "rp_proposals r"]
  by (auto simp: report_validate_def report_valid_def check_proposals_iff vote_count_signers not_less)

section \<open>Each report has one encoding\<close>

text \<open>The array lengths that the types carry, and headers that are in the form a header decoder returns.\<close>

definition header_exact :: "frame_header \<Rightarrow> bool" where
  "header_exact h \<longleftrightarrow> fh_from_canonical_bytes (fh_to_canonical_bytes h) = Inr h"

definition proposal_typed :: "presence_proposal \<Rightarrow> bool" where
  "proposal_typed p \<longleftrightarrow> header_exact (pz_header p) \<and> length (pz_payload p) = 32"

definition report_typed :: "presence_report \<Rightarrow> bool" where
  "report_typed r \<longleftrightarrow> length (rp_session r) = 32 \<and> list_all proposal_typed (rp_proposals r)"

definition proposal_bytes :: "presence_proposal \<Rightarrow> bytes" where
  "proposal_bytes p = put_lp (fh_to_canonical_bytes (pz_header p)) @ u64_to_be_bytes (pz_epoch p) @
    u64_to_be_bytes (pz_view p) @ u64_to_be_bytes (pz_parent p) @ pz_payload p @ put_list put_vote (pz_votes p)"

definition report_bytes :: "presence_report \<Rightarrow> bytes" where
  "report_bytes r = u32_to_be_bytes TYPE_PRESENCE_REPORT @ [PRESENCE_VERSION] @ rp_session r @ put_lp (rp_filter r) @
    put_list proposal_bytes (rp_proposals r)"

definition votes_ok :: "notarize_vote list \<Rightarrow> bool" where
  "votes_ok vs \<longleftrightarrow> length vs \<le> MAX_PRESENCE_VOTES \<and> list_all (\<lambda>v. length (nv_signature v) = SIGNATURE_BYTES) vs"

interpretation votec: strict_codec put_vote read_vote "\<lambda>v. length (nv_signature v) = SIGNATURE_BYTES"
proof unfold_locales
  fix bs v bs'
  show "read_vote bs = Inr (v, bs') \<longleftrightarrow> length (nv_signature v) = SIGNATURE_BYTES \<and> bs = put_vote v @ bs'"
    by (cases v) (auto simp: read_vote_def put_vote_def result_iff cursor_iff)
qed

lemma length_votes:
  "list_all (\<lambda>v. length (nv_signature v) = SIGNATURE_BYTES) vs \<Longrightarrow> length (concat (map put_vote vs)) = 670 * length vs"
  by (induction vs) (auto simp: put_vote_def SIGNATURE_BYTES_def)

interpretation hdrc: strict_codec "\<lambda>h. put_lp (fh_to_canonical_bytes h)" read_header
  "\<lambda>h. header_exact h \<and> length (fh_to_canonical_bytes h) \<le> MAX_RECORD_BYTES"
proof unfold_locales
  fix bs bs' :: bytes and h
  have "cursor_bytes MAX_RECORD_BYTES (put_lp (fh_to_canonical_bytes h) @ bs') = Inr (fh_to_canonical_bytes h, bs')"
    if "length (fh_to_canonical_bytes h) \<le> MAX_RECORD_BYTES"
    using that record_small [OF that] by (simp add: cursor_bytes_iff)
  then show "read_header bs = Inr (h, bs') \<longleftrightarrow>
      (header_exact h \<and> length (fh_to_canonical_bytes h) \<le> MAX_RECORD_BYTES) \<and> bs = put_lp (fh_to_canonical_bytes h) @ bs'"
    by (auto simp: read_header_def header_exact_def result_iff cursor_bytes_iff split: if_splits)
qed

interpretation propc: strict_codec proposal_bytes read_proposal
  "\<lambda>p. proposal_typed p \<and> length (fh_to_canonical_bytes (pz_header p)) \<le> MAX_RECORD_BYTES \<and> votes_ok (pz_votes p)"
proof unfold_locales
  fix bs bs' :: bytes and p
  have "length vs \<le> (length (concat (map put_vote vs)) + length bs') div (4 + SIGNATURE_BYTES)" and "length vs < 2 ^ 32"
    if "votes_ok vs" for vs
    using that by (auto simp: votes_ok_def length_votes MAX_PRESENCE_VOTES_def SIGNATURE_BYTES_def)
  then show "read_proposal bs = Inr (p, bs') \<longleftrightarrow>
      (proposal_typed p \<and> length (fh_to_canonical_bytes (pz_header p)) \<le> MAX_RECORD_BYTES \<and> votes_ok (pz_votes p)) \<and>
      bs = proposal_bytes p @ bs'"
    by (cases p) (auto simp: read_proposal_def proposal_bytes_def proposal_typed_def put_list_def result_iff
        cursor_iff votec.many_iff hdrc.dec_iff votes_ok_def)
qed

lemma read_version_iff: "read_version bs = Inr (u, bs') \<longleftrightarrow> bs = PRESENCE_VERSION # bs'"
  by (auto simp: read_version_def result_iff cursor_iff)

lemma length_proposals: "list_all proposal_typed ps \<Longrightarrow> 64 * length ps \<le> length (concat (map proposal_bytes ps))"
  by (induction ps) (auto simp: proposal_bytes_def proposal_typed_def put_list_def)

lemma read_report_iff:
  "read_report bs = Inr (r, bs') \<longleftrightarrow> report_typed r \<and> length (rp_filter r) \<le> MAX_FILTER_BYTES \<and>
    length (rp_proposals r) \<le> MAX_PRESENCE_PROPOSALS \<and>
    list_all (\<lambda>p. length (fh_to_canonical_bytes (pz_header p)) \<le> MAX_RECORD_BYTES \<and> votes_ok (pz_votes p)) (rp_proposals r) \<and>
    bs = report_bytes r @ bs'"
proof -
  have "length ps \<le> (length (concat (map proposal_bytes ps)) + length bs') div 64" if "list_all proposal_typed ps" for ps
    using length_proposals [OF that] by linarith
  moreover have "n < 2 ^ 32" if "n \<le> MAX_PRESENCE_PROPOSALS \<or> n \<le> MAX_FILTER_BYTES" for n
    using that by (auto simp: MAX_PRESENCE_PROPOSALS_def MAX_FILTER_BYTES_def)
  ultimately show ?thesis
    by (cases r) (auto simp: read_report_def report_bytes_def report_typed_def put_list_def result_iff cursor_iff
        read_version_iff propc.many_iff list_all_iff)
qed

lemma put_proposals_iff:
  "length out \<le> MAX_RECORD_BYTES \<Longrightarrow> put_proposals out ps = Inr bs \<longleftrightarrow>
    bs = out @ concat (map proposal_bytes ps) \<and> length bs \<le> MAX_RECORD_BYTES"
proof (induction ps arbitrary: out)
  case Nil
  then show ?case by auto
next
  case (Cons p ps)
  have out: "put_proposals out (p # ps) = Inr bs \<longleftrightarrow> length (fh_to_canonical_bytes (pz_header p)) < 2 ^ 32 \<and>
      length (out @ proposal_bytes p) \<le> MAX_RECORD_BYTES \<and> put_proposals (out @ proposal_bytes p) ps = Inr bs"
    by (auto simp: result_iff handoff_put_bytes_iff Let_def proposal_bytes_def put_list_def)
  have "length (fh_to_canonical_bytes (pz_header p)) \<le> length (proposal_bytes p)" by (simp add: proposal_bytes_def)
  then have "length (fh_to_canonical_bytes (pz_header p)) < 2 ^ 32" if "length (out @ proposal_bytes p) \<le> MAX_RECORD_BYTES"
    using that record_small [of "fh_to_canonical_bytes (pz_header p)"] by simp
  with out Cons.IH [of "out @ proposal_bytes p"] show ?case by auto
qed

lemma report_encode_iff:
  assumes "report_typed r"
  shows "report_to_canonical_bytes r = Inr bs \<longleftrightarrow> report_valid r \<and> bs = report_bytes r \<and> length bs \<le> MAX_RECORD_BYTES"
proof -
  have "length (rp_filter r) < 2 ^ 32" if "report_valid r" using that by (simp add: report_valid_def MAX_FILTER_BYTES_def)
  moreover have "length (u32_to_be_bytes TYPE_PRESENCE_REPORT @ [PRESENCE_VERSION] @ rp_session r @ put_lp (rp_filter r) @
      u32_to_be_bytes (word_of_nat (length (rp_proposals r)))) \<le> MAX_RECORD_BYTES" if "report_valid r"
    using that assms by (simp add: report_valid_def report_typed_def MAX_FILTER_BYTES_def MAX_RECORD_BYTES_def)
  ultimately show ?thesis
    by (auto simp: report_to_canonical_bytes_def result_iff report_validate_iff handoff_put_bytes_iff put_proposals_iff report_bytes_def
        put_list_def)
qed

lemma valid_votes_ok: "report_valid r \<Longrightarrow> p \<in> set (rp_proposals r) \<Longrightarrow> votes_ok (pz_votes p)"
proof -
  assume r: "report_valid r" and p: "p \<in> set (rp_proposals r)"
  have "length (pz_votes p) \<le> vote_count r"
    using p member_le_sum_list [of "length (pz_votes p)" "map (\<lambda>p. length (pz_votes p)) (rp_proposals r)"]
    by (simp add: vote_count_def)
  with r p show ?thesis
    by (auto simp: votes_ok_def report_valid_def vote_count_signers proposal_valid_def list_all_iff)
qed

lemma header_in_report: "p \<in> set ps \<Longrightarrow> length (fh_to_canonical_bytes (pz_header p)) \<le> length (concat (map proposal_bytes ps))"
  by (induction ps) (auto simp: proposal_bytes_def)

lemma report_decode_iff: "report_from_canonical_bytes bs = Inr r \<longleftrightarrow> report_typed r \<and> report_to_canonical_bytes r = Inr bs"
proof -
  have "read_report bs = Inr (r, []) \<longleftrightarrow> report_typed r \<and> bs = report_bytes r"
    if "report_valid r" "length bs \<le> MAX_RECORD_BYTES"
    using that valid_votes_ok [OF that(1)] header_in_report [of _ "rp_proposals r"]
    by (fastforce simp: read_report_iff report_valid_def list_all_iff report_bytes_def put_list_def)
  moreover have "report_typed r" if "read_report bs = Inr (r, bs')" for bs'
    using that by (simp add: read_report_iff)
  ultimately show ?thesis
    by (auto simp: report_from_canonical_bytes_def decode_record_def cursor_new_def cursor_finish_def result_iff
        report_validate_iff report_encode_iff split: if_splits)
qed

section \<open>Properties\<close>

text \<open>
  C29. Presence reports have exactly one encoding: a report decodes from some bytes exactly when
  those bytes are what its encoder writes and its headers are in the form a header decoder
  returns. A report is accepted exactly when it has one to four proposals in strictly ascending
  view order, no proposal without votes and no header with a certificate or storage openings, at
  most 64 votes with signatures of the right length, the signers of a proposal ascending and no
  signer twice in the whole report.
\<close>

theorem presence_report_canonical:
  "(report_from_canonical_bytes bs = Inr r \<longleftrightarrow> report_typed r \<and> report_to_canonical_bytes r = Inr bs) \<and>
   (report_validate r = Inr () \<longleftrightarrow> report_valid r)"
  by (simp add: report_decode_iff report_validate_iff)

end
