(* ===== verification/GlobalDispatch.thy ===== *)
theory GlobalDispatch
  imports ConfirmMessages ConsensusMessages Envelope PresenceReports
begin

text \<open>
  How an operation finds its decoder: the kinds of \<^verbatim>\<open>global_engine.rs\<close>, the routes of
  \<^verbatim>\<open>quil-engine/src/message_router.rs\<close>, and the dispatch of \<^verbatim>\<open>invoke_step\<close> and
  \<^verbatim>\<open>extract_prover_address\<close>. The handlers behind the dispatch are not modelled; the dispatch passes
  on what it decoded. The discriminator of vertex additions, a hash that each step computes first,
  is an argument.
\<close>

section \<open>Kinds of operation\<close>

datatype message_kind_global =
    ProverJoin | ProverLeave | ProverPause | ProverResume | ProverConfirm | ProverReject | ProverKick
  | ProverUpdate | Shard | SeniorityMerge | ShardSplit | ShardMerge | CommitteeHandoff | PresenceReport

primrec type_prefix :: "message_kind_global \<Rightarrow> u32" where
  "type_prefix ProverJoin = TYPE_PROVER_JOIN"
| "type_prefix ProverLeave = TYPE_PROVER_LEAVE"
| "type_prefix ProverPause = TYPE_PROVER_PAUSE"
| "type_prefix ProverResume = TYPE_PROVER_RESUME"
| "type_prefix ProverConfirm = TYPE_PROVER_CONFIRM"
| "type_prefix ProverReject = TYPE_PROVER_REJECT"
| "type_prefix ProverKick = TYPE_PROVER_KICK"
| "type_prefix ProverUpdate = TYPE_PROVER_UPDATE"
| "type_prefix Shard = TYPE_FRAME_HEADER"
| "type_prefix SeniorityMerge = TYPE_SENIORITY_MERGE"
| "type_prefix ShardSplit = TYPE_SHARD_SPLIT"
| "type_prefix ShardMerge = TYPE_SHARD_MERGE"
| "type_prefix CommitteeHandoff = TYPE_COMMITTEE_HANDOFF"
| "type_prefix PresenceReport = TYPE_PRESENCE_REPORT"

definition all_kinds :: "message_kind_global list" where
  "all_kinds = [ProverJoin, ProverLeave, ProverPause, ProverResume, ProverConfirm, ProverReject, ProverKick,
    ProverUpdate, Shard, SeniorityMerge, ShardSplit, ShardMerge, CommitteeHandoff, PresenceReport]"

definition message_prefix :: "bytes \<Rightarrow> u32" where
  "message_prefix input = u32_from_be_bytes (take 4 input)"

definition peek_global_message_kind :: "bytes \<Rightarrow> message_kind_global result" where
  "peek_global_message_kind input =
    (if length input < 4 then Inl InvalidArgument
     else let p = message_prefix input in
       if p = TYPE_PROVER_JOIN then Inr ProverJoin
       else if p = TYPE_PROVER_LEAVE then Inr ProverLeave
       else if p = TYPE_PROVER_PAUSE then Inr ProverPause
       else if p = TYPE_PROVER_RESUME then Inr ProverResume
       else if p = TYPE_PROVER_CONFIRM then Inr ProverConfirm
       else if p = TYPE_PROVER_REJECT then Inr ProverReject
       else if p = TYPE_PROVER_KICK then Inr ProverKick
       else if p = TYPE_PROVER_UPDATE then Inr ProverUpdate
       else if p = TYPE_FRAME_HEADER then Inr Shard
       else if p = TYPE_SENIORITY_MERGE then Inr SeniorityMerge
       else if p = TYPE_SHARD_SPLIT then Inr ShardSplit
       else if p = TYPE_SHARD_MERGE then Inr ShardMerge
       else if p = TYPE_COMMITTEE_HANDOFF then Inr CommitteeHandoff
       else if p = TYPE_PRESENCE_REPORT then Inr PresenceReport
       else Inl InvalidArgument)"

definition is_global_type_prefix :: "u32 \<Rightarrow> bool" where
  "is_global_type_prefix tp \<longleftrightarrow>
    tp = TYPE_PROVER_JOIN \<or> tp = TYPE_PROVER_LEAVE \<or> tp = TYPE_PROVER_PAUSE \<or> tp = TYPE_PROVER_RESUME \<or>
    tp = TYPE_PROVER_CONFIRM \<or> tp = TYPE_PROVER_REJECT \<or> tp = TYPE_PROVER_KICK \<or> tp = TYPE_PROVER_UPDATE \<or>
    tp = TYPE_FRAME_HEADER \<or> tp = TYPE_SENIORITY_MERGE \<or> tp = TYPE_SHARD_SPLIT \<or> tp = TYPE_SHARD_MERGE \<or>
    tp = TYPE_COMMITTEE_HANDOFF \<or> tp = TYPE_PRESENCE_REPORT"

lemmas type_defs =
  TYPE_PROVER_JOIN_def TYPE_PROVER_LEAVE_def TYPE_PROVER_PAUSE_def TYPE_PROVER_RESUME_def TYPE_PROVER_CONFIRM_def
  TYPE_PROVER_REJECT_def TYPE_PROVER_KICK_def TYPE_PROVER_UPDATE_def TYPE_FRAME_HEADER_def TYPE_SENIORITY_MERGE_def
  TYPE_SHARD_SPLIT_def TYPE_SHARD_MERGE_def TYPE_COMMITTEE_HANDOFF_def TYPE_PRESENCE_REPORT_def
  TYPE_PROVER_SENIORITY_MERGE_def TYPE_ALT_SHARD_UPDATE_def

lemma type_prefix_inj: "type_prefix j = type_prefix k \<Longrightarrow> j = k"
  by (cases j; cases k) (simp_all add: type_defs)

lemma peek_iff: "peek_global_message_kind input = Inr k \<longleftrightarrow> 4 \<le> length input \<and> message_prefix input = type_prefix k"
proof
  assume "peek_global_message_kind input = Inr k"
  then show "4 \<le> length input \<and> message_prefix input = type_prefix k"
    by (auto simp: peek_global_message_kind_def Let_def split: if_split_asm)
next
  assume "4 \<le> length input \<and> message_prefix input = type_prefix k"
  then show "peek_global_message_kind input = Inr k"
    by (cases k) (simp_all add: peek_global_message_kind_def type_defs)
qed

lemma is_global_iff: "is_global_type_prefix tp \<longleftrightarrow> tp \<in> type_prefix ` set all_kinds"
  by (auto simp: is_global_type_prefix_def all_kinds_def)

lemma all_kinds_complete: "set all_kinds = UNIV"
proof -
  have "k \<in> set all_kinds" for k by (cases k) (simp_all add: all_kinds_def)
  then show ?thesis by blast
qed

section \<open>Routes\<close>

definition TYPE_PROPOSAL_VOTE :: u32 where "TYPE_PROPOSAL_VOTE = 0x030C"

datatype message_route =
  RConsensus | RGlobalProverOp | RShardManagement | RHypergraphOp | RAppShardOp | RBundle | RUnknown

definition is_hypergraph_type_prefix :: "u32 \<Rightarrow> bool" where
  "is_hypergraph_type_prefix tp \<longleftrightarrow>
    tp = 0x0402 \<or> tp = 0x0403 \<or> tp = 0x0401 \<or> tp = 0x0404 \<or> tp = 0x0405 \<or> tp = 0x0406 \<or> tp = 0x0407"

definition classify_inner_type :: "u32 \<Rightarrow> message_route" where
  "classify_inner_type tp =
    (if tp = TYPE_GLOBAL_PROPOSAL \<or> tp = TYPE_APP_SHARD_PROPOSAL \<or> tp = TYPE_QUORUM_CERTIFICATE \<or>
        tp = TYPE_TIMEOUT_STATE \<or> tp = TYPE_TIMEOUT_CERTIFICATE \<or> tp = TYPE_PROPOSAL_VOTE then RConsensus
     else if tp = TYPE_PROVER_JOIN \<or> tp = TYPE_PROVER_LEAVE \<or> tp = TYPE_PROVER_PAUSE \<or> tp = TYPE_PROVER_RESUME \<or>
        tp = TYPE_PROVER_CONFIRM \<or> tp = TYPE_PROVER_REJECT \<or> tp = TYPE_PROVER_KICK \<or> tp = TYPE_PROVER_UPDATE \<or>
        tp = TYPE_SENIORITY_MERGE then RGlobalProverOp
     else if tp = TYPE_FRAME_HEADER \<or> tp = TYPE_SHARD_SPLIT \<or> tp = TYPE_SHARD_MERGE then RShardManagement
     else if is_hypergraph_type_prefix tp then RHypergraphOp
     else if drop_bit 8 tp = 0x05 \<or> drop_bit 8 tp = 0x06 then RAppShardOp
     else RUnknown)"

definition classify_message :: "bytes \<Rightarrow> message_route result" where
  "classify_message bs =
    (if length bs < 4 then Inl InvalidArgument
     else let tp = message_prefix bs in
       if tp = TYPE_MESSAGE_BUNDLE then Inr RBundle
       else if tp = TYPE_MESSAGE_REQUEST then
         (case mr_from_canonical_bytes bs of
           Inr req \<Rightarrow> Inr (classify_inner_type (mr_inner_type_prefix req))
         | Inl _ \<Rightarrow> Inr RUnknown)
       else Inr (classify_inner_type tp))"

section \<open>The dispatch of an execution step\<close>

datatype global_op =
    OpPause prover_pause | OpResume prover_resume | OpLeave prover_leave | OpConfirm prover_confirm
  | OpReject prover_reject | OpJoin prover_join | OpKick prover_kick | OpUpdate prover_update
  | OpSeniorityMerge prover_seniority_merge | OpFrameHeader frame_header | OpCommitteeHandoff seal_submission
  | OpPresenceReport presence_report | OpShardSplit shard_split | OpShardMerge shard_merge | OpAltShardUpdate alt_shard_update

definition rmap :: "('a \<Rightarrow> 'b) \<Rightarrow> 'a result \<Rightarrow> 'b result" where
  "rmap f r = rbind r (\<lambda>x. Inr (f x))"

definition invoke_step_op :: "bytes result \<Rightarrow> u64 \<Rightarrow> bytes \<Rightarrow> global_op result" where
  "invoke_step_op vertex_adds_discriminator release_frame input =
    (if length input < 4 then Inl InvalidArgument
     else let tp = message_prefix input in rbind vertex_adds_discriminator (\<lambda>_.
       if tp = TYPE_PROVER_PAUSE then rmap OpPause (pause_from_canonical_bytes input)
       else if tp = TYPE_PROVER_RESUME then rmap OpResume (resume_from_canonical_bytes input)
       else if tp = TYPE_PROVER_LEAVE then rmap OpLeave (leave_from_canonical_bytes input)
       else if tp = TYPE_PROVER_CONFIRM then rmap OpConfirm (confirm_from_canonical_bytes release_frame input)
       else if tp = TYPE_PROVER_REJECT then rmap OpReject (reject_from_canonical_bytes input)
       else if tp = TYPE_PROVER_JOIN then rmap OpJoin (join_from_canonical_bytes input)
       else if tp = TYPE_PROVER_KICK then rmap OpKick (kick_from_canonical_bytes input)
       else if tp = TYPE_PROVER_UPDATE then rmap OpUpdate (update_from_canonical_bytes input)
       else if tp = TYPE_SENIORITY_MERGE then rmap OpSeniorityMerge (ps_from_canonical_bytes input)
       else if tp = TYPE_FRAME_HEADER then rmap OpFrameHeader (fh_from_canonical_bytes input)
       else if tp = TYPE_COMMITTEE_HANDOFF then rmap OpCommitteeHandoff (sb_from_canonical_bytes input)
       else if tp = TYPE_PRESENCE_REPORT then rmap OpPresenceReport (report_from_canonical_bytes input)
       else if tp = TYPE_SHARD_SPLIT then rmap OpShardSplit (split_from_canonical_bytes input)
       else if tp = TYPE_SHARD_MERGE then rmap OpShardMerge (merge_from_canonical_bytes input)
       else if tp = TYPE_ALT_SHARD_UPDATE then rmap OpAltShardUpdate (au_from_canonical_bytes input)
       else Inl InvalidArgument))"

section \<open>Operations on the wire\<close>





lemma prefix_of_tagged: "message_prefix (u32_to_be_bytes t @ bs) = t"
  by (simp add: message_prefix_def)







section \<open>The signer of an operation\<close>






section \<open>Properties\<close>

text \<open>
  The kind that peeking at a message finds is the kind whose type prefix the message starts
  with, no two kinds share a prefix, and the prefixes recognised as global are exactly those of the
  fourteen kinds.
\<close>

lemma kinds_and_prefixes:
  "(peek_global_message_kind input = Inr k \<longleftrightarrow> 4 \<le> length input \<and> message_prefix input = type_prefix k) \<and>
   inj type_prefix \<and> (is_global_type_prefix tp \<longleftrightarrow> tp \<in> range type_prefix)"
  using type_prefix_inj by (auto simp: peek_iff is_global_iff all_kinds_complete inj_def)





text \<open>
  C17. A seniority merge is never executed: whatever the input, the dispatch of an execution step
  does not hand out a seniority merge, because it looks for the prefix of the merge target record
  and then decodes a message that starts with another prefix. An encoded seniority merge is
  refused by the dispatch, is of no known kind, and has no route.
\<close>

theorem seniority_merge_unreachable:
  "invoke_step_op disc rf input \<noteq> Inr (OpSeniorityMerge m) \<and>
   (\<nexists>op. invoke_step_op disc rf (ps_to_canonical_bytes m) = Inr op) \<and>
   peek_global_message_kind (ps_to_canonical_bytes m) = Inl InvalidArgument \<and>
   classify_message (ps_to_canonical_bytes m) = Inr RUnknown"
proof -
  have len: "4 \<le> length (ps_to_canonical_bytes m)" and pre: "message_prefix (ps_to_canonical_bytes m) = TYPE_PROVER_SENIORITY_MERGE"
    by (simp_all add: ps_to_canonical_bytes_def prefix_of_tagged)
  have "message_prefix input = TYPE_PROVER_SENIORITY_MERGE" if "ps_from_canonical_bytes input = Inr m"
    using that by (auto simp: ps_from_canonical_bytes_def whole_def read_ps_def result_iff read_type_Inr message_prefix_def)
  then have "invoke_step_op disc rf input \<noteq> Inr (OpSeniorityMerge m)"
    by (auto simp: invoke_step_op_def Let_def rmap_def result_iff type_defs split: if_split_asm)
  moreover have "peek_global_message_kind (ps_to_canonical_bytes m) = Inl InvalidArgument"
    using len by (simp add: peek_global_message_kind_def pre type_defs)
  moreover have "invoke_step_op disc rf (ps_to_canonical_bytes m) \<noteq> Inr op" for op
    using len by (auto simp: invoke_step_op_def pre type_defs result_iff)
  ultimately show ?thesis
    using len
    by (simp add: classify_message_def classify_inner_type_def pre type_defs is_hypergraph_type_prefix_def
        TYPE_MESSAGE_BUNDLE_def TYPE_MESSAGE_REQUEST_def TYPE_GLOBAL_PROPOSAL_def TYPE_APP_SHARD_PROPOSAL_def
        TYPE_QUORUM_CERTIFICATE_def TYPE_TIMEOUT_STATE_def TYPE_TIMEOUT_CERTIFICATE_def TYPE_PROPOSAL_VOTE_def)
qed

end
