(* ===== verification/GlobalExecution.thy ===== *)
theory GlobalExecution
  imports StateChanges GlobalDispatch
begin

text \<open>
  How the execution engines run a message over a changeset (\<^verbatim>\<open>quil-execution/src/engines.rs\<close>): the
  savepoints around each step, the rollback of a failed one, and the publication of the accepted
  changes. The step itself is an argument, as it is in \<^verbatim>\<open>run_token_bundle\<close>: a function from the state
  to the state it leaves and its result. A panic unwinds through the engine, so none of its rollbacks
  runs; the model keeps it apart from the errors that the code handles.
\<close>

section \<open>Steps and their completion\<close>

type_synonym step = "u64 \<Rightarrow> bytes \<Rightarrow> hstate \<Rightarrow> hstate \<times> unit result"

definition is_execution_unavailable :: "quil_error \<Rightarrow> bool" where
  "is_execution_unavailable err \<longleftrightarrow> err = Store \<or> err = Io \<or> err = ExecutionUnavailable"

definition finish_token_step :: "nat \<Rightarrow> hstate \<times> unit result \<Rightarrow> hstate \<times> unit result" where
  "finish_token_step savepoint out =
    (case out of
       (st, Inl err) \<Rightarrow> if err = Panic then (st, Inl Panic) else (rollback_to savepoint st, Inl err)
     | (st, Inr _) \<Rightarrow> (st, Inr ()))"

definition finish_global_step :: "hstate \<Rightarrow> nat \<Rightarrow> quil_error \<Rightarrow> hstate \<times> unit result" where
  "finish_global_step st checkpoint err =
    (if err = Panic then (st, Inl Panic)
     else (rollback_to checkpoint st, if is_execution_unavailable err then Inl err else Inr ()))"

definition publish_execution_changes :: "exec_env \<Rightarrow> nat \<Rightarrow> hstate option \<Rightarrow> hstate option \<times> unit result" where
  "publish_execution_changes e checkpoint state =
    (case state of
       None \<Rightarrow> (None, Inr ())
     | Some st \<Rightarrow>
         (case state_commit e st of
            (st', Inl err) \<Rightarrow> (Some (if err = Panic then st' else rollback_to checkpoint st'), Inl err)
          | (st', Inr _) \<Rightarrow> (Some (state_abort st'), Inr ())))"

section \<open>Global messages\<close>

definition invoke :: "step option \<Rightarrow> u64 \<Rightarrow> bytes \<Rightarrow> u32 \<Rightarrow> hstate option \<Rightarrow> hstate option \<times> unit result" where
  "invoke intrinsic frame_number inner_bytes inner_tp state =
    (if (inner_tp = TYPE_COMMITTEE_HANDOFF \<or> inner_tp = TYPE_PRESENCE_REPORT) \<and> (intrinsic = None \<or> state = None)
     then (state, Inl ExecutionUnavailable)
     else if \<not> is_global_type_prefix inner_tp then (state, Inr ())
     else case (intrinsic, state) of
       (Some invoke_step, Some st) \<Rightarrow>
         (let step_checkpoint = changeset_len st in
          case invoke_step frame_number inner_bytes st of
            (st', Inl err) \<Rightarrow> map_prod Some id (finish_global_step st' step_checkpoint err)
          | (st', Inr _) \<Rightarrow> (Some st', Inr ()))
     | _ \<Rightarrow> (state, Inr ()))"

primrec invoke_all :: "step option \<Rightarrow> u64 \<Rightarrow> canonical_message_request list \<Rightarrow> hstate option \<Rightarrow> hstate option \<times> unit result" where
  "invoke_all intrinsic frame_number [] state = (state, Inr ())"
| "invoke_all intrinsic frame_number (r # rs) state =
    (case invoke intrinsic frame_number (mr_inner_bytes r) (mr_inner_type_prefix r) state of
       (state', Inl err) \<Rightarrow> (state', Inl err)
     | (state', Inr _) \<Rightarrow> invoke_all intrinsic frame_number rs state')"

definition flatten :: "'a option list \<Rightarrow> 'a list" where
  "flatten xs = List.map_filter id xs"

definition settle :: "exec_env \<Rightarrow> nat \<Rightarrow> hstate option \<times> unit result \<Rightarrow> hstate option \<times> unit result" where
  "settle e checkpoint result =
    (case result of
       (state, Inl err) \<Rightarrow> (if err = Panic then state else map_option (rollback_to checkpoint) state, Inl err)
     | (state, Inr _) \<Rightarrow> publish_execution_changes e checkpoint state)"

text \<open>A message that does not decode returns at once; any other error is rolled back.\<close>

definition process_message :: "exec_env \<Rightarrow> step option \<Rightarrow> u64 \<Rightarrow> bytes \<Rightarrow> hstate option \<Rightarrow> hstate option \<times> unit result" where
  "process_message e intrinsic frame_number message state =
    (if length message < 4 then (state, Inr ())
     else
       let tp = u32_from_be_bytes (take 4 message);
           checkpoint = (case state of Some st \<Rightarrow> changeset_len st | None \<Rightarrow> 0) in
       if tp = TYPE_MESSAGE_BUNDLE then
         (case mb_from_canonical_bytes message of
            Inl err \<Rightarrow> (state, Inl err)
          | Inr bundle \<Rightarrow> settle e checkpoint (invoke_all intrinsic frame_number (flatten (mb_requests bundle)) state))
       else if tp = TYPE_MESSAGE_REQUEST then
         (case mr_from_canonical_bytes message of
            Inl err \<Rightarrow> (state, Inl err)
          | Inr request \<Rightarrow>
              settle e checkpoint (invoke intrinsic frame_number (mr_inner_bytes request) (mr_inner_type_prefix request) state))
       else settle e checkpoint (state, Inl InvalidArgument))"

section \<open>Token bundles\<close>

primrec run_each :: "(bytes \<Rightarrow> u32 \<Rightarrow> hstate \<Rightarrow> hstate \<times> unit result) \<Rightarrow> canonical_message_request list \<Rightarrow> hstate \<Rightarrow> hstate \<times> unit result" where
  "run_each run_one [] st = (st, Inr ())"
| "run_each run_one (r # rs) st =
    (case run_one (mr_inner_bytes r) (mr_inner_type_prefix r) st of
       (st', Inl err) \<Rightarrow> (st', Inl err)
     | (st', Inr _) \<Rightarrow> run_each run_one rs st')"

definition run_token_bundle ::
  "(bytes \<Rightarrow> u32 \<Rightarrow> hstate \<Rightarrow> hstate \<times> unit result) \<Rightarrow> canonical_message_bundle \<Rightarrow> hstate \<Rightarrow> hstate \<times> unit result" where
  "run_token_bundle run_one bundle st =
    (let checkpoint = changeset_len st in
     case run_each run_one (flatten (mb_requests bundle)) st of
       (st', Inl err) \<Rightarrow> (if err = Panic then st' else rollback_to checkpoint st', Inl err)
     | (st', Inr _) \<Rightarrow> (st', Inr ()))"

section \<open>Shard maintenance\<close>

definition engine_apply_due_shard_changes ::
  "exec_env \<Rightarrow> (u64 \<Rightarrow> hstate \<Rightarrow> hstate \<times> unit result) \<Rightarrow> (u64 \<Rightarrow> hstate \<Rightarrow> hstate \<times> unit result) \<Rightarrow> u64 \<Rightarrow> hstate \<Rightarrow> hstate \<times> unit result" where
  "engine_apply_due_shard_changes e apply_due maybe_reset frame_number st =
    (let checkpoint = changeset_len st;
         result = (case apply_due frame_number st of
             (st1, Inl err) \<Rightarrow> (st1, Inl err)
           | (st1, Inr _) \<Rightarrow> (case maybe_reset frame_number st1 of
               (st2, Inl err) \<Rightarrow> (st2, Inl err)
             | (st2, Inr _) \<Rightarrow> state_commit e st2))
     in case result of
       (st', Inl err) \<Rightarrow> (if err = Panic then st' else rollback_to checkpoint st', Inl err)
     | (st', Inr _) \<Rightarrow> (state_abort st', Inr ()))"

section \<open>Transactions\<close>

text \<open>
  What the savepoints are for. \<open>accepted\<close> runs the requests in order on the state without any
  rollback: a request that is not for this engine changes nothing, a rejected one is as if it had not
  been sent, and a failure of the infrastructure ends the run. \<open>transaction\<close> either publishes the
  result and clears the changeset or leaves the state alone.
\<close>

primrec accepted :: "step \<Rightarrow> u64 \<Rightarrow> canonical_message_request list \<Rightarrow> hstate \<Rightarrow> hstate result" where
  "accepted invoke_step f [] st = Inr st"
| "accepted invoke_step f (r # rs) st =
    (if \<not> is_global_type_prefix (mr_inner_type_prefix r) then accepted invoke_step f rs st
     else case invoke_step f (mr_inner_bytes r) st of
       (st', Inr _) \<Rightarrow> accepted invoke_step f rs st'
     | (_, Inl err) \<Rightarrow> if is_execution_unavailable err \<or> err = Panic then Inl err else accepted invoke_step f rs st)"

definition transaction :: "exec_env \<Rightarrow> hstate \<Rightarrow> hstate result \<Rightarrow> hstate \<times> unit result" where
  "transaction e st r =
    (case r of
       Inl err \<Rightarrow> (st, Inl err)
     | Inr st1 \<Rightarrow> (case state_commit e st1 of
         (st2, Inr _) \<Rightarrow> (state_abort st2, Inr ())
       | (_, Inl err) \<Rightarrow> (st, Inl err)))"

definition message_requests :: "bytes \<Rightarrow> canonical_message_request list result" where
  "message_requests message =
    (let tp = u32_from_be_bytes (take 4 message) in
     if tp = TYPE_MESSAGE_BUNDLE then rbind (mb_from_canonical_bytes message) (\<lambda>b. Inr (flatten (mb_requests b)))
     else if tp = TYPE_MESSAGE_REQUEST then rbind (mr_from_canonical_bytes message) (\<lambda>r. Inr [r])
     else Inl InvalidArgument)"

definition only_writes :: "exec_env \<Rightarrow> step \<Rightarrow> bool" where
  "only_writes e invoke_step \<longleftrightarrow> (\<forall>f b st. writes e st (fst (invoke_step f b st)))"

lemma handoff_types_global: "tp = TYPE_COMMITTEE_HANDOFF \<or> tp = TYPE_PRESENCE_REPORT \<Longrightarrow> is_global_type_prefix tp"
  by (auto simp: is_global_type_prefix_def)

lemma invoke_step_state:
  assumes "only_writes e invoke_step"
  shows "invoke (Some invoke_step) f b tp (Some st) =
    (if \<not> is_global_type_prefix tp then (Some st, Inr ())
     else case invoke_step f b st of
       (st', Inr _) \<Rightarrow> (Some st', Inr ())
     | (st', Inl err) \<Rightarrow> if err = Panic then (Some st', Inl Panic)
         else (Some st, if is_execution_unavailable err then Inl err else Inr ()))"
proof -
  have "rollback_to (changeset_len st) st' = st" if "invoke_step f b st = (st', r)" for st' r
    using assms that rollback_appends writes_appends unfolding only_writes_def by (metis fst_conv)
  then show ?thesis
    by (auto simp: invoke_def finish_global_step_def Let_def split: prod.splits sum.splits)
qed

lemma invoke_appends:
  assumes "only_writes e invoke_step" "invoke (Some invoke_step) f b tp (Some st) = (s', r)"
  obtains st' where "s' = Some st'" "appends st st'"
proof -
  have "appends st (fst (invoke_step f b st))"
    using assms(1) writes_appends unfolding only_writes_def by blast
  then have "\<exists>st'. s' = Some st' \<and> appends st st'"
    using assms(2) unfolding invoke_step_state [OF assms(1)]
    by (auto intro: appends_refl split: prod.splits sum.splits if_splits)
  then show ?thesis using that by blast
qed

lemma invoke_all_accepted:
  assumes "only_writes e invoke_step" "invoke_all (Some invoke_step) f rs (Some st) = (s', r)" "r \<noteq> Inl Panic"
  shows "\<exists>st'. s' = Some st' \<and> appends st st' \<and>
    (case r of Inr _ \<Rightarrow> accepted invoke_step f rs st = Inr st' | Inl err \<Rightarrow> accepted invoke_step f rs st = Inl err)"
  using assms(2)
proof (induction rs arbitrary: st)
  case (Cons x rs)
  obtain s1 r1 where one: "invoke (Some invoke_step) f (mr_inner_bytes x) (mr_inner_type_prefix x) (Some st) = (s1, r1)"
    by fastforce
  from assms(1) one obtain st1 where st1: "s1 = Some st1" "appends st st1" by (rule invoke_appends)
  show ?case
  proof (cases r1)
    case (Inl err)
    with Cons.prems one assms(3) have "r = Inl err" "s' = s1" "err \<noteq> Panic" by auto
    with one Inl st1 show ?thesis
      unfolding invoke_step_state [OF assms(1)] by (auto split: prod.splits sum.splits if_splits)
  next
    case (Inr u)
    with Cons.prems one st1(1) have "invoke_all (Some invoke_step) f rs (Some st1) = (s', r)" by simp
    from Cons.IH [OF this] obtain st' where st': "s' = Some st'" "appends st1 st'"
      "case r of Inr _ \<Rightarrow> accepted invoke_step f rs st1 = Inr st' | Inl err \<Rightarrow> accepted invoke_step f rs st1 = Inl err" by blast
    have "accepted invoke_step f (x # rs) st = accepted invoke_step f rs st1"
      using one Inr st1(1) unfolding invoke_step_state [OF assms(1)]
      by (auto split: prod.splits sum.splits if_splits)
    with st' appends_trans [OF st1(2) st'(2)] show ?thesis by (cases r) (simp_all del: accepted.simps)
  qed
qed (auto intro: appends_refl)

lemma settle_transaction:
  assumes "appends st st1" "snd (settle e (changeset_len st) (Some st1, r)) \<noteq> Inl Panic"
  shows "settle e (changeset_len st) (Some st1, r) = map_prod Some id (transaction e st (rbind r (\<lambda>_. Inr st1)))"
proof -
  have "rollback_to (changeset_len st) st1 = st" using assms(1) by (rule rollback_appends)
  moreover have "st2 = st1" if "state_commit e st1 = (st2, Inl err)" for st2 err
    using that by (auto simp: state_commit_def split: sum.splits)
  ultimately show ?thesis
    using assms(2)
    by (auto simp: settle_def transaction_def publish_execution_changes_def split: sum.splits prod.splits option.splits if_splits)
qed

lemma invoke_single: "invoke_all i f [r] s = invoke i f (mr_inner_bytes r) (mr_inner_type_prefix r) s"
  by (auto split: prod.splits sum.splits)

lemma process_message_requests:
  assumes "4 \<le> length message"
  shows "process_message e i f message (Some st) =
    (case message_requests message of
       Inl err \<Rightarrow> (Some st, Inl err)
     | Inr rs \<Rightarrow> settle e (changeset_len st) (invoke_all i f rs (Some st)))"
proof -
  have "settle e (changeset_len st) (Some st, Inl InvalidArgument) = (Some st, Inl InvalidArgument)"
    by (simp add: settle_def rollback_to_def changeset_len_def)
  with assms show ?thesis
    by (simp add: process_message_def message_requests_def Let_def invoke_single del: invoke_all.simps split: sum.split)
qed

lemma run_each_appends:
  assumes "\<And>b tp st. writes e st (fst (run_one b tp st))"
  shows "appends st (fst (run_each run_one rs st))"
proof (induction rs arbitrary: st)
  case (Cons x rs)
  have "appends st (fst (run_one (mr_inner_bytes x) (mr_inner_type_prefix x) st))" using assms writes_appends by blast
  with Cons appends_trans show ?case by (auto split: prod.splits sum.splits)
qed (simp add: appends_refl)

lemma token_bundle_rollback:
  assumes "\<And>b tp st. writes e st (fst (run_one b tp st))" "run_token_bundle run_one bundle st = (st', Inl err)" "err \<noteq> Panic"
  shows "st' = st"
proof -
  have "appends st (fst (run_each run_one (flatten (mb_requests bundle)) st))" by (rule run_each_appends) (rule assms(1))
  from rollback_appends [OF this] assms(2,3) show ?thesis
    by (auto simp: run_token_bundle_def Let_def split: prod.splits sum.splits)
qed

section \<open>Properties\<close>

text \<open>
  C25. A message is one transaction. Whatever the steps are, as long as they change the state only
  through its write operations, and unless one panics: processing a bundle or a request either
  publishes, in one batch, exactly the changes of the requests that were accepted, in their order,
  with the changeset empty afterwards, or returns an error and leaves the state, changeset and
  hypergraph as they were. A rejected request contributes nothing and does not stop the others; a
  message that does not decode, an unavailable store or a failed publication undo everything.
\<close>

theorem process_message_transaction:
  assumes "only_writes e invoke_step" "4 \<le> length message" "process_message e (Some invoke_step) f message (Some st) = (s', r)" "r \<noteq> Inl Panic"
  shows "(s', r) = map_prod Some id (transaction e st (rbind (message_requests message) (\<lambda>rs. accepted invoke_step f rs st)))"
proof -
  have all: "settle e (changeset_len st) (invoke_all (Some invoke_step) f rs (Some st)) =
      map_prod Some id (transaction e st (accepted invoke_step f rs st))"
    if no_panic: "snd (settle e (changeset_len st) (invoke_all (Some invoke_step) f rs (Some st))) \<noteq> Inl Panic" for rs
  proof -
    obtain s1 r1 where run: "invoke_all (Some invoke_step) f rs (Some st) = (s1, r1)" by fastforce
    then have "r1 \<noteq> Inl Panic" using no_panic by (auto simp: settle_def)
    from invoke_all_accepted [OF assms(1) run this] obtain st1 where st1: "s1 = Some st1" "appends st st1"
      "case r1 of Inr _ \<Rightarrow> accepted invoke_step f rs st = Inr st1 | Inl err \<Rightarrow> accepted invoke_step f rs st = Inl err" by blast
    then have "rbind r1 (\<lambda>_. Inr st1) = accepted invoke_step f rs st" by (cases r1) auto
    with settle_transaction [OF st1(2)] no_panic run st1(1) show ?thesis by metis
  qed
  show ?thesis
    using assms(3,4) all unfolding process_message_requests [OF assms(2)]
    by (cases "message_requests message") (auto simp: transaction_def)
qed

definition example_step :: step where
  "example_step f b st =
    (if b = [] then (st, Inl InvalidArgument)
     else state_set example_exec_env (replicate 32 1) (replicate 32 2) (ascii ''vertex:adds'') [7] st)"

definition example_request :: canonical_message_request where
  "example_request = \<lparr>mr_inner_type_prefix = TYPE_PROVER_PAUSE, mr_inner_bytes = u32_to_be_bytes TYPE_PROVER_PAUSE\<rparr>"

theorem process_message_transaction_witness:
  "let st = hstate_new example_crdt in \<exists>st2. state_commit example_exec_env example_written = (st2, Inr ()) \<and>
     process_message example_exec_env (Some example_step) 0 (mr_to_canonical_bytes example_request) (Some st) = (Some (state_abort st2), Inr ())"
proof -
  let ?e = example_exec_env and ?st = "hstate_new example_crdt" and ?m = "mr_to_canonical_bytes example_request"
  obtain st2 where commit: "state_commit ?e example_written = (st2, Inr ())" using example_commit by blast
  have only: "only_writes ?e example_step"
    unfolding only_writes_def example_step_def by (auto intro: writes.none writes.set [OF writes.none] simp: prod_eq_iff)
  have "mr_ok example_request"
    by (simp add: mr_ok_def example_request_def)
  then have "mr_from_canonical_bytes ?m = Inr example_request"
    by (simp add: mr_from_canonical_bytes_def mreq.whole_enc)
  moreover have len: "4 \<le> length ?m" and tp: "u32_from_be_bytes (take 4 ?m) = TYPE_MESSAGE_REQUEST"
    by (simp_all add: mr_to_canonical_bytes_def)
  ultimately have reqs: "message_requests ?m = Inr [example_request]"
    by (simp add: message_requests_def TYPE_MESSAGE_BUNDLE_def TYPE_MESSAGE_REQUEST_def)
  have glob: "is_global_type_prefix (mr_inner_type_prefix example_request)" "mr_inner_bytes example_request \<noteq> []"
    by (simp_all add: example_request_def is_global_type_prefix_def flip: length_greater_0_conv)
  have acc: "accepted example_step 0 [example_request] ?st = Inr example_written"
    using glob example_set by (simp add: example_step_def)
  obtain s' r where run: "process_message ?e (Some example_step) 0 ?m (Some ?st) = (s', r)" by fastforce
  moreover have "r \<noteq> Inl Panic"
    using run glob example_set commit unfolding process_message_requests [OF len] reqs
    by (auto simp: invoke_def example_step_def settle_def publish_execution_changes_def Let_def)
  ultimately have "(s', r) = (Some (state_abort st2), Inr ())"
    using process_message_transaction [OF only len run] reqs acc commit by (simp add: transaction_def)
  with run commit show ?thesis by (simp add: Let_def)
qed

end
