(* ===== verification/Submissions.thy ===== *)
theory Submissions
  imports Prelude
begin

text \<open>
  Ownership of shard operations in \<^verbatim>\<open>quil-engine/src/submission_attempts.rs\<close>: a caller reserves
  filters with \<open>begin\<close>, reports what it published, and releases the rest when its guard is dropped.
  The table of attempts is an association list whose order plays no role. The length of an epoch is
  a setting and an argument; poisoning of the lock is not modelled.
\<close>

section \<open>The table of attempts\<close>

definition RETRY_FRAMES :: u64 where "RETRY_FRAMES = 30"

definition epoch_for_frame :: "u64 \<Rightarrow> u64 \<Rightarrow> u64" where
  "epoch_for_frame epoch_length frame = frame div epoch_length"

type_synonym key = "u64 \<times> bytes"

record attempt =
  at_frame :: u64
  in_flight :: bool

type_synonym attempts = "(key \<times> attempt) list"

record guard =
  gd_keys :: "key list"
  published_frames :: "(bytes \<times> u64) list"

definition fresh :: "u64 \<Rightarrow> u64 \<Rightarrow> key \<times> attempt \<Rightarrow> bool" where
  "fresh epoch frame e \<longleftrightarrow>
    (case e of ((ep, _), a) \<Rightarrow> in_flight a \<or> ep = epoch \<and> saturating_sub frame (at_frame a) < RETRY_FRAMES)"

definition owned :: "u64 \<Rightarrow> attempts \<Rightarrow> bytes \<Rightarrow> u64 \<Rightarrow> bool" where
  "owned epoch_length ats flt frame \<longleftrightarrow>
    list_ex (\<lambda>e. snd (fst e) = flt \<and> fresh (epoch_for_frame epoch_length frame) frame e) ats"

definition insert_attempt :: "key \<Rightarrow> attempt \<Rightarrow> attempts \<Rightarrow> attempts" where
  "insert_attempt k a ats = (k, a) # filter (\<lambda>e. fst e \<noteq> k) ats"

definition begin_attempt :: "u64 \<Rightarrow> bytes list \<Rightarrow> u64 \<Rightarrow> attempts \<Rightarrow> attempts \<times> guard option" where
  "begin_attempt epoch_length filters frame ats =
    (if filters = [] then (ats, None)
     else
       let epoch = epoch_for_frame epoch_length frame;
           kept = filter (fresh epoch frame) ats
       in if list_ex (\<lambda>f. list_ex (\<lambda>((ep, existing), a). existing = f \<and> (in_flight a \<or> ep = epoch)) kept) filters
          then (kept, None)
          else
            let keys = map (\<lambda>f. (epoch, f)) filters
            in (fold (\<lambda>k. insert_attempt k \<lparr>at_frame = frame, in_flight = True\<rparr>) keys kept,
                Some \<lparr>gd_keys = keys, published_frames = []\<rparr>))"

section \<open>Guards\<close>

definition note_published :: "u64 \<Rightarrow> bytes \<Rightarrow> guard \<Rightarrow> guard" where
  "note_published frame flt g = g\<lparr>published_frames := (flt, frame) # published_frames g\<rparr>"

definition published_subset :: "bytes list \<Rightarrow> u64 \<Rightarrow> guard \<Rightarrow> guard" where
  "published_subset filters frame g =
    fold (\<lambda>f g. if list_ex (\<lambda>k. snd k = f) (gd_keys g) then note_published frame f g else g) filters g"

definition published_all :: "u64 \<Rightarrow> guard \<Rightarrow> guard" where
  "published_all frame g = fold (\<lambda>k. note_published frame (snd k)) (gd_keys g) g"

definition settle :: "u64 \<Rightarrow> key \<times> attempt \<Rightarrow> key \<times> attempt" where
  "settle frame e = (fst e, \<lparr>at_frame = max (at_frame (snd e)) frame, in_flight = False\<rparr>)"

definition free_key :: "guard \<Rightarrow> key \<Rightarrow> attempts \<Rightarrow> attempts" where
  "free_key g k ats =
    (case map_of (published_frames g) (snd k) of
      Some frame \<Rightarrow> map (\<lambda>e. if fst e = k then settle frame e else e) ats
    | None \<Rightarrow> filter (\<lambda>e. fst e \<noteq> k) ats)"

definition drop_guard :: "guard \<Rightarrow> attempts \<Rightarrow> attempts" where
  "drop_guard g ats = fold (free_key g) (gd_keys g) ats"

section \<open>Callers\<close>

text \<open>
  The table together with the guards that are alive. Consuming a guard with \<open>published\<close> notes all
  its filters as published and drops it.
\<close>

record system =
  table :: attempts
  guards :: "guard list"

inductive sys_step :: "u64 \<Rightarrow> system \<Rightarrow> system \<Rightarrow> bool" for epoch_length where
  refused: "begin_attempt epoch_length fs n (table s) = (ats, None) \<Longrightarrow> sys_step epoch_length s (s\<lparr>table := ats\<rparr>)"
| reserved: "begin_attempt epoch_length fs n (table s) = (ats, Some g) \<Longrightarrow>
    sys_step epoch_length s \<lparr>table = ats, guards = g # guards s\<rparr>"
| subset: "guards s = xs @ g # ys \<Longrightarrow>
    sys_step epoch_length s (s\<lparr>guards := xs @ published_subset fs n g # ys\<rparr>)"
| published: "guards s = xs @ g # ys \<Longrightarrow>
    sys_step epoch_length s \<lparr>table = drop_guard (published_all n g) (table s), guards = xs @ ys\<rparr>"
| dropped: "guards s = xs @ g # ys \<Longrightarrow>
    sys_step epoch_length s \<lparr>table = drop_guard g (table s), guards = xs @ ys\<rparr>"

inductive_cases sys_stepE: "sys_step epoch_length s s'"

inductive reachable :: "u64 \<Rightarrow> system \<Rightarrow> bool" for epoch_length where
  init: "reachable epoch_length \<lparr>table = [], guards = []\<rparr>"
| step: "reachable epoch_length s \<Longrightarrow> sys_step epoch_length s s' \<Longrightarrow> reachable epoch_length s'"

section \<open>What the operations do\<close>

abbreviation guard_filters :: "guard \<Rightarrow> bytes set" where
  "guard_filters g \<equiv> snd ` set (gd_keys g)"

lemma fold_insert_attempt:
  "set (fold (\<lambda>k. insert_attempt k a) ks ats) = {e\<in>set ats. fst e \<notin> set ks} \<union> {(k, a) | k. k \<in> set ks}"
  by (induction ks arbitrary: ats) (auto simp: insert_attempt_def)

lemma kept_conflict:
  "list_ex (\<lambda>((ep, existing), a). existing = f \<and> (in_flight a \<or> ep = epoch)) (filter (fresh epoch frame) ats) \<longleftrightarrow>
    list_ex (\<lambda>e. snd (fst e) = f \<and> fresh epoch frame e) ats"
  by (induction ats) (auto simp: fresh_def split: prod.splits)

lemma begin_None_iff:
  "snd (begin_attempt L fs frame ats) = None \<longleftrightarrow> fs = [] \<or> (\<exists>f\<in>set fs. owned L ats f frame)"
  unfolding begin_attempt_def Let_def kept_conflict owned_def by (simp add: Bex_set)

lemma begin_cases:
  assumes "begin_attempt L fs frame ats = (ats', r)"
  obtains "fs = []" "ats' = ats" "r = None"
  | "ats' = filter (fresh (epoch_for_frame L frame) frame) ats" "r = None"
  | g where "r = Some g" "gd_keys g = map (\<lambda>f. (epoch_for_frame L frame, f)) fs" "\<forall>f\<in>set fs. \<not> owned L ats f frame"
      "set ats' = {e\<in>set ats. fresh (epoch_for_frame L frame) frame e \<and> fst e \<notin> set (gd_keys g)} \<union>
        {(k, \<lparr>at_frame = frame, in_flight = True\<rparr>) | k. k \<in> set (gd_keys g)}"
proof (cases "r")
  case None
  with assms that(1,2) show ?thesis by (auto simp: begin_attempt_def Let_def split: if_split_asm)
next
  case (Some g)
  with assms have "\<forall>f\<in>set fs. \<not> owned L ats f frame" using begin_None_iff [of L fs frame ats] by auto
  moreover from Some assms have "gd_keys g = map (\<lambda>f. (epoch_for_frame L frame, f)) fs"
    and "ats' = fold (\<lambda>k. insert_attempt k \<lparr>at_frame = frame, in_flight = True\<rparr>) (gd_keys g) (filter (fresh (epoch_for_frame L frame) frame) ats)"
    by (auto simp: begin_attempt_def Let_def split: if_split_asm)
  ultimately show ?thesis using that(3) [of g] Some by (auto simp: fold_insert_attempt)
qed

lemma keys_published_subset [simp]: "gd_keys (published_subset fs n g) = gd_keys g"
  unfolding published_subset_def
  by (induction fs arbitrary: g) (auto simp: note_published_def)

lemma keys_published_all [simp]: "gd_keys (published_all n g) = gd_keys g"
proof -
  have "gd_keys (fold (\<lambda>k. note_published n (snd k)) ks g) = gd_keys g" for ks
    by (induction ks arbitrary: g) (auto simp: note_published_def)
  then show ?thesis by (simp add: published_all_def)
qed

lemma free_key_sub: "e \<in> set (free_key g k ats) \<Longrightarrow> (fst e \<noteq> k \<longrightarrow> e \<in> set ats) \<and> (fst e = k \<longrightarrow> \<not> in_flight (snd e))"
  by (auto simp: free_key_def settle_def split: option.splits if_splits)

lemma free_key_keep: "e \<in> set ats \<Longrightarrow> fst e \<noteq> k \<Longrightarrow> e \<in> set (free_key g k ats)"
  by (force simp: free_key_def split: option.split)

lemma fold_release_sub:
  "e \<in> set (fold (free_key g) ks ats) \<Longrightarrow>
    (fst e \<notin> set ks \<longrightarrow> e \<in> set ats) \<and> (fst e \<in> set ks \<longrightarrow> \<not> in_flight (snd e))"
proof (induction ks arbitrary: ats)
  case (Cons k ks)
  then show ?case using free_key_sub [of e g k ats] by fastforce
qed simp

lemma fold_release_keep: "e \<in> set ats \<Longrightarrow> fst e \<notin> set ks \<Longrightarrow> e \<in> set (fold (free_key g) ks ats)"
  by (induction ks arbitrary: ats) (auto intro: free_key_keep)

lemma drop_in_flight:
  "e \<in> set (drop_guard g ats) \<and> in_flight (snd e) \<longleftrightarrow> e \<in> set ats \<and> in_flight (snd e) \<and> fst e \<notin> set (gd_keys g)"
  using fold_release_sub [of e g "gd_keys g" ats] fold_release_keep [of e ats "gd_keys g" g] by (auto simp: drop_guard_def)

section \<open>The invariant\<close>

definition busy :: "attempts \<Rightarrow> key set" where
  "busy ats = fst ` {e \<in> set ats. in_flight (snd e)}"

lemma busyI: "e \<in> set ats \<Longrightarrow> in_flight (snd e) \<Longrightarrow> fst e \<in> busy ats"
  by (auto simp: busy_def)

lemma busyE: "k \<in> busy ats \<Longrightarrow> (\<And>e. e \<in> set ats \<Longrightarrow> in_flight (snd e) \<Longrightarrow> k = fst e \<Longrightarrow> P) \<Longrightarrow> P"
  by (auto simp: busy_def)

lemma fresh_in_flight: "in_flight (snd e) \<Longrightarrow> fresh epoch frame e"
  by (cases e) (auto simp: fresh_def split: prod.split)

definition disjoint_guards :: "guard \<Rightarrow> guard \<Rightarrow> bool" where
  "disjoint_guards g h \<longleftrightarrow> guard_filters g \<inter> guard_filters h = {}"

definition sys_ok :: "system \<Rightarrow> bool" where
  "sys_ok s \<longleftrightarrow> busy (table s) = (\<Union>g\<in>set (guards s). set (gd_keys g)) \<and> sorted_wrt disjoint_guards (guards s)"

lemma busy_drop: "busy (drop_guard g ats) = busy ats - set (gd_keys g)"
  unfolding busy_def drop_in_flight by auto

lemma busy_fresh: "busy (filter (fresh epoch frame) ats) = busy ats"
  by (auto simp: busy_def fresh_in_flight)

lemma busy_reserved:
  assumes set: "set ats' = {e\<in>set ats. fresh epoch frame e \<and> fst e \<notin> K} \<union> {(k, a) | k. k \<in> K}" and "in_flight a"
  shows "busy ats' = busy ats \<union> K"
proof (intro set_eqI iffI)
  show "k \<in> busy ats \<union> K" if "k \<in> busy ats'" for k
    using that by (rule busyE) (auto simp: set intro: busyI)
  show "k \<in> busy ats'" if "k \<in> busy ats \<union> K" for k
  proof (cases "k \<in> K")
    case True
    then show ?thesis using busyI [of "(k, a)" ats'] assms(2) by (cases k) (simp add: set)
  next
    case False
    with that have "k \<in> busy ats" by simp
    then show ?thesis using False by (rule_tac busyE) (auto simp: set fresh_in_flight intro: busyI)
  qed
qed

lemma busy_owned: "k \<in> busy ats \<Longrightarrow> owned L ats (snd k) frame"
  by (auto simp: owned_def list_ex_iff fresh_in_flight elim!: busyE)

lemma begin_disjoint:
  assumes "sys_ok s" and "\<forall>f\<in>set fs. \<not> owned L (table s) f frame" and "h \<in> set (guards s)"
  shows "set fs \<inter> guard_filters h = {}"
  using assms busy_owned [of _ "table s" L frame] by (fastforce simp: sys_ok_def)

lemma sys_ok_drop:
  assumes "sys_ok s" and "guards s = xs @ g # ys" and "gd_keys g' = gd_keys g"
  shows "sys_ok \<lparr>table = drop_guard g' (table s), guards = xs @ ys\<rparr>"
proof -
  have dis: "disjoint_guards h g \<or> disjoint_guards g h" if "h \<in> set (xs @ ys)" for h
    using assms(1,2) that by (auto simp: sys_ok_def sorted_wrt_append)
  have "set (gd_keys h) \<inter> set (gd_keys g) = {}" if "h \<in> set (xs @ ys)" for h
    using dis [OF that] by (fastforce simp: disjoint_guards_def)
  then have "(\<Union>h\<in>set (guards s). set (gd_keys h)) - set (gd_keys g) = (\<Union>h\<in>set (xs @ ys). set (gd_keys h))"
    by (auto simp: assms(2))
  with assms show ?thesis by (auto simp: sys_ok_def busy_drop sorted_wrt_append)
qed

lemma sys_ok_reserved:
  assumes "sys_ok s" and "begin_attempt L fs n (table s) = (ats, Some g)"
  shows "sys_ok \<lparr>table = ats, guards = g # guards s\<rparr>"
  using assms(2)
proof (cases rule: begin_cases)
  case (3 h)
  then have "h = g" by simp
  with 3 have fil: "guard_filters g = set fs" by (auto simp: image_iff)
  have "disjoint_guards g k" if "k \<in> set (guards s)" for k
    using begin_disjoint [OF assms(1) 3(3) that] by (simp add: disjoint_guards_def fil)
  moreover have "busy ats = busy (table s) \<union> set (gd_keys g)"
    using busy_reserved [OF 3(4)] \<open>h = g\<close> by simp
  ultimately show ?thesis using assms(1) by (auto simp: sys_ok_def)
qed simp_all

lemma sys_ok_step: "sys_step L s s' \<Longrightarrow> sys_ok s \<Longrightarrow> sys_ok s'"
proof (induction rule: sys_step.induct)
  case (refused fs n s ats)
  from refused(1) have "ats = table s \<or> ats = filter (fresh (epoch_for_frame L n) n) (table s)"
    by (cases rule: begin_cases) auto
  with refused(2) busy_fresh show ?case by (elim disjE) (simp_all add: sys_ok_def)
next
  case (subset s xs g ys fs n)
  then show ?case by (simp add: sys_ok_def sorted_wrt_append disjoint_guards_def)
qed (auto intro: sys_ok_reserved sys_ok_drop)

lemma reachable_ok: "reachable L s \<Longrightarrow> sys_ok s"
  by (induction rule: reachable.induct) (auto simp: sys_ok_def [of "\<lparr>table = [], guards = []\<rparr>"] busy_def intro: sys_ok_step)

lemma owned_iff:
  "owned L ats f frame \<longleftrightarrow> f \<in> snd ` busy ats \<or>
    (\<exists>a. ((epoch_for_frame L frame, f), a) \<in> set ats \<and> saturating_sub frame (at_frame a) < RETRY_FRAMES)"
proof
  assume "owned L ats f frame"
  then obtain ep a where "((ep, f), a) \<in> set ats" "fresh (epoch_for_frame L frame) frame ((ep, f), a)"
    by (auto simp: owned_def list_ex_iff)
  then show "f \<in> snd ` busy ats \<or>
    (\<exists>a. ((epoch_for_frame L frame, f), a) \<in> set ats \<and> saturating_sub frame (at_frame a) < RETRY_FRAMES)"
    using busyI [of "((ep, f), a)" ats] by (force simp: fresh_def)
next
  assume "f \<in> snd ` busy ats \<or>
    (\<exists>a. ((epoch_for_frame L frame, f), a) \<in> set ats \<and> saturating_sub frame (at_frame a) < RETRY_FRAMES)"
  moreover have "owned L ats f frame" if "f \<in> snd ` busy ats"
    using that busy_owned [of _ ats L frame] by blast
  moreover have "owned L ats f frame"
    if "((epoch_for_frame L frame, f), a) \<in> set ats" "saturating_sub frame (at_frame a) < RETRY_FRAMES" for a
    using that by (force simp: owned_def list_ex_iff fresh_def)
  ultimately show "owned L ats f frame" by blast
qed

section \<open>Properties\<close>

text \<open>
  C38. Exclusive ownership, in every reachable state of the table and its live guards: no two live
  guards hold the same filter, the entries in flight are exactly the keys of the live guards, and
  a new reservation is granted exactly when it names at least one filter and none of its filters
  is held by a live guard or was published in the same epoch less than 30 frames before. So a
  filter never stays blocked by a caller that has gone.
\<close>

theorem submissions_exclusive:
  assumes "reachable L s"
  shows "sorted_wrt disjoint_guards (guards s) \<and> busy (table s) = (\<Union>g\<in>set (guards s). set (gd_keys g)) \<and>
    ((\<exists>g. snd (begin_attempt L fs frame (table s)) = Some g) \<longleftrightarrow>
      fs \<noteq> [] \<and> (\<forall>f\<in>set fs. (\<forall>g\<in>set (guards s). f \<notin> guard_filters g) \<and>
        (\<forall>a. ((epoch_for_frame L frame, f), a) \<in> set (table s) \<longrightarrow> \<not> saturating_sub frame (at_frame a) < RETRY_FRAMES)))"
proof -
  from reachable_ok [OF assms] have ok: "busy (table s) = (\<Union>g\<in>set (guards s). set (gd_keys g))"
    "sorted_wrt disjoint_guards (guards s)" by (simp_all add: sys_ok_def)
  have "owned L (table s) f frame \<longleftrightarrow> (\<exists>g\<in>set (guards s). f \<in> guard_filters g) \<or>
      (\<exists>a. ((epoch_for_frame L frame, f), a) \<in> set (table s) \<and> saturating_sub frame (at_frame a) < RETRY_FRAMES)" for f
    unfolding owned_iff ok(1) by blast
  with ok begin_None_iff [of L fs frame "table s"] show ?thesis by (auto simp flip: not_None_eq)
qed

definition example_system :: system where
  "example_system = \<lparr>table = [((0, [1]), \<lparr>at_frame = 10, in_flight = True\<rparr>)],
    guards = [\<lparr>gd_keys = [(0, [1])], published_frames = []\<rparr>]\<rparr>"

lemma example_reachable: "reachable 720 example_system"
proof -
  have "epoch_for_frame 720 10 = 0" by code_simp
  then have "begin_attempt 720 [[1]] 10 (table \<lparr>table = [], guards = []\<rparr>) =
      (table example_system, Some \<lparr>gd_keys = [(0, [1])], published_frames = []\<rparr>)"
    by (simp add: begin_attempt_def insert_attempt_def example_system_def)
  then show ?thesis
    using reachable.step [OF reachable.init sys_step.reserved] by (fastforce simp: example_system_def)
qed

theorem submissions_exclusive_witness:
  "reachable 720 example_system \<and>
   snd (begin_attempt 720 [[1], [2]] 100 (table example_system)) = None \<and>
   (\<exists>g. snd (begin_attempt 720 [[2]] 100 (table example_system)) = Some g)"
proof -
  have "(\<exists>g. snd (begin_attempt 720 [[2]] 100 (table example_system)) = Some g)"
    using submissions_exclusive [OF example_reachable, of "[[2]]" 100] by (simp add: example_system_def)
  moreover have "\<nexists>g. snd (begin_attempt 720 [[1], [2]] 100 (table example_system)) = Some g"
    using submissions_exclusive [OF example_reachable, of "[[1], [2]]" 100] by (simp add: example_system_def)
  ultimately show ?thesis using example_reachable by auto
qed

end
