(* ===== verification/ForkChoice.thy ===== *)
theory ForkChoice
  imports Prelude "HOL-Library.Signed_Division"
begin

text \<open>
  The fork choice of \<^verbatim>\<open>quil-engine/src/fork_choice.rs\<close>. Big integers are integers, with division
  truncating towards zero and panicking on a zero divisor; the set of provers seen is a set.
\<close>

section \<open>Scores\<close>

definition SCALE :: u64 where "SCALE = - 1"

record frame =
  fr_distance :: int
  fr_seniority :: u64
  fr_prover_address :: bytes

type_synonym branch = "frame list"

record params =
  r_max :: int
  wr_numer :: u64
  wp_numer :: u64
  w_denom :: u64
  al_numer :: u64
  al_denom :: u64
  blend_window :: nat
  beta_numer :: u64
  beta_denom :: u64
  epsilon :: u64

definition default_params :: params where
  "default_params = \<lparr>r_max = uint (- 1 :: u64), wr_numer = 7, wp_numer = 3, w_denom = 10, al_numer = 9, al_denom = 10,
    blend_window = 5, beta_numer = 1, beta_denom = 10, epsilon = 0\<rparr>"

definition big_div :: "int \<Rightarrow> int \<Rightarrow> int result" where
  "big_div a b = (if b = 0 then Inl Panic else Inr (a sdiv b))"

definition rho_scaled :: "int \<Rightarrow> int \<Rightarrow> u64 result" where
  "rho_scaled rank rmax =
    rbind (big_div ((rmax - rank) * uint SCALE) rmax) (\<lambda>q.
      if q < 0 then Inr 0
      else if uint SCALE < q then Inr SCALE
      else Inr (if q < 2 ^ 64 then word_of_int q else SCALE))"

definition clamp :: "u64 \<Rightarrow> u64 \<Rightarrow> u64 \<Rightarrow> u64" where
  "clamp x lo hi = (if x < lo then lo else if hi < x then hi else x)"

fun raw_score :: "params \<Rightarrow> int \<Rightarrow> frame list \<Rightarrow> int result" where
  "raw_score cfg raw [] = Inr raw"
| "raw_score cfg raw (frame # frames) =
    rbind (rho_scaled (fr_distance frame) (r_max cfg)) (\<lambda>rho.
      let pi = clamp (fr_seniority frame) 0 SCALE in
      rbind (big_div (uint (wr_numer cfg) * uint rho + uint (wp_numer cfg) * uint pi) (uint (w_denom cfg))) (\<lambda>frame_score.
      rbind (big_div (raw * uint (al_numer cfg)) (uint (al_denom cfg))) (\<lambda>decayed.
        raw_score cfg (decayed + frame_score) frames)))"

definition unique_provers :: "frame list \<Rightarrow> nat" where
  "unique_provers frames = card (fr_prover_address ` set (filter (\<lambda>f. 0 < fr_seniority f) frames))"

definition branch_score :: "branch \<Rightarrow> params \<Rightarrow> int result" where
  "branch_score br cfg =
    (if br = [] then Inr 0
     else
       rbind (raw_score cfg 0 br) (\<lambda>raw.
         let m = min (blend_window cfg) (length br) in
         if m = 0 then Inr 0
         else
           let unique = unique_provers (drop (length br - m) br) in
           rbind (big_div (int unique * uint SCALE) (int m)) (\<lambda>blend_scaled.
           rbind (big_div (uint (beta_numer cfg) * blend_scaled) (uint (beta_denom cfg))) (\<lambda>bonus.
             big_div (raw * (uint SCALE + bonus)) (uint SCALE)))))"

section \<open>The choice\<close>

fun choose_from :: "params \<Rightarrow> nat \<Rightarrow> branch list \<Rightarrow> nat \<Rightarrow> int \<Rightarrow> nat result" where
  "choose_from cfg i [] best_idx best_score = Inr best_idx"
| "choose_from cfg i (br # brs) best_idx best_score =
    rbind (branch_score br cfg) (\<lambda>score.
      if best_score + uint (epsilon cfg) < score then choose_from cfg (Suc i) brs i score
      else choose_from cfg (Suc i) brs best_idx best_score)"

definition fork_choice :: "branch list \<Rightarrow> params \<Rightarrow> nat \<Rightarrow> nat result" where
  "fork_choice branches cfg prev_choice =
    rbind (if prev_choice < length branches then branch_score (branches ! prev_choice) cfg else Inr 0)
      (\<lambda>best_score. choose_from cfg 0 branches prev_choice best_score)"

section \<open>Scores exist and are monotone\<close>

definition params_ok :: "params \<Rightarrow> bool" where
  "params_ok cfg \<longleftrightarrow> 0 < r_max cfg \<and> w_denom cfg \<noteq> 0 \<and> al_denom cfg \<noteq> 0 \<and> beta_denom cfg \<noteq> 0"

lemma SCALE_pos: "0 < uint SCALE" "uint SCALE \<noteq> 0" "uint (w :: u64) \<le> uint SCALE" "uint SCALE < 2 ^ 64"
proof -
  have s: "uint SCALE = 2 ^ 64 - 1" by (simp add: SCALE_def unsigned_minus_1_eq_mask mask_eq_exp_minus_1)
  show "0 < uint SCALE" "uint SCALE \<noteq> 0" "uint SCALE < 2 ^ 64" by (simp_all add: s)
  show "uint w \<le> uint SCALE" using unsigned_less [of w, where ?'a = int] by (simp add: s)
qed

lemma big_div_pos: "0 < b \<Longrightarrow> 0 \<le> a \<Longrightarrow> big_div a b = Inr (a div b)"
  by (simp add: big_div_def signed_divide_int_def sgn_mult) (auto simp: sgn_if)

lemma sdiv_nonpos: "a < 0 \<Longrightarrow> 0 < b \<Longrightarrow> a sdiv b \<le> (0 :: int)"
  by (simp add: signed_divide_int_def pos_imp_zdiv_nonneg_iff)

text \<open>The score of a distance as an integer.\<close>

definition rho_of :: "int \<Rightarrow> int \<Rightarrow> int" where
  "rho_of d rmax = (if rmax < d then 0 else min (uint SCALE) ((rmax - d) * uint SCALE div rmax))"

lemma rho_scaled_of:
  assumes "0 < rmax"
  shows "\<exists>rho. rho_scaled d rmax = Inr rho \<and> uint rho = rho_of d rmax"
proof (cases "rmax < d")
  case True
  have "(rmax - d) * uint SCALE < 0" using True SCALE_pos(1) by (simp add: mult_neg_pos)
  then have "(rmax - d) * uint SCALE sdiv rmax \<le> 0" using assms by (rule sdiv_nonpos)
  with True assms SCALE_pos(1) show ?thesis
    by (cases "(rmax - d) * uint SCALE sdiv rmax = 0") (auto simp: rho_scaled_def big_div_def rho_of_def)
next
  case False
  define q where "q = (rmax - d) * uint SCALE div rmax"
  have "big_div ((rmax - d) * uint SCALE) rmax = Inr q" using False assms SCALE_pos(1) by (simp add: big_div_pos q_def)
  moreover have "0 \<le> q" using False assms SCALE_pos(1) by (simp add: q_def pos_imp_zdiv_nonneg_iff)
  moreover have "uint (word_of_int q :: u64) = q" if "q \<le> uint SCALE"
    using that \<open>0 \<le> q\<close> SCALE_pos(4) by (simp add: uint_word_of_int_eq take_bit_int_eq_self)
  ultimately show ?thesis using False SCALE_pos(4) by (auto simp: rho_scaled_def rho_of_def q_def [symmetric])
qed

lemma rho_of_bounds: "0 < rmax \<Longrightarrow> 0 \<le> rho_of d rmax \<and> rho_of d rmax \<le> uint SCALE"
  using SCALE_pos(1) by (auto simp: rho_of_def pos_imp_zdiv_nonneg_iff)

lemma rho_of_antimono: "0 < rmax \<Longrightarrow> d \<le> d' \<Longrightarrow> rho_of d' rmax \<le> rho_of d rmax"
proof -
  assume "0 < rmax" "d \<le> d'"
  then have "(rmax - d') * uint SCALE div rmax \<le> (rmax - d) * uint SCALE div rmax"
    using SCALE_pos(1) by (intro zdiv_mono1 mult_right_mono) auto
  then show ?thesis using rho_of_bounds [OF \<open>0 < rmax\<close>, of d] \<open>d \<le> d'\<close> by (auto simp: rho_of_def)
qed

lemma clamp_scale [simp]: "clamp x 0 SCALE = x"
  by (simp add: clamp_def SCALE_def)

definition frame_score_of :: "params \<Rightarrow> frame \<Rightarrow> int" where
  "frame_score_of cfg f = (uint (wr_numer cfg) * rho_of (fr_distance f) (r_max cfg) + uint (wp_numer cfg) * uint (fr_seniority f))
    div uint (w_denom cfg)"

fun raw_of :: "params \<Rightarrow> int \<Rightarrow> frame list \<Rightarrow> int" where
  "raw_of cfg raw [] = raw"
| "raw_of cfg raw (f # fs) = raw_of cfg (raw * uint (al_numer cfg) div uint (al_denom cfg) + frame_score_of cfg f) fs"

lemma params_pos: "params_ok cfg \<Longrightarrow> 0 < r_max cfg \<and> 0 < uint (w_denom cfg) \<and> 0 < uint (al_denom cfg) \<and> 0 < uint (beta_denom cfg)"
  by (simp add: params_ok_def word_neq_0_conv word_less_def)

lemma frame_score_nonneg: "params_ok cfg \<Longrightarrow> 0 \<le> frame_score_of cfg f"
  using params_pos [of cfg] rho_of_bounds [of "r_max cfg" "fr_distance f"]
  by (simp add: frame_score_of_def pos_imp_zdiv_nonneg_iff)

lemma decayed_nonneg: "params_ok cfg \<Longrightarrow> 0 \<le> raw \<Longrightarrow> 0 \<le> raw * uint (al_numer cfg) div uint (al_denom cfg)"
  using params_pos [of cfg] by (simp add: pos_imp_zdiv_nonneg_iff)

lemma raw_score_of: "params_ok cfg \<Longrightarrow> 0 \<le> raw \<Longrightarrow> raw_score cfg raw fs = Inr (raw_of cfg raw fs) \<and> 0 \<le> raw_of cfg raw fs"
proof (induction fs arbitrary: raw)
  case (Cons f fs)
  obtain rho where "rho_scaled (fr_distance f) (r_max cfg) = Inr rho" "uint rho = rho_of (fr_distance f) (r_max cfg)"
    using rho_scaled_of params_pos [OF Cons.prems(1)] by blast
  with Cons params_pos [OF Cons.prems(1)] frame_score_nonneg [OF Cons.prems(1), of f] decayed_nonneg [OF Cons.prems]
  show ?case by (simp add: Let_def big_div_pos frame_score_of_def)
qed simp

definition score_of :: "params \<Rightarrow> branch \<Rightarrow> int" where
  "score_of cfg br =
    (let m = min (blend_window cfg) (length br) in
     if m = 0 then 0
     else raw_of cfg 0 br * (uint SCALE + uint (beta_numer cfg) *
       (int (unique_provers (drop (length br - m) br)) * uint SCALE div int m) div uint (beta_denom cfg)) div uint SCALE)"

lemma bonus_nonneg:
  "params_ok cfg \<Longrightarrow> 0 < m \<Longrightarrow> 0 \<le> uint (beta_numer cfg) * (int u * uint SCALE div int m) div uint (beta_denom cfg)"
  using params_pos [of cfg] by (simp add: pos_imp_zdiv_nonneg_iff)

lemma branch_score_of:
  assumes "params_ok cfg"
  shows "branch_score br cfg = Inr (score_of cfg br) \<and> 0 \<le> score_of cfg br"
proof (cases "min (blend_window cfg) (length br) = 0")
  case True
  then show ?thesis using raw_score_of [OF assms, of 0 br] by (auto simp: branch_score_def score_of_def)
next
  case False
  define m where "m = min (blend_window cfg) (length br)"
  define u where "u = unique_provers (drop (length br - m) br)"
  have "0 < m" "br \<noteq> []" using False by (auto simp: m_def)
  moreover have "0 \<le> int u * uint SCALE div int m" using \<open>0 < m\<close> by (simp add: pos_imp_zdiv_nonneg_iff)
  ultimately show ?thesis
    using raw_score_of [OF assms, of 0 br] params_pos [OF assms] bonus_nonneg [OF assms, of m u] SCALE_pos(1)
    by (simp add: branch_score_def score_of_def big_div_pos pos_imp_zdiv_nonneg_iff Let_def m_def [symmetric] u_def [symmetric])
qed

text \<open>
  A branch is at least as good as another when, frame by frame, it has the same provers, the same
  provers evicted, no greater distances and no smaller seniorities.
\<close>

definition frame_better :: "frame \<Rightarrow> frame \<Rightarrow> bool" where
  "frame_better f g \<longleftrightarrow> fr_prover_address f = fr_prover_address g \<and> (fr_seniority f = 0 \<longleftrightarrow> fr_seniority g = 0) \<and>
    fr_distance f \<le> fr_distance g \<and> fr_seniority g \<le> fr_seniority f"

lemma frame_score_mono: "params_ok cfg \<Longrightarrow> frame_better f g \<Longrightarrow> frame_score_of cfg g \<le> frame_score_of cfg f"
  using params_pos [of cfg] rho_of_antimono [of "r_max cfg" "fr_distance f" "fr_distance g"]
  by (auto simp: frame_score_of_def frame_better_def word_le_def intro!: zdiv_mono1 add_mono mult_left_mono)

lemma raw_mono:
  assumes "params_ok cfg" "list_all2 frame_better fs gs" "b \<le> a"
  shows "raw_of cfg b gs \<le> raw_of cfg a fs"
  using assms(2,3)
proof (induction fs gs arbitrary: a b rule: list_all2_induct)
  case (Cons f fs g gs)
  have "b * uint (al_numer cfg) div uint (al_denom cfg) \<le> a * uint (al_numer cfg) div uint (al_denom cfg)"
    using Cons.prems params_pos [OF assms(1)] by (intro zdiv_mono1 mult_right_mono) auto
  with frame_score_mono [OF assms(1) Cons.hyps(1)] Cons.IH show ?case by simp
qed simp

lemma active_provers_better:
  "list_all2 frame_better fs gs \<Longrightarrow>
    map fr_prover_address (filter (\<lambda>f. 0 < fr_seniority f) fs) = map fr_prover_address (filter (\<lambda>f. 0 < fr_seniority f) gs)"
proof (induction fs gs rule: list_all2_induct)
  case (Cons f fs g gs)
  then have "0 < fr_seniority f \<longleftrightarrow> 0 < fr_seniority g" "fr_prover_address f = fr_prover_address g"
    by (simp_all add: frame_better_def word_gt_0)
  with Cons.IH show ?case by simp
qed simp

lemma unique_provers_better: "list_all2 frame_better fs gs \<Longrightarrow> unique_provers fs = unique_provers gs"
  unfolding unique_provers_def by (drule active_provers_better, drule arg_cong [where f = set]) (simp only: set_map)

lemma score_mono:
  assumes "params_ok cfg" "list_all2 frame_better fs gs"
  shows "score_of cfg gs \<le> score_of cfg fs"
proof -
  have len: "length fs = length gs" using assms(2) by (rule list_all2_lengthD)
  define m where "m = min (blend_window cfg) (length gs)"
  have "unique_provers (drop (length gs - m) fs) = unique_provers (drop (length gs - m) gs)"
    using assms(2) by (intro unique_provers_better list_all2_dropI)
  moreover have "0 \<le> uint SCALE + uint (beta_numer cfg) * (int u * uint SCALE div int m) div uint (beta_denom cfg)" if "0 < m" for u
    using bonus_nonneg [OF assms(1) that, of u] SCALE_pos(1) by linarith
  ultimately show ?thesis
    using raw_mono [OF assms order.refl, of 0] SCALE_pos(1)
    by (auto simp: score_of_def len m_def [symmetric] Let_def intro!: zdiv_mono1 mult_right_mono)
qed

section \<open>The chosen branch\<close>

lemma choose_from_best:
  assumes "params_ok cfg"
  shows "\<exists>r s. choose_from cfg i brs idx best = Inr r \<and> (\<forall>br\<in>set brs. score_of cfg br \<le> s + uint (epsilon cfg)) \<and>
    (r = idx \<and> s = best \<or> (\<exists>j<length brs. r = i + j \<and> s = score_of cfg (brs ! j)) \<and> best + uint (epsilon cfg) < s)"
proof (induction brs arbitrary: i idx best)
  case Nil
  then show ?case by simp
next
  case (Cons br brs)
  let ?e = "uint (epsilon cfg)" and ?s = "score_of cfg br"
  have e: "0 \<le> ?e" by simp
  have sc: "branch_score br cfg = Inr ?s" using branch_score_of [OF assms] by blast
  show ?case
  proof (cases "best + ?e < ?s")
    case True
    from Cons.IH [of "Suc i" i ?s] obtain r s where
      rs: "choose_from cfg (Suc i) brs i ?s = Inr r" "\<forall>b\<in>set brs. score_of cfg b \<le> s + ?e"
        "r = i \<and> s = ?s \<or> (\<exists>j<length brs. r = Suc i + j \<and> s = score_of cfg (brs ! j)) \<and> ?s + ?e < s" by blast
    from rs(3) have "\<exists>j<length (br # brs). r = i + j \<and> s = score_of cfg ((br # brs) ! j)"
      by (metis add_Suc_right add_Suc add.right_neutral length_Cons nth_Cons_0 nth_Cons_Suc not_less_eq zero_less_Suc)
    moreover have "?s \<le> s" "best + ?e < s" using rs(3) True e by (elim disjE conjE; linarith)+
    moreover have "?s \<le> s + ?e" using \<open>?s \<le> s\<close> e by linarith
    ultimately show ?thesis using rs(1,2) True sc by (intro exI [of _ r] exI [of _ s]) simp
  next
    case False
    from Cons.IH [of "Suc i" idx best] obtain r s where
      rs: "choose_from cfg (Suc i) brs idx best = Inr r" "\<forall>b\<in>set brs. score_of cfg b \<le> s + ?e"
        "r = idx \<and> s = best \<or> (\<exists>j<length brs. r = Suc i + j \<and> s = score_of cfg (brs ! j)) \<and> best + ?e < s" by blast
    have "(\<exists>j<length brs. r = Suc i + j \<and> s = score_of cfg (brs ! j)) \<Longrightarrow>
        \<exists>j<length (br # brs). r = i + j \<and> s = score_of cfg ((br # brs) ! j)"
      by (metis add_Suc_right add_Suc length_Cons nth_Cons_Suc not_less_eq)
    moreover have "?s \<le> s + ?e" using rs(3) False e by (elim disjE conjE; linarith)
    ultimately show ?thesis using rs False sc by (intro exI [of _ r] exI [of _ s]) auto
  qed
qed

section \<open>Properties\<close>

text \<open>
  C39. With nonzero denominators and a positive maximal distance the fork choice always returns.
  When the previous choice is a branch, the result is a branch whose score no other branch exceeds
  by more than the margin \<open>epsilon\<close>, and it is the previous choice unless the new one beats it by
  strictly more than the margin. When the previous choice is out of range and no branch scores
  more than the margin, the result is that same out-of-range index, not the first branch.
\<close>

theorem fork_choice_correct:
  assumes "params_ok cfg"
  shows "(\<forall>br. branch_score br cfg = Inr (score_of cfg br)) \<and>
    (\<exists>r. fork_choice brs cfg prev = Inr r \<and>
      (prev < length brs \<longrightarrow> r < length brs \<and>
        (\<forall>br\<in>set brs. score_of cfg br \<le> score_of cfg (brs ! r) + uint (epsilon cfg)) \<and>
        (r = prev \<or> score_of cfg (brs ! prev) + uint (epsilon cfg) < score_of cfg (brs ! r))) \<and>
      (length brs \<le> prev \<and> (\<forall>br\<in>set brs. score_of cfg br \<le> uint (epsilon cfg)) \<longrightarrow> r = prev))"
proof -
  have sc: "branch_score br cfg = Inr (score_of cfg br)" for br using branch_score_of [OF assms] by blast
  define best where "best = (if prev < length brs then score_of cfg (brs ! prev) else 0)"
  obtain r s where r: "choose_from cfg 0 brs prev best = Inr r" "\<forall>br\<in>set brs. score_of cfg br \<le> s + uint (epsilon cfg)"
    "r = prev \<and> s = best \<or> (\<exists>j<length brs. r = 0 + j \<and> s = score_of cfg (brs ! j)) \<and> best + uint (epsilon cfg) < s"
    using choose_from_best [OF assms] by blast
  have "fork_choice brs cfg prev = Inr r" using r(1) by (auto simp: fork_choice_def sc best_def)
  moreover have "r = prev" if "length brs \<le> prev" "\<forall>br\<in>set brs. score_of cfg br \<le> uint (epsilon cfg)"
    using r(3) that by (auto simp: best_def) (meson not_le nth_mem)
  ultimately show ?thesis using r sc by (auto simp: best_def split: if_splits)
qed

lemma default_params_ok: "params_ok default_params"
  using SCALE_pos(1) by (simp add: params_ok_def default_params_def SCALE_def)

definition example_frame :: "int \<Rightarrow> u64 \<Rightarrow> byte \<Rightarrow> frame" where
  "example_frame d s a = \<lparr>fr_distance = d, fr_seniority = s, fr_prover_address = [a]\<rparr>"

theorem fork_choice_correct_witness:
  "params_ok default_params \<and> fork_choice [] default_params 7 = Inr 7 \<and>
   (\<exists>r<2. fork_choice [[example_frame 5 1 2], [example_frame 3 1 2, example_frame 4 0 3]] default_params 0 = Inr r)"
  using default_params_ok fork_choice_correct [OF default_params_ok, of "[]" 7]
    fork_choice_correct [OF default_params_ok, of "[[example_frame 5 1 2], [example_frame 3 1 2, example_frame 4 0 3]]" 0]
  by (auto simp: numeral_2_eq_2)

text \<open>
  Scores reward better frames: with nonzero denominators and a positive maximal distance
  every branch has a score, it is not negative, and replacing frames by frames of the same provers
  with no greater distance and no smaller seniority never lowers it.
\<close>

theorem branch_score_monotone:
  assumes "params_ok cfg" "list_all2 frame_better fs gs"
  shows "\<exists>s t. branch_score fs cfg = Inr s \<and> branch_score gs cfg = Inr t \<and> 0 \<le> t \<and> t \<le> s"
  using branch_score_of [OF assms(1)] score_mono [OF assms] by blast

theorem branch_score_monotone_witness:
  "\<exists>s t. branch_score [example_frame 3 9 2] default_params = Inr s \<and> branch_score [example_frame 5 1 2] default_params = Inr t \<and>
    0 \<le> t \<and> t \<le> s"
  using branch_score_monotone [OF default_params_ok, of "[example_frame 3 9 2]" "[example_frame 5 1 2]"]
  by (simp add: frame_better_def example_frame_def)

end
