(* ===== verification/Difficulty.thy ===== *)
theory Difficulty
  imports Prelude "HOL-Library.Signed_Division"
begin

text \<open>
  The difficulty adjustment of \<^verbatim>\<open>quil-engine/src/difficulty.rs\<close>: an integer approximation of an
  exponential in the deviation from the ideal schedule. Signed and unsigned 64-bit integers are
  words, so additions and multiplications wrap as in a release build; the signed division
  truncates, the signed shift rounds down.
\<close>

section \<open>The adjustment\<close>

definition IDEAL_FRAME_TIME :: "64 word" where "IDEAL_FRAME_TIME = 10000"
definition HALF_LIFE :: "64 word" where "HALF_LIFE = 7200000"
definition MIN_DIFFICULTY :: u64 where "MIN_DIFFICULTY = 50000"
definition BOOTSTRAP_DIFFICULTY :: u64 where "BOOTSTRAP_DIFFICULTY = 50000"

record adjuster =
  anchor_frame_number :: u64
  anchor_parent_time :: "64 word"
  anchor_difficulty :: u32

definition exponent :: "adjuster \<Rightarrow> u64 \<Rightarrow> 64 word \<Rightarrow> int" where
  "exponent a current_frame_number current_time =
    (let frame_number_delta = current_frame_number - anchor_frame_number a;
         time_delta = current_time - anchor_parent_time a;
         ideal_x_delta = IDEAL_FRAME_TIME * (frame_number_delta + 1);
         inner = time_delta - ideal_x_delta;
         numerator = - (inner * 65536)
     in sint numerator sdiv sint HALF_LIFE)"

definition poly :: "u64 \<Rightarrow> u64" where
  "poly frac = 195766423245049 * frac + 971821376 * frac * frac + 5127 * frac * frac * frac + push_bit 47 1"

definition factor :: "u64 \<Rightarrow> u64" where
  "factor frac = 65536 + drop_bit 48 (poly frac)"

definition apply_floor :: "u64 \<Rightarrow> u64" where
  "apply_floor scaled = (let scaled = drop_bit 16 scaled in if scaled < MIN_DIFFICULTY then MIN_DIFFICULTY else scaled)"

definition get_next_difficulty :: "adjuster \<Rightarrow> u64 \<Rightarrow> 64 word \<Rightarrow> u64" where
  "get_next_difficulty a current_frame_number current_time =
    (if anchor_difficulty a = 0 then BOOTSTRAP_DIFFICULTY
     else
       let e = exponent a current_frame_number current_time;
           shifts = drop_bit 16 e;
           frac = word_of_int (e AND 0xFFFF);
           scaled = ucast (anchor_difficulty a) * factor frac
       in if shifts < 0 then
            let k = nat (- shifts) in apply_floor (if 64 \<le> k then 0 else drop_bit k scaled)
          else if 48 < shifts \<and> 0 < anchor_difficulty a then - 1
          else
            let k = nat shifts in if 64 \<le> k then - 1 else apply_floor (push_bit k scaled))"

section \<open>The exact value\<close>

text \<open>The factor, and the scaled difficulty, in unbounded arithmetic.\<close>

definition factor_of :: "nat \<Rightarrow> nat" where
  "factor_of f = 65536 + (195766423245049 * f + 971821376 * f ^ 2 + 5127 * f ^ 3 + 2 ^ 47) div 2 ^ 48"

definition scaled_of :: "nat \<Rightarrow> int \<Rightarrow> nat" where
  "scaled_of d e =
    (let s = e div 65536; p = d * factor_of (nat (e mod 65536))
     in if s < 0 then p div 2 ^ nat (- s) else p * 2 ^ nat s)"

lemma poly_bound:
  assumes "f \<le> (65535 :: nat)"
  shows "195766423245049 * f + 971821376 * f ^ 2 + 5127 * f ^ 3 + 2 ^ 47 \<le> 18446563080438344768"
proof -
  have "f ^ 2 \<le> 65535 ^ 2" "f ^ 3 \<le> 65535 ^ 3" using assms by (intro power_mono; simp)+
  with assms show ?thesis by simp
qed

lemma factor_of_bounds: "f \<le> 65535 \<Longrightarrow> 65536 \<le> factor_of f \<and> factor_of f \<le> 131071"
proof -
  assume "f \<le> 65535"
  from div_le_mono [OF poly_bound [OF this], of "2 ^ 48"] show ?thesis by (simp add: factor_of_def)
qed

lemma factor_of_mono: "f \<le> g \<Longrightarrow> factor_of f \<le> factor_of g"
  by (auto simp: factor_of_def intro!: div_le_mono add_mono mult_left_mono power_mono)

lemma factor_exact:
  assumes "f \<le> 65535"
  shows "unat (factor (word_of_nat f)) = factor_of f"
proof -
  define N where "N = 195766423245049 * f + 971821376 * f ^ 2 + 5127 * f ^ 3 + 2 ^ 47"
  have N: "N < 2 ^ 64" using poly_bound [OF assms] by (simp add: N_def)
  have "poly (word_of_nat f) = word_of_nat N"
    by (simp add: poly_def N_def power2_eq_square power3_eq_cube push_bit_eq_mult algebra_simps)
  with N have "unat (poly (word_of_nat f)) = N" by (simp add: unat_of_nat)
  then have "unat (drop_bit 48 (poly (word_of_nat f))) = N div 2 ^ 48"
    by (simp only: unat_drop_bit_eq) (simp add: drop_bit_eq_div)
  moreover have "N div 2 ^ 48 + 65536 < 2 ^ 64" using factor_of_bounds [OF assms] by (simp add: factor_of_def N_def)
  ultimately show ?thesis by (simp add: factor_def factor_of_def N_def unat_word_ariths)
qed

lemma unat_apply_floor: "unat (apply_floor w) = max 50000 (unat w div 65536)"
proof -
  have d: "unat (drop_bit 16 w) = unat w div 65536" by (simp only: unat_drop_bit_eq) (simp add: drop_bit_eq_div)
  have "drop_bit 16 w < MIN_DIFFICULTY \<longleftrightarrow> unat w div 65536 < 50000"
    by (simp only: word_less_nat_alt d) (simp add: MIN_DIFFICULTY_def)
  then show ?thesis using d by (simp add: apply_floor_def Let_def MIN_DIFFICULTY_def del: drop_bit_eq_div)
qed

definition frac_of :: "int \<Rightarrow> nat" where "frac_of e = nat (e mod 65536)"

lemma frac_of_le: "frac_of e \<le> 65535"
  by (simp add: frac_of_def)

lemma frac_word: "(word_of_int (e AND 0xFFFF) :: u64) = word_of_nat (frac_of e)"
proof -
  have "e AND 0xFFFF = e mod 65536" using take_bit_eq_mask [of 16 e] by (simp add: take_bit_eq_mod mask_eq_exp_minus_1)
  then show ?thesis by (simp add: frac_of_def)
qed

definition product_of :: "nat \<Rightarrow> int \<Rightarrow> nat" where "product_of d e = d * factor_of (frac_of e)"

lemma product_bound: "product_of (unat (d :: u32)) e < 2 ^ 49"
proof -
  have "unat d \<le> 4294967295" using unsigned_less [of d, where ?'a = nat] by simp
  moreover have "factor_of (frac_of e) \<le> 131071" using factor_of_bounds frac_of_le by blast
  ultimately have "product_of (unat d) e \<le> 4294967295 * 131071" unfolding product_of_def by (intro mult_mono) auto
  then show ?thesis by simp
qed

lemma product_exact: "unat (ucast (d :: u32) * factor (word_of_int (e AND 0xFFFF)) :: u64) = product_of (unat d) e"
proof -
  have "unat d < 2 ^ 64" using unsigned_less [of d, where ?'a = nat] by simp
  then have "unat (ucast d :: u64) = unat d" by (simp add: unsigned_ucast_eq take_bit_nat_eq_self)
  then have "unat (ucast d :: u64) * unat (factor (word_of_nat (frac_of e))) = product_of (unat d) e"
    by (simp add: factor_exact frac_of_le product_of_def)
  then show ?thesis using product_bound [of d e] by (simp add: frac_word unat_word_ariths)
qed

lemma next_difficulty_exact:
  assumes "anchor_difficulty a \<noteq> 0" and "exponent a n t < 16 * 65536"
  shows "unat (get_next_difficulty a n t) = max 50000 (scaled_of (unat (anchor_difficulty a)) (exponent a n t) div 65536)"
proof -
  define e where "e = exponent a n t"
  define w where "w = (ucast (anchor_difficulty a) * factor (word_of_int (e AND 0xFFFF)) :: u64)"
  define p where "p = product_of (unat (anchor_difficulty a)) e"
  have w: "unat w = p" "p < 2 ^ 49" using product_exact product_bound by (simp_all add: w_def p_def)
  have s: "scaled_of (unat (anchor_difficulty a)) e = (if e div 65536 < 0 then p div 2 ^ nat (- (e div 65536)) else p * 2 ^ nat (e div 65536))"
    by (simp add: scaled_of_def Let_def p_def product_of_def frac_of_def)
  have sh: "drop_bit 16 e = e div 65536" by (simp add: drop_bit_eq_div)
  show ?thesis
  proof (cases "e div 65536 < 0")
    case True
    define k where "k = nat (- (e div 65536))"
    have "p div 2 ^ k = 0" if "64 \<le> k" using w(2) power_increasing [OF that, of "2 :: nat"] by simp
    moreover have "unat (drop_bit k w) = p div 2 ^ k" by (simp only: unat_drop_bit_eq) (simp add: drop_bit_eq_div w)
    ultimately have "unat (if 64 \<le> k then 0 else drop_bit k w) = p div 2 ^ k" by simp
    moreover have "get_next_difficulty a n t = apply_floor (if 64 \<le> k then 0 else drop_bit k w)"
      unfolding get_next_difficulty_def Let_def e_def [symmetric] w_def [symmetric] sh k_def [symmetric]
      using True assms(1) by (simp only: if_True if_False)
    ultimately show ?thesis using True s
      by (simp only: unat_apply_floor e_def [symmetric] k_def [symmetric] if_True)
  next
    case False
    define k where "k = nat (e div 65536)"
    have k: "k \<le> 15" using False assms(2) by (simp add: k_def e_def)
    have "p * 2 ^ k \<le> p * 2 ^ 15" using k by (intro mult_le_mono2 power_increasing) auto
    moreover have "p * 2 ^ 15 < 2 ^ 64" using w(2) by simp
    ultimately have "p * 2 ^ k < 2 ^ 64" by (rule le_less_trans)
    then have "unat (push_bit k w) = p * 2 ^ k"
      by (simp only: unsigned_push_bit_eq w) (simp add: push_bit_eq_mult take_bit_nat_eq_self)
    moreover have "\<not> 48 < e div 65536" "\<not> 64 \<le> k" using k False by (simp_all add: k_def)
    moreover from this have "get_next_difficulty a n t = apply_floor (push_bit k w)"
      unfolding get_next_difficulty_def Let_def e_def [symmetric] w_def [symmetric] sh k_def [symmetric]
      using False assms(1) by (simp only: if_False simp_thms)
    ultimately show ?thesis using False s
      by (simp only: unat_apply_floor e_def [symmetric] k_def [symmetric] if_False)
  qed
qed

section \<open>Monotonicity\<close>

text \<open>The scaled value when the shift is moved to an exponent \<open>j\<close> of the denominator.\<close>

lemma scaled_step: "0 \<le> j \<Longrightarrow> e div 65536 = i - j \<Longrightarrow> 0 \<le> i \<Longrightarrow>
    scaled_of d e = d * factor_of (frac_of e) * 2 ^ nat i div 2 ^ nat j"
proof -
  assume j: "0 \<le> j" and e: "e div 65536 = i - j" and i: "0 \<le> i"
  define p where "p = d * factor_of (frac_of e)"
  have sc: "scaled_of d e = (if i - j < 0 then p div 2 ^ nat (- (i - j)) else p * 2 ^ nat (i - j))"
    by (simp only: scaled_of_def Let_def e p_def frac_of_def)
  show ?thesis
  proof (cases "i < j")
    case True
    then have "nat j = nat (- (i - j)) + nat i" using i by linarith
    then have "p * 2 ^ nat i div 2 ^ nat j = p div 2 ^ nat (- (i - j))" by (simp only: power_add) simp
    with True show ?thesis by (simp only: sc p_def) simp
  next
    case False
    then have "nat i = nat (i - j) + nat j" using j by linarith
    then have "p * 2 ^ nat i div 2 ^ nat j = p * 2 ^ nat (i - j)" by (simp only: power_add) simp
    with False show ?thesis by (simp only: sc p_def) simp
  qed
qed

lemma factor_shift_mono:
  assumes "e \<le> e'"
  shows "factor_of (frac_of e) \<le> factor_of (frac_of e') * 2 ^ nat (e' div 65536 - e div 65536)"
proof (cases "e div 65536 = e' div 65536")
  case True
  with assms have "e mod 65536 \<le> e' mod 65536" by (metis div_mult_mod_eq add_le_cancel_left)
  then have "factor_of (frac_of e) \<le> factor_of (frac_of e')" by (intro factor_of_mono) (simp add: frac_of_def)
  with True show ?thesis by simp
next
  case False
  have "e div 65536 \<le> e' div 65536" using assms by (intro zdiv_mono1) auto
  with False have "1 \<le> nat (e' div 65536 - e div 65536)" by simp
  then have "(2 :: nat) ^ 1 \<le> 2 ^ nat (e' div 65536 - e div 65536)" by (rule power_increasing) simp
  moreover have "factor_of (frac_of e) \<le> 65536 * 2 ^ 1" "65536 \<le> factor_of (frac_of e')"
    using factor_of_bounds [OF frac_of_le, of e] factor_of_bounds [OF frac_of_le, of e'] by simp_all
  ultimately show ?thesis by (meson mult_le_mono order_trans)
qed

lemma scaled_mono:
  assumes "e \<le> e'"
  shows "scaled_of d e \<le> scaled_of d e'"
proof -
  define j where "j = max 0 (- (e div 65536))"
  define i where "i = e div 65536 + j"
  define i' where "i' = e' div 65536 + j"
  have le: "e div 65536 \<le> e' div 65536" using assms by (intro zdiv_mono1) auto
  then have nn: "0 \<le> j" "0 \<le> i" "0 \<le> i'" "nat i' = nat (e' div 65536 - e div 65536) + nat i"
    by (simp_all add: i_def i'_def j_def nat_add_distrib [symmetric])
  have "d * factor_of (frac_of e) * 2 ^ nat i \<le> d * factor_of (frac_of e') * 2 ^ nat i'"
    using mult_le_mono [OF mult_le_mono2 [OF factor_shift_mono [OF assms], of d] order.refl, of "2 ^ nat i"]
    by (simp add: nn(4) power_add mult.assoc mult.left_commute)
  with scaled_step [OF nn(1) _ nn(2), of e d] scaled_step [OF nn(1) _ nn(3), of e' d]
  show ?thesis by (simp add: i_def i'_def div_le_mono)
qed

lemma apply_floor_min: "MIN_DIFFICULTY \<le> apply_floor w"
  by (simp add: apply_floor_def Let_def not_less)

lemma next_difficulty_floor: "MIN_DIFFICULTY \<le> get_next_difficulty a n t"
  using apply_floor_min
  by (auto simp: get_next_difficulty_def Let_def BOOTSTRAP_DIFFICULTY_def MIN_DIFFICULTY_def)

lemma example_overflow:
  "get_next_difficulty \<lparr>anchor_frame_number = 0, anchor_parent_time = 0, anchor_difficulty = 65536\<rparr> 23039 0 = MIN_DIFFICULTY"
  by code_simp

section \<open>The schedule\<close>

text \<open>By how many milliseconds a frame is ahead of its ideal time: the anchor's parent time and ten
  seconds for each frame since, the anchor included.\<close>

definition lead :: "adjuster \<Rightarrow> u64 \<Rightarrow> 64 word \<Rightarrow> int" where
  "lead a n t = sint (anchor_parent_time a) + 10000 * (uint n - uint (anchor_frame_number a) + 1) - sint t"

lemma exponent_lead:
  assumes "\<bar>lead a n t\<bar> < 2 ^ 47"
  shows "exponent a n t = (lead a n t * 65536) sdiv 7200000"
proof -
  have "- ((t - anchor_parent_time a - IDEAL_FRAME_TIME * (n - anchor_frame_number a + 1)) * 65536) = word_of_int (lead a n t * 65536)"
    by (simp add: lead_def IDEAL_FRAME_TIME_def algebra_simps)
  moreover have "sint (word_of_int (lead a n t * 65536) :: u64) = lead a n t * 65536"
    using assms unfolding int_word_sint by (simp add: mod_pos_pos_trivial abs_less_iff)
  moreover have "sint HALF_LIFE = 7200000" by (simp add: HALF_LIFE_def)
  ultimately show ?thesis by (simp add: exponent_def Let_def)
qed

lemma sdiv_mono: "x \<le> y \<Longrightarrow> 0 < m \<Longrightarrow> x sdiv m \<le> y sdiv (m :: int)"
proof -
  assume xy: "x \<le> y" and m: "0 < m"
  have pos: "z sdiv m = (if 0 \<le> z then z div m else - ((- z) div m))" for z
    using m by (auto simp: signed_divide_int_def sgn_if)
  have "x div m \<le> y div m" "(- y) div m \<le> (- x) div m" using xy m by (auto intro: zdiv_mono1)
  moreover have "0 \<le> z div m" if "0 \<le> z" for z using that m by (simp add: pos_imp_zdiv_nonneg_iff)
  ultimately show ?thesis using xy pos [of x] pos [of y] by (smt (verit))
qed

lemma sdiv_half_lives: "(k * 7200000 * 65536) sdiv 7200000 = k * (65536 :: int)"
  by (simp add: signed_divide_int_def sgn_mult abs_mult sgn_if)

lemma scaled_half_lives:
  "scaled_of d (k * 65536) div 65536 = (if 0 \<le> k then d * 2 ^ nat k else d div 2 ^ nat (- k))"
proof -
  have one: "factor_of 0 = 65536" by (simp add: factor_of_def)
  have "d * 65536 div 2 ^ j div 65536 = d div 2 ^ j" for j
    by (metis div_mult2_eq mult.commute nonzero_mult_div_cancel_right zero_neq_numeral)
  then show ?thesis by (simp add: scaled_of_def Let_def one)
qed

lemma lead_small:
  assumes "\<bar>lead a n t\<bar> < 2 ^ 47" "lead a n t < 16 * 7200000"
  shows "exponent a n t < 16 * 65536"
proof -
  have "lead a n t * 65536 \<le> (16 * 7200000 - 1) * 65536" using assms(2) by simp
  from sdiv_mono [OF this, of 7200000] show ?thesis
    unfolding exponent_lead [OF assms(1)] by (simp add: signed_divide_int_def)
qed

section \<open>Properties\<close>

text \<open>
  C40. The difficulty follows the schedule. Take a nonzero anchor and two frames whose distances from
  the ideal time are below \<open>2 ^ 47\<close> milliseconds and less than sixteen half-lives (32 hours) early.
  Then no multiplication or shift loses bits: the difficulty is the anchor's scaled, in unbounded
  arithmetic, by the exponent that the lead over the ideal time determines, or the floor of 50,000. A
  frame with the larger lead never has the smaller difficulty. On schedule the difficulty is the
  anchor's, every half-life ahead doubles it and every half-life behind halves it, down to the floor.
  The floor holds for every frame, time and anchor. Further ahead the shift loses the high bits: 32
  half-lives ahead of an anchor of 65,536 the difficulty is the floor.
\<close>

theorem difficulty_adjustment:
  assumes "anchor_difficulty a \<noteq> 0" "\<bar>lead a n t\<bar> < 2 ^ 47" "\<bar>lead a n' t'\<bar> < 2 ^ 47"
    and "lead a n t \<le> lead a n' t'" "lead a n' t' < 16 * 7200000"
  defines "d \<equiv> unat (anchor_difficulty a)"
  shows "unat (get_next_difficulty a n t) = max 50000 (scaled_of d ((lead a n t * 65536) sdiv 7200000) div 65536) \<and>
    get_next_difficulty a n t \<le> get_next_difficulty a n' t' \<and>
    (lead a n t = k * 7200000 \<longrightarrow>
      unat (get_next_difficulty a n t) = max 50000 (if 0 \<le> k then d * 2 ^ nat k else d div 2 ^ nat (- k))) \<and>
    MIN_DIFFICULTY \<le> get_next_difficulty b m u \<and>
    lead \<lparr>anchor_frame_number = 0, anchor_parent_time = 0, anchor_difficulty = 65536\<rparr> 23039 0 = 32 * 7200000 \<and>
    get_next_difficulty \<lparr>anchor_frame_number = 0, anchor_parent_time = 0, anchor_difficulty = 65536\<rparr> 23039 0 = MIN_DIFFICULTY"
proof -
  have le: "exponent a n t \<le> exponent a n' t'"
    unfolding exponent_lead [OF assms(2)] exponent_lead [OF assms(3)] using assms(4) by (intro sdiv_mono) simp_all
  have small: "exponent a n' t' < 16 * 65536" "exponent a n t < 16 * 65536"
    using lead_small [OF assms(3,5)] le by simp_all
  note exact = next_difficulty_exact [OF assms(1) small(2)] next_difficulty_exact [OF assms(1) small(1)]
  have "get_next_difficulty a n t \<le> get_next_difficulty a n' t'"
    unfolding word_le_nat_alt exact using scaled_mono [OF le] by (intro max.mono div_le_mono order.refl)
  moreover have "unat (get_next_difficulty a n t) = max 50000 (if 0 \<le> k then d * 2 ^ nat k else d div 2 ^ nat (- k))"
    if "lead a n t = k * 7200000"
    unfolding exact(1) exponent_lead [OF assms(2)] that sdiv_half_lives scaled_half_lives d_def ..
  moreover have "lead \<lparr>anchor_frame_number = 0, anchor_parent_time = 0, anchor_difficulty = 65536\<rparr> 23039 0 = 32 * 7200000"
    by (simp add: lead_def)
  ultimately show ?thesis
    using exact(1) next_difficulty_floor [of b m u] example_overflow exponent_lead [OF assms(2)] by (simp add: d_def)
qed

definition example_adjuster :: adjuster where
  "example_adjuster = \<lparr>anchor_frame_number = 0, anchor_parent_time = 0, anchor_difficulty = 200000\<rparr>"

theorem difficulty_adjustment_witness:
  "unat (get_next_difficulty example_adjuster 0 7210000) = 100000 \<and> unat (get_next_difficulty example_adjuster 0 10000) = 200000 \<and>
   get_next_difficulty example_adjuster 0 10000 \<le> get_next_difficulty example_adjuster 0 5000"
proof -
  have lead: "lead example_adjuster 0 7210000 = - 1 * 7200000" "lead example_adjuster 0 10000 = 0 * 7200000"
    "lead example_adjuster 0 5000 = 5000" "unat (anchor_difficulty example_adjuster) = 200000" "anchor_difficulty example_adjuster \<noteq> 0"
    by (simp_all add: lead_def example_adjuster_def)
  have "unat (get_next_difficulty example_adjuster 0 7210000) = 100000"
    using difficulty_adjustment [of example_adjuster 0 7210000 0 10000 "- 1" undefined 0 0] lead by simp
  moreover have "unat (get_next_difficulty example_adjuster 0 10000) = 200000"
    "get_next_difficulty example_adjuster 0 10000 \<le> get_next_difficulty example_adjuster 0 5000"
    using difficulty_adjustment [of example_adjuster 0 10000 0 5000 0 undefined 0 0] lead by simp_all
  ultimately show ?thesis by simp
qed

end
