(* ===== verification/Spec2Isabelle.thy ===== *)
theory Spec2Isabelle
  imports TraversalOk TreeCompare ShardRoots GlobalExecution EngineLifecycle Submissions ForkChoice Difficulty
begin

text \<open>
  A verification library for parts of the Rust workspace of the Quilibrium node and client
  (\<^verbatim>\<open>src/crates\<close>). The node keeps its state in vector commitment trees, exchanges operations as
  canonical byte strings, dispatches them to execution handlers, and runs consensus engines that
  produce frames. The library follows one operation along that way: the tree that stores state and
  the proofs about it, the messages on the wire, the dispatch, the changeset a message writes and its
  publication to the hypergraph, the shards that divide an application's addresses, the committee
  handoff records, and the bookkeeping of the engines.

  \<^bold>\<open>Foundations.\<close>
  \<^item> \<open>Prelude\<close>: the error type (\<^verbatim>\<open>quil-types/src/error.rs\<close>), results with \<open>rbind\<close> for the question
    mark, big-endian integers, saturating arithmetic. A Rust panic is the error \<open>Panic\<close>.
  \<^item> \<open>KvStore\<close>: the contract \<open>kv_store\<close> of a map-like container, interpreted by the tree.
  \<^item> \<open>Codec\<close>, \<open>Canonical\<close>: readers over byte strings and the contracts of encoder and decoder pairs,
    \<open>codec\<close> (decoding undoes encoding), \<open>checked_codec\<close> (only well-formed values are returned) and
    \<open>nested_codec\<close> (a message can sit behind a length in another). \<open>HandoffRecords\<close> adds
    \<open>strict_codec\<close> (exactly the encodings are accepted). Each is interpreted by the message
    formats, whose round trips are facts of the interpretations.

  \<^bold>\<open>The tree\<close> (\<^verbatim>\<open>quil-tries\<close>).
  \<^item> \<open>Nibble\<close> (\<^verbatim>\<open>nibble.rs\<close>): six-bit nibbles of a key, and the facts about paths.
  \<^item> \<open>VTree\<close> (\<^verbatim>\<open>node.rs\<close>, \<^verbatim>\<open>tree.rs\<close>): nodes, \<open>get\<close>, \<open>insert\<close>, \<open>delete\<close>. \<open>VTreeInv\<close>: the invariant and
    its preservation; a tree behaves as a finite map under every history of compatible keys; the
    leaf counters are exact; and what happens to keys whose path is a prefix of another.
  \<^item> \<open>TreeCommit\<close>: commitments. The root commitment depends on the contents only, not on the
    history.
  \<^item> \<open>Traversal\<close>, \<open>TraversalOk\<close> (\<^verbatim>\<open>tree.rs\<close>, \<^verbatim>\<open>traversal_proof.rs\<close>): proofs of one and of several keys,
    their encoding, and their verification: honest proofs are accepted; which malformed ones are.
  \<^item> \<open>TreeSerialize\<close>, \<open>TreeSerializeOk\<close> (\<^verbatim>\<open>serialize.rs\<close>, \<^verbatim>\<open>go_format.rs\<close>): both tree formats and the
    per-node format, with round trips and the bounds on what a decoder returns.
  \<^item> \<open>TreeCompare\<close> (\<^verbatim>\<open>compare.rs\<close>) and \<open>VertexCommit\<close> (\<^verbatim>\<open>vertex_commit.rs\<close>).

  \<^bold>\<open>Messages\<close> (\<^verbatim>\<open>quil-execution\<close>). For each message type there is a record, an encoder, a reader and
  the decoder of whole byte strings, and a predicate for the limits of the decoder.
  \<^item> \<open>Signatures\<close>: messages nested in others. \<open>ProverMessages\<close>, \<open>ConfirmMessages\<close>: the operations of
    provers, leaf roots, releases and the eligibility schedule. \<open>FrameHeaders\<close>: global and shard
    frame headers. \<open>ConsensusMessages\<close>: proofs, proposals and certificates.
  \<^item> \<open>Envelope\<close> (\<^verbatim>\<open>message_envelope.rs\<close>): requests and bundles.
  \<^item> \<open>HandoffRecords\<close> (\<^verbatim>\<open>quil-cw-consensus/src/handoff.rs\<close>, \<^verbatim>\<open>global_intrinsic/handoff.rs\<close>) and
    \<open>PresenceReports\<close> (\<^verbatim>\<open>handoff_presence.rs\<close>): sessions, seals, submissions and presence reports
    have one encoding each; a session identifier binds its configuration.
  \<^item> \<open>GlobalDispatch\<close> (\<^verbatim>\<open>global_engine.rs\<close>, \<^verbatim>\<open>message_router.rs\<close>, \<^verbatim>\<open>invoke_step\<close> of \<^verbatim>\<open>intrinsic.rs\<close>,
    \<^verbatim>\<open>engines.rs\<close>): kinds, routes, dispatch and signers. Every operation reaches its handler, except
    seniority merges, which reach none. This theory composes the two into the delivery of a bundle.

  \<^bold>\<open>Execution state\<close> (\<^verbatim>\<open>quil-hypergraph\<close>, \<^verbatim>\<open>quil-execution\<close>).
  \<^item> \<open>CrdtStaging\<close> (\<^verbatim>\<open>addressing.rs\<close>, the mutations and reads of \<^verbatim>\<open>crdt.rs\<close>): a record \<open>crdt\<close> with the
    staged blobs, leaves, records and sub-shard metadata, and \<open>apply_mutations\<close> in its two halves,
    preparation and publication. A batch refines the two-set semantics of vertices and hyperedges;
    the reported size of a sub-shard drifts from its live bytes where an addition overwrites.
  \<^item> \<open>StateChanges\<close> (\<^verbatim>\<open>hypergraph_state.rs\<close>): the record \<open>hstate\<close> of a hypergraph and a changeset, its
    reads, writes, savepoints and commit, and the metadata vertex. A commit makes exactly the
    changeset readable; the write operations, as the relation \<open>writes\<close>, only append, so a savepoint
    restores the state.
  \<^item> \<open>GlobalExecution\<close> (\<^verbatim>\<open>engines.rs\<close>): \<open>process_message\<close> over any step that uses the write operations is
    a transaction. This rests on the savepoints of \<open>StateChanges\<close>.

  \<^bold>\<open>Shards\<close> (\<^verbatim>\<open>quil-forest/src/lib.rs\<close>, \<^verbatim>\<open>partition\<close> of \<^verbatim>\<open>global_intrinsic/handoff.rs\<close>).
  \<^item> \<open>ShardPaths\<close>: shard filters, stored prefixes, canonical bit paths and the routing of an address.
  \<^item> \<open>ShardRanges\<close>: the reduction of a set of filters to the ranges it covers. The loop ends; two
    partitions are equal exactly when they cover the same addresses; a deep split covers its parent.
  \<^item> \<open>ShardRoots\<close>: the root of an application over its shards at mixed or at one depth, with co-paths
    and their verification, and where the two constructions differ.

  \<^bold>\<open>Engines\<close> (\<^verbatim>\<open>quil-engine\<close>).
  \<^item> \<open>EngineLifecycle\<close> (\<^verbatim>\<open>engine_state.rs\<close>): any number of callers of \<open>transition_to\<close>, interleaved at
    their atomic accesses, refine an atomic transition; a caller that runs alone returns.
  \<^item> \<open>Submissions\<close> (\<^verbatim>\<open>submission_attempts.rs\<close>): a step relation on the table and the live guards,
    with the invariant that ownership is exclusive.
  \<^item> \<open>ForkChoice\<close> (\<^verbatim>\<open>fork_choice.rs\<close>) and \<open>Difficulty\<close> (\<^verbatim>\<open>difficulty.rs\<close>): scores, the choice with its
    margin, and the difficulty on 64-bit words with the range in which it is exact.

  \<^bold>\<open>Arguments and hypotheses.\<close> Hash functions, the inclusion prover, conversions of big integers,
  the address of a public key and the settings of a process (epoch length, release frame,
  eligibility schedule) are arguments. Hypotheses about them appear in the statements: the prover
  accepts what it proved, a conversion undoes its inverse, a hash does not collide on two given
  inputs, the store's reads do not fail, the steps of a message change the state only through its write
  operations. Each statement with a hypothesis has a theorem that applies it to a concrete case.

  \<^bold>\<open>Bounds.\<close> All recursions end by their own measure, so nothing depends on fuel; the one loop that
  need not end, the search for three distinct bytes in \<^verbatim>\<open>get_bloom_filter_indices\<close>, is a partial
  function, shown to return when the stream has three distinct bytes. The limits that
  appear are those of the code: 128 levels and 256 prefix nibbles for tree decoders, the field
  caps of each message, 4 MiB for handoff records.

  \<^bold>\<open>Not modelled.\<close> The handlers behind the dispatch (an argument of \<open>process_message\<close>), the other
  intrinsics, the registry, the commit of a frame to the forest and the stores; the consensus protocol, networking and remote calls;
  cryptography; conversions to generated protobuf types; command line and configuration. They are
  asynchronous services, vendored libraries or generated code, or depend on such. Within the
  modelled parts, parallel evaluation of commitments, poisoned locks, allocation hints, log output
  and error texts are left out, and lengths of byte strings in memory do not overflow \<^verbatim>\<open>usize\<close>.
\<close>

section \<open>Bundles of operations\<close>






end
